(* ===== verification/GC_Prelude.thy ===== *)
theory GC_Prelude
  imports Main "HOL-Library.Word" "HOL-Library.Multiset"
begin

text \<open>
  Shared vocabulary of the development: the machine types of the modelled configuration
  (64-bit words and pointers), the size parameters of \<^verbatim>\<open>include/private/gc_priv.h\<close>, the outcome
  type in which an \<^verbatim>\<open>ABORT\<close> of the source and a loop that does not end are values, the
  pointer alignment macros, and the generic lemmas on words and lists that the component
  theories share.
\<close>

unbundle bit_operations_syntax

section \<open>Machine types\<close>

text \<open>\<open>word\<close>, \<open>size_t\<close> and \<open>ptr_t\<close> of the source are 64 bits wide; \<open>NULL\<close> is 0.\<close>

type_synonym ptr = "64 word"

named_theorems gc_consts \<open>definitions of the size parameters\<close>

definition CPP_WORDSZ :: nat where [gc_consts]: "CPP_WORDSZ = 64"
definition ALIGNMENT :: ptr where [gc_consts]: "ALIGNMENT = 8"
definition LOG_HBLKSIZE :: nat where [gc_consts]: "LOG_HBLKSIZE = 12"
definition HBLKSIZE :: ptr where [gc_consts]: "HBLKSIZE = push_bit LOG_HBLKSIZE 1"
definition MINHINCR :: ptr where [gc_consts]: "MINHINCR = 16"
definition MAXHINCR :: ptr where [gc_consts]: "MAXHINCR = 2048"
definition MAX_ROOT_SETS :: nat where [gc_consts]: "MAX_ROOT_SETS = 2048"
definition MAX_EXCLUSIONS :: nat where [gc_consts]: "MAX_EXCLUSIONS = MAX_ROOT_SETS div 4"
definition LOG_RT_SIZE :: nat where [gc_consts]: "LOG_RT_SIZE = 6"
definition RT_SIZE :: nat where [gc_consts]: "RT_SIZE = 2 ^ LOG_RT_SIZE"

section \<open>Outcomes\<close>

text \<open>
  \<open>Ret\<close> is a normal return, \<open>Abort\<close> the source's \<^verbatim>\<open>ABORT\<close> with its message, and
  \<open>Stuck\<close> a loop that did not end within the fuel its model was given; the properties
  prove that \<open>Stuck\<close> does not occur.
\<close>

datatype 'a outcome = Ret 'a | Abort string | Stuck

primrec obind :: "'a outcome \<Rightarrow> ('a \<Rightarrow> 'b outcome) \<Rightarrow> 'b outcome" where
  "obind (Ret x) f = f x"
| "obind (Abort msg) f = Abort msg"
| "obind Stuck f = Stuck"

lemma obind_eq_Ret: "obind m f = Ret y \<longleftrightarrow> (\<exists>x. m = Ret x \<and> f x = Ret y)"
  by (cases m) auto

section \<open>Pointer alignment\<close>

definition PTR_ALIGN_DOWN :: "ptr \<Rightarrow> ptr \<Rightarrow> ptr" where
  "PTR_ALIGN_DOWN p b = p AND NOT (b - 1)"

definition PTR_ALIGN_UP :: "ptr \<Rightarrow> ptr \<Rightarrow> ptr" where
  "PTR_ALIGN_UP p b = (p + b - 1) AND NOT (b - 1)"

lemma and_not_mask_shift:
  fixes p :: "'a::len word"
  shows "p AND NOT (mask n) = push_bit n (drop_bit n p)"
  by (rule bit_word_eqI) (auto simp: bit_simps)

lemma unat_and_not_mask:
  fixes p :: "'a::len word"
  shows "unat (p AND NOT (mask n)) = unat p div 2 ^ n * 2 ^ n"
proof -
  have *: "unat p div 2 ^ n * 2 ^ n < 2 ^ LENGTH('a)"
    using div_times_less_eq_dividend [of "unat p" "2 ^ n"] unsigned_less [of p]
    by (rule le_less_trans)
  show ?thesis
    unfolding and_not_mask_shift unsigned_push_bit_eq unsigned_drop_bit_eq
    using * by (simp add: push_bit_eq_mult drop_bit_eq_div take_bit_nat_eq_self)
qed

lemma minus_1_eq_mask_3: "(8 - 1 :: ptr) = mask 3"
  by (simp add: mask_eq_exp_minus_1)

lemma unat_ALIGN_DOWN:
  "unat (PTR_ALIGN_DOWN p ALIGNMENT) = unat p div 8 * 8"
  using unat_and_not_mask [of p 3]
  by (simp only: PTR_ALIGN_DOWN_def ALIGNMENT_def minus_1_eq_mask_3) simp

lemma aligned_ALIGN_DOWN: "8 dvd unat (PTR_ALIGN_DOWN p ALIGNMENT)"
  by (simp add: unat_ALIGN_DOWN)

lemma aligned_ALIGN_UP: "8 dvd unat (PTR_ALIGN_UP p ALIGNMENT)"
  using unat_and_not_mask [of "p + 8 - 1" 3]
  by (simp only: PTR_ALIGN_UP_def ALIGNMENT_def minus_1_eq_mask_3) simp

lemma unat_ALIGN_UP:
  assumes "unat p + 7 < 2 ^ 64"
  shows "unat (PTR_ALIGN_UP p ALIGNMENT) = (unat p + 7) div 8 * 8"
proof -
  have "p + 8 - 1 = p + 7" by simp
  then have "unat (p + 8 - 1) = unat p + 7"
    using assms by (simp add: unat_add_lem [THEN iffD1])
  then show ?thesis
    using unat_and_not_mask [of "p + 8 - 1" 3]
    by (simp only: PTR_ALIGN_UP_def ALIGNMENT_def minus_1_eq_mask_3) simp
qed

section \<open>Linked chains\<close>

text \<open>
  \<open>chain nxt p xs q\<close>: following \<open>nxt\<close> from \<open>p\<close> meets exactly the cells \<open>xs\<close> before the end
  marker \<open>q\<close>.
\<close>

fun chain :: "(nat \<Rightarrow> nat) \<Rightarrow> nat \<Rightarrow> nat list \<Rightarrow> nat \<Rightarrow> bool" where
  "chain nxt p [] q \<longleftrightarrow> p = q"
| "chain nxt p (x # xs) q \<longleftrightarrow> p = x \<and> x \<noteq> q \<and> chain nxt (nxt x) xs q"

lemma chain_cong:
  "(\<And>x. x \<in> set xs \<Longrightarrow> nxt x = nxt' x) \<Longrightarrow> chain nxt p xs q = chain nxt' p xs q"
  by (induction xs arbitrary: p) auto

lemma chain_upd [simp]: "a \<notin> set xs \<Longrightarrow> chain (nxt(a := v)) p xs q = chain nxt p xs q"
  by (rule chain_cong) auto

lemma chain_append:
  "chain nxt p (xs @ y # ys) q \<longleftrightarrow>
     chain nxt p xs y \<and> q \<notin> set xs \<and> y \<notin> set xs \<and> y \<noteq> q \<and> chain nxt (nxt y) ys q"
  if "distinct (xs @ y # ys)"
  using that by (induction xs arbitrary: p) auto

lemma chain_end_notin: "chain nxt p xs q \<Longrightarrow> q \<notin> set xs"
  by (induction xs arbitrary: p) auto

lemma chain_unique: "chain nxt p xs q \<Longrightarrow> chain nxt p ys q \<Longrightarrow> xs = ys"
  by (induction xs arbitrary: p ys; case_tac ys) auto

lemma chain_hd: "chain nxt p xs q \<Longrightarrow> p = (if xs = [] then q else hd xs)"
  by (cases xs) auto

text \<open>Splicing a cell into a chain and out of it.\<close>

lemma chain_insert:
  assumes "chain nxt p (as @ cs) q" "distinct (as @ cs)" "r \<notin> set (as @ cs)" "r \<noteq> q"
    and "\<And>x. x \<in> set (as @ cs) \<Longrightarrow> nxt' x = (if as \<noteq> [] \<and> x = last as then r else nxt x)"
    and "nxt' r = (if cs = [] then q else hd cs)"
  shows "chain nxt' (if as = [] then r else p) (as @ r # cs) q"
  using assms
proof (induction as arbitrary: p)
  case Nil
  then have "chain nxt' p cs q = chain nxt p cs q"
    by (intro chain_cong) auto
  with Nil chain_hd[of nxt p cs q] show ?case by auto
next
  case (Cons a as)
  have "chain nxt' (if as = [] then r else nxt a) (as @ r # cs) q"
  proof (rule Cons.IH)
    fix x assume "x \<in> set (as @ cs)"
    then show "nxt' x = (if as \<noteq> [] \<and> x = last as then r else nxt x)"
      using Cons.prems(2) Cons.prems(5)[of x] by (auto split: if_splits)
  qed (use Cons.prems in auto)
  moreover have "nxt' a = (if as = [] then r else nxt a)"
    using Cons.prems(2) Cons.prems(5)[of a] by (auto split: if_splits)
  ultimately show ?case using Cons.prems by auto
qed

lemma chain_remove:
  assumes "chain nxt p (as @ r # cs) q" "distinct (as @ r # cs)"
    and "\<And>x. x \<in> set (as @ cs) \<Longrightarrow> nxt' x = (if as \<noteq> [] \<and> x = last as then nxt r else nxt x)"
  shows "chain nxt' (if as = [] then nxt r else p) (as @ cs) q"
  using assms
proof (induction as arbitrary: p)
  case Nil
  then have "chain nxt' (nxt r) cs q = chain nxt (nxt r) cs q"
    by (intro chain_cong) auto
  with Nil show ?case by auto
next
  case (Cons a as)
  have "chain nxt' (if as = [] then nxt r else nxt a) (as @ cs) q"
  proof (rule Cons.IH)
    fix x assume "x \<in> set (as @ cs)"
    then show "nxt' x = (if as \<noteq> [] \<and> x = last as then nxt r else nxt x)"
      using Cons.prems(2) Cons.prems(3)[of x] by (auto split: if_splits)
  qed (use Cons.prems in auto)
  moreover have "nxt' a = (if as = [] then nxt r else nxt a)"
    using Cons.prems(2) Cons.prems(3)[of a] by (auto split: if_splits)
  ultimately show ?case using Cons.prems by auto
qed

lemma chain_nxt_at:
  "chain nxt p (as @ r # cs) q \<Longrightarrow> nxt r = (if cs = [] then q else hd cs)"
  by (induction as arbitrary: p) (auto dest: chain_hd)

section \<open>Bit tables\<close>

text \<open>
  The page hash tables and the mark bits are arrays of 64-bit words read as tables of bits.
  \<open>bit_table\<close> is what their clients rely on, for the indices below \<open>N\<close>.
\<close>

locale bit_table =
  fixes N :: nat
    and get :: "'t \<Rightarrow> nat \<Rightarrow> bool"
    and put :: "'t \<Rightarrow> nat \<Rightarrow> 't"
    and clear :: "'t \<Rightarrow> 't"
  assumes get_put: "i < N \<Longrightarrow> j < N \<Longrightarrow> get (put t i) j \<longleftrightarrow> i = j \<or> get t j"
    and get_clear: "j < N \<Longrightarrow> \<not> get (clear t) j"
begin

lemma get_put_all:
  "\<forall>i \<in> set is. i < N \<Longrightarrow> j < N \<Longrightarrow> get (fold (\<lambda>i t. put t i) is t) j \<longleftrightarrow> j \<in> set is \<or> get t j"
  by (induction "is" arbitrary: t) (auto simp: get_put)

lemma put_mono: "i < N \<Longrightarrow> j < N \<Longrightarrow> get t j \<Longrightarrow> get (put t i) j"
  by (simp add: get_put)

end

text \<open>One bit of an array of 64-bit words.\<close>

definition array_bit :: "(nat \<Rightarrow> 64 word) \<Rightarrow> nat \<Rightarrow> bool" where
  "array_bit bl i \<longleftrightarrow> drop_bit (i mod 64) (bl (i div 64)) AND 1 \<noteq> 0"

definition array_set_bit :: "(nat \<Rightarrow> 64 word) \<Rightarrow> nat \<Rightarrow> nat \<Rightarrow> 64 word" where
  "array_set_bit bl i = bl(i div 64 := bl (i div 64) OR push_bit (i mod 64) 1)"

definition array_clear_bit :: "(nat \<Rightarrow> 64 word) \<Rightarrow> nat \<Rightarrow> nat \<Rightarrow> 64 word" where
  "array_clear_bit bl i = bl(i div 64 := bl (i div 64) AND NOT (push_bit (i mod 64) 1))"

lemma array_bit_iff: "array_bit bl i \<longleftrightarrow> bit (bl (i div 64)) (i mod 64)"
  by (simp add: array_bit_def and_one_eq mod_2_eq_odd bit_iff_odd_drop_bit)

lemma array_bit_set: "array_bit (array_set_bit bl i) j \<longleftrightarrow> i = j \<or> array_bit bl j"
proof -
  have "i = j \<longleftrightarrow> i div 64 = j div 64 \<and> i mod 64 = j mod 64"
    by (metis div_mult_mod_eq)
  moreover have "j mod 64 < 64" by simp
  ultimately show ?thesis
    by (auto simp: array_bit_iff array_set_bit_def bit_simps)
qed

lemma array_bit_clear: "array_bit (array_clear_bit bl i) j \<longleftrightarrow> i \<noteq> j \<and> array_bit bl j"
proof -
  have "i = j \<longleftrightarrow> i div 64 = j div 64 \<and> i mod 64 = j mod 64"
    by (metis div_mult_mod_eq)
  moreover have "j mod 64 < 64" by simp
  ultimately show ?thesis
    by (auto simp: array_bit_iff array_clear_bit_def bit_simps)
qed

lemma array_word_zero: "bl (i div 64) = 0 \<Longrightarrow> \<not> array_bit bl i"
  by (simp add: array_bit_iff)

interpretation word_array: bit_table N array_bit array_set_bit "\<lambda>_. \<lambda>_. 0" for N
  by unfold_locales (simp_all add: array_bit_set array_word_zero)

end
