(* ===== verification/Roots.thy ===== *)
theory Roots
  imports GC_Prelude
begin

text \<open>
  The root set registry of \<^verbatim>\<open>mark_rts.c\<close>: the table of static root ranges with its hash index, the
  sorted table of exclusion ranges, and the traversal that hands every non-excluded part of a
  root range to the marker.
\<close>

section \<open>State\<close>

record root_t =
  r_start :: ptr
  r_end :: ptr
  r_next :: "nat option"   \<comment> \<open>a pointer into \<open>GC_static_roots\<close>, as an index\<close>
  r_tmp :: bool

record exclusion =
  e_start :: ptr
  e_end :: ptr

record roots_state =
  GC_static_roots :: "nat \<Rightarrow> root_t"
  n_root_sets :: nat
  GC_root_size :: "64 word"
  GC_root_index :: "nat \<Rightarrow> nat option"
  GC_excl_table :: "nat \<Rightarrow> exclusion"
  GC_excl_table_entries :: nat

section \<open>The root table and its hash index\<close>

definition rt_hash :: "ptr \<Rightarrow> nat" where
  "rt_hash addr =
     (let val = addr;
          val = val XOR drop_bit (8 * LOG_RT_SIZE) val;
          val = val XOR drop_bit (4 * LOG_RT_SIZE) val;
          val = val XOR drop_bit (2 * LOG_RT_SIZE) val
      in unat ((drop_bit LOG_RT_SIZE val XOR val) AND (of_nat RT_SIZE - 1)))"

text \<open>The walk along \<open>r_next\<close>; the fuel bounds the number of entries visited.\<close>

fun roots_chain :: "nat \<Rightarrow> roots_state \<Rightarrow> nat option \<Rightarrow> ptr \<Rightarrow> nat option outcome" where
  "roots_chain fuel st None b = Ret None"
| "roots_chain 0 st (Some p) b = Stuck"
| "roots_chain (Suc fuel) st (Some p) b =
     (if r_start (GC_static_roots st p) = b then Ret (Some p)
      else roots_chain fuel st (r_next (GC_static_roots st p)) b)"

definition GC_roots_present :: "roots_state \<Rightarrow> ptr \<Rightarrow> nat option outcome" where
  "GC_roots_present st b =
     roots_chain (n_root_sets st) st (GC_root_index st (rt_hash b)) b"

definition add_roots_to_index :: "nat \<Rightarrow> roots_state \<Rightarrow> roots_state" where
  "add_roots_to_index p st =
     (let h = rt_hash (r_start (GC_static_roots st p));
          rt = (GC_static_roots st p)\<lparr>r_next := GC_root_index st h\<rparr>
      in st\<lparr>GC_static_roots := (GC_static_roots st)(p := rt),
            GC_root_index := (GC_root_index st)(h := Some p)\<rparr>)"

text \<open>The tail of \<open>GC_add_roots_inner\<close>: append a new entry.\<close>

definition append_root :: "roots_state \<Rightarrow> ptr \<Rightarrow> ptr \<Rightarrow> bool \<Rightarrow> roots_state outcome" where
  "append_root st b e tmp =
     (if n_root_sets st = MAX_ROOT_SETS then Abort ''Too many root sets''
      else
        let n = n_root_sets st;
            st = st\<lparr>GC_static_roots :=
                   (GC_static_roots st)(n := \<lparr>r_start = b, r_end = e, r_next = None, r_tmp = tmp\<rparr>)\<rparr>;
            st = add_roots_to_index n st
        in Ret (st\<lparr>GC_root_size := GC_root_size st + (e - b), n_root_sets := Suc n\<rparr>))"

text \<open>The branch of \<open>GC_add_roots_inner\<close> in which entry \<open>p\<close> already starts at \<open>b\<close>.\<close>

definition add_roots_present :: "roots_state \<Rightarrow> nat \<Rightarrow> ptr \<Rightarrow> bool \<Rightarrow> roots_state outcome" where
  "add_roots_present st p e tmp =
     (let rt = GC_static_roots st p
      in if r_end rt \<ge> e then
           Ret (st\<lparr>GC_static_roots :=
                  (GC_static_roots st)(p := rt\<lparr>r_tmp := (r_tmp rt \<and> tmp)\<rparr>)\<rparr>)
         else if r_tmp rt = tmp \<or> \<not> tmp then
           Ret (st\<lparr>GC_root_size := GC_root_size st + (e - r_end rt),
                  GC_static_roots :=
                    (GC_static_roots st)(p := rt\<lparr>r_end := e, r_tmp := tmp\<rparr>)\<rparr>)
         else append_root st (r_end rt) e tmp)"

definition GC_add_roots_inner :: "roots_state \<Rightarrow> ptr \<Rightarrow> ptr \<Rightarrow> bool \<Rightarrow> roots_state outcome" where
  "GC_add_roots_inner st b e tmp =
     (let b = PTR_ALIGN_UP b ALIGNMENT;
          e = PTR_ALIGN_DOWN e ALIGNMENT
      in if b \<ge> e then Ret st
         else obind (GC_roots_present st b) (\<lambda>old.
           (case old of
              None \<Rightarrow> append_root st b e tmp
            | Some p \<Rightarrow> add_roots_present st p e tmp)))"

definition GC_clear_roots :: "roots_state \<Rightarrow> roots_state" where
  "GC_clear_roots st =
     st\<lparr>n_root_sets := 0, GC_root_size := 0, GC_root_index := (\<lambda>_. None)\<rparr>"

definition GC_remove_root_at_pos :: "nat \<Rightarrow> roots_state \<Rightarrow> roots_state" where
  "GC_remove_root_at_pos i st =
     (let rt = GC_static_roots st i;
          la = GC_static_roots st (n_root_sets st - 1)
      in st\<lparr>GC_root_size := GC_root_size st - (r_end rt - r_start rt),
            GC_static_roots := (GC_static_roots st)
              (i := rt\<lparr>r_start := r_start la, r_end := r_end la, r_tmp := r_tmp la\<rparr>),
            n_root_sets := n_root_sets st - 1\<rparr>)"

definition GC_rebuild_root_index :: "roots_state \<Rightarrow> roots_state" where
  "GC_rebuild_root_index st =
     fold add_roots_to_index [0..<n_root_sets st] (st\<lparr>GC_root_index := (\<lambda>_. None)\<rparr>)"

text \<open>
  The loop that \<open>GC_remove_tmp_roots\<close> and \<open>GC_remove_roots_inner\<close> share: remove the
  entry at \<open>i\<close> when it satisfies the condition (the last entry moves there and is looked at
  next), step to the next one otherwise.
\<close>

function remove_roots_loop :: "(root_t \<Rightarrow> bool) \<Rightarrow> nat \<Rightarrow> roots_state \<Rightarrow> roots_state" where
  "remove_roots_loop P i st =
     (if i < n_root_sets st then
        (if P (GC_static_roots st i) then remove_roots_loop P i (GC_remove_root_at_pos i st)
         else remove_roots_loop P (Suc i) st)
      else st)"
  by pat_completeness auto
termination
  by (relation "measure (\<lambda>(P, i, st). n_root_sets st - i)")
    (auto simp: GC_remove_root_at_pos_def Let_def)

declare remove_roots_loop.simps [simp del]

definition remove_matching_roots :: "(root_t \<Rightarrow> bool) \<Rightarrow> roots_state \<Rightarrow> roots_state" where
  "remove_matching_roots P st =
     (let st' = remove_roots_loop P 0 st
      in if n_root_sets st' < n_root_sets st then GC_rebuild_root_index st' else st')"

text \<open>\<open>GC_remove_tmp_roots\<close> is compiled for builds that register the data segments of dynamic libraries.\<close>

definition GC_remove_tmp_roots :: "roots_state \<Rightarrow> roots_state" where
  "GC_remove_tmp_roots st = remove_matching_roots r_tmp st"

definition GC_remove_roots_inner :: "roots_state \<Rightarrow> ptr \<Rightarrow> ptr \<Rightarrow> roots_state" where
  "GC_remove_roots_inner st b e =
     remove_matching_roots (\<lambda>rt. r_start rt \<ge> b \<and> e \<ge> r_end rt) st"

definition GC_remove_roots :: "roots_state \<Rightarrow> ptr \<Rightarrow> ptr \<Rightarrow> roots_state" where
  "GC_remove_roots st b e =
     (if PTR_ALIGN_UP b ALIGNMENT \<ge> PTR_ALIGN_DOWN e ALIGNMENT then st
      else GC_remove_roots_inner st b e)"

section \<open>Exclusions\<close>

definition GC_clear_exclusion_table :: "roots_state \<Rightarrow> roots_state" where
  "GC_clear_exclusion_table st = st\<lparr>GC_excl_table_entries := 0\<rparr>"

function excl_search :: "(nat \<Rightarrow> exclusion) \<Rightarrow> ptr \<Rightarrow> nat \<Rightarrow> nat \<Rightarrow> nat" where
  "excl_search tbl start_addr low high =
     (if high > low then
        let mid = (low + high) div 2
        in if start_addr \<ge> e_end (tbl mid) then excl_search tbl start_addr (mid + 1) high
           else excl_search tbl start_addr low mid
      else low)"
  by pat_completeness auto
termination
  by (relation "measure (\<lambda>(tbl, a, low, high). high - low)") auto

declare excl_search.simps [simp del]

definition GC_next_exclusion :: "roots_state \<Rightarrow> ptr \<Rightarrow> nat option" where
  "GC_next_exclusion st start_addr =
     (if GC_excl_table_entries st = 0 then None
      else
        let low = excl_search (GC_excl_table st) start_addr 0 (GC_excl_table_entries st - 1)
        in if start_addr \<ge> e_end (GC_excl_table st low) then None else Some low)"

text \<open>The shift of the table tail: \<open>for (i = n; i > k; --i) t[i] = t[i - 1]\<close>.\<close>

fun shift_up :: "(nat \<Rightarrow> exclusion) \<Rightarrow> nat \<Rightarrow> nat \<Rightarrow> (nat \<Rightarrow> exclusion)" where
  "shift_up t 0 k = t"
| "shift_up t (Suc i) k = (if Suc i > k then shift_up (t(Suc i := t i)) i k else t)"

definition GC_exclude_static_roots_inner :: "roots_state \<Rightarrow> ptr \<Rightarrow> ptr \<Rightarrow> roots_state outcome" where
  "GC_exclude_static_roots_inner st start finish =
     (let nxt = GC_next_exclusion st start;
          tbl = GC_excl_table st;
          n = GC_excl_table_entries st;
          insert_at = (\<lambda>tbl k. Ret (st\<lparr>GC_excl_table := tbl(k := \<lparr>e_start = start, e_end = finish\<rparr>),
                                       GC_excl_table_entries := Suc n\<rparr>))
      in (case nxt of
            None \<Rightarrow>
              if n \<ge> MAX_EXCLUSIONS then Abort ''Too many exclusions'' else insert_at tbl n
          | Some k \<Rightarrow>
              if e_start (tbl k) < finish then Abort ''Exclusion ranges overlap''
              else if e_start (tbl k) = finish then
                Ret (st\<lparr>GC_excl_table := tbl(k := (tbl k)\<lparr>e_start := start\<rparr>)\<rparr>)
              else if n \<ge> MAX_EXCLUSIONS then Abort ''Too many exclusions''
              else insert_at (shift_up tbl n k) k))"

definition GC_exclude_static_roots :: "roots_state \<Rightarrow> ptr \<Rightarrow> ptr \<Rightarrow> roots_state outcome" where
  "GC_exclude_static_roots st b e =
     (if b = e then Ret st
      else
        let b = PTR_ALIGN_DOWN b ALIGNMENT;
            e = (if e > NOT (ALIGNMENT - 1) then PTR_ALIGN_DOWN e ALIGNMENT
                 else PTR_ALIGN_UP e ALIGNMENT)
        in GC_exclude_static_roots_inner st b e)"

text \<open>
  The loop of \<open>GC_push_conditional_with_exclusions\<close>; the result is the sequence of ranges
  handed to \<open>GC_push_conditional\<close>.
\<close>

function GC_push_conditional_with_exclusions ::
  "roots_state \<Rightarrow> ptr \<Rightarrow> ptr \<Rightarrow> (ptr \<times> ptr) list" where
  "GC_push_conditional_with_exclusions st bottom top_p =
     (if bottom < top_p then
        let nxt = (case GC_next_exclusion st bottom of
                     None \<Rightarrow> None
                   | Some k \<Rightarrow> if e_start (GC_excl_table st k) \<ge> top_p then None else Some k);
            excl_start = (case nxt of None \<Rightarrow> top_p | Some k \<Rightarrow> e_start (GC_excl_table st k));
            pushed = (if bottom < excl_start then [(bottom, excl_start)] else [])
        in (case nxt of
              None \<Rightarrow> pushed
            | Some k \<Rightarrow>
                pushed @ GC_push_conditional_with_exclusions st (e_end (GC_excl_table st k)) top_p)
      else [])"
  by pat_completeness auto

lemma GC_next_exclusion_less:
  "GC_next_exclusion st a = Some k \<Longrightarrow> a < e_end (GC_excl_table st k)"
  by (auto simp: GC_next_exclusion_def Let_def split: if_splits)

termination GC_push_conditional_with_exclusions
proof (relation "measure (\<lambda>(st, bottom, top_p). 2 ^ 64 - unat bottom)", goal_cases)
  case 1
  then show ?case by simp
next
  case (2 st bottom top_p nxt es ps k)
  then have "GC_next_exclusion st bottom = Some k"
    by (auto split: option.splits if_splits)
  then have "unat bottom < unat (e_end (GC_excl_table st k))"
    by (simp add: GC_next_exclusion_less word_less_nat_alt [symmetric])
  moreover have "unat (e_end (GC_excl_table st k)) < 2 ^ 64"
    using unsigned_less [of "e_end (GC_excl_table st k)"] by simp
  ultimately show ?case by simp
qed

declare GC_push_conditional_with_exclusions.simps [simp del]

text \<open>The static data part of \<open>GC_push_roots\<close>: every root range, in table order.\<close>

definition GC_push_static_roots :: "roots_state \<Rightarrow> (ptr \<times> ptr) list" where
  "GC_push_static_roots st =
     concat (map (\<lambda>i. GC_push_conditional_with_exclusions st
                        (r_start (GC_static_roots st i)) (r_end (GC_static_roots st i)))
               [0..<n_root_sets st])"

section \<open>Invariant of the root table\<close>

text \<open>The greatest entry below \<open>k\<close> that hashes to \<open>h\<close>.\<close>

fun prev_with :: "roots_state \<Rightarrow> nat \<Rightarrow> nat \<Rightarrow> nat option" where
  "prev_with st 0 h = None"
| "prev_with st (Suc k) h =
     (if rt_hash (r_start (GC_static_roots st k)) = h then Some k else prev_with st k h)"

text \<open>The greatest entry below \<open>k\<close> that starts at \<open>b\<close>: what a lookup should find.\<close>

fun last_start :: "roots_state \<Rightarrow> nat \<Rightarrow> ptr \<Rightarrow> nat option" where
  "last_start st 0 b = None"
| "last_start st (Suc k) b =
     (if r_start (GC_static_roots st k) = b then Some k else last_start st k b)"

definition index_inv :: "roots_state \<Rightarrow> bool" where
  "index_inv st \<longleftrightarrow>
     (\<forall>h. GC_root_index st h = prev_with st (n_root_sets st) h) \<and>
     (\<forall>i < n_root_sets st. r_next (GC_static_roots st i) =
        prev_with st i (rt_hash (r_start (GC_static_roots st i))))"

definition root_bytes :: "roots_state \<Rightarrow> nat \<Rightarrow> 64 word" where
  "root_bytes st n = (\<Sum>i<n. r_end (GC_static_roots st i) - r_start (GC_static_roots st i))"

definition root_of :: "root_t \<Rightarrow> ptr \<times> ptr \<times> bool" where
  "root_of rt = (r_start rt, r_end rt, r_tmp rt)"

text \<open>A registered range is not empty and its bounds are multiples of the pointer size.\<close>

definition range_ok :: "ptr \<times> ptr \<times> bool \<Rightarrow> bool" where
  "range_ok = (\<lambda>(s, e, t). s < e \<and> 8 dvd unat s \<and> 8 dvd unat e)"

definition roots_inv :: "roots_state \<Rightarrow> bool" where
  "roots_inv st \<longleftrightarrow>
     n_root_sets st \<le> MAX_ROOT_SETS \<and> index_inv st \<and>
     (\<forall>i < n_root_sets st. range_ok (root_of (GC_static_roots st i))) \<and>
     GC_root_size st = root_bytes st (n_root_sets st)"

definition covered :: "roots_state \<Rightarrow> ptr \<Rightarrow> bool" where
  "covered st a \<longleftrightarrow>
     (\<exists>i < n_root_sets st. r_start (GC_static_roots st i) \<le> a \<and> a < r_end (GC_static_roots st i))"

lemma prev_with_cong:
  "(\<And>i. i < k \<Longrightarrow> r_start (GC_static_roots st i) = r_start (GC_static_roots st' i)) \<Longrightarrow>
   prev_with st k h = prev_with st' k h"
  by (induction k) auto

lemma last_start_cong:
  "(\<And>i. i < k \<Longrightarrow> r_start (GC_static_roots st i) = r_start (GC_static_roots st' i)) \<Longrightarrow>
   last_start st k b = last_start st' k b"
  by (induction k) auto

lemma root_bytes_cong:
  "(\<And>i. i < k \<Longrightarrow> r_start (GC_static_roots st i) = r_start (GC_static_roots st' i) \<and>
      r_end (GC_static_roots st i) = r_end (GC_static_roots st' i)) \<Longrightarrow>
   root_bytes st k = root_bytes st' k"
  by (simp add: root_bytes_def)

lemma prev_with_Some: "prev_with st k h = Some p \<Longrightarrow> p < k \<and> rt_hash (r_start (GC_static_roots st p)) = h"
  by (induction k) (auto split: if_splits)

lemma last_start_Some: "last_start st k b = Some p \<Longrightarrow> p < k \<and> r_start (GC_static_roots st p) = b"
  by (induction k) (auto split: if_splits)

lemma prev_with_skip:
  "prev_with st k h = None \<Longrightarrow> rt_hash b = h \<Longrightarrow> last_start st k b = None"
  by (induction k) (auto split: if_splits)

lemma last_start_prev_with:
  "prev_with st k (rt_hash b) = Some p \<Longrightarrow> last_start st k b = last_start st (Suc p) b"
  by (induction k) (auto split: if_splits)

lemma roots_chain_last_start:
  assumes "\<forall>i < n. r_next (GC_static_roots st i) =
        prev_with st i (rt_hash (r_start (GC_static_roots st i)))"
    and "k \<le> n" and "k \<le> fuel"
  shows "roots_chain fuel st (prev_with st k (rt_hash b)) b = Ret (last_start st k b)"
  using assms(2,3)
proof (induction k arbitrary: fuel rule: less_induct)
  case (less k)
  show ?case
  proof (cases "prev_with st k (rt_hash b)")
    case None
    then show ?thesis by (simp add: prev_with_skip)
  next
    case (Some p)
    then have p: "p < k" "rt_hash (r_start (GC_static_roots st p)) = rt_hash b"
      by (auto dest: prev_with_Some)
    with less.prems obtain f where f: "fuel = Suc f" "p \<le> f" "p \<le> n"
      by (cases fuel) auto
    have "r_next (GC_static_roots st p) = prev_with st p (rt_hash b)"
      using assms(1) p less.prems by (metis order_less_le_trans)
    with less.IH [OF p(1) f(3,2)] Some f(1) show ?thesis
      by (simp add: last_start_prev_with [OF Some])
  qed
qed

lemma GC_roots_present_eq:
  assumes "index_inv st"
  shows "GC_roots_present st b = Ret (last_start st (n_root_sets st) b)"
  unfolding GC_roots_present_def
  using assms roots_chain_last_start [of "n_root_sets st" st "n_root_sets st" "n_root_sets st" b]
  by (simp add: index_inv_def)

lemma ex_less_Suc: "(\<exists>i < Suc n. P i) \<longleftrightarrow> (\<exists>i < n. P i) \<or> P n"
  by (auto simp: less_Suc_eq)

lemma add_roots_to_index_starts [simp]:
  "r_start (GC_static_roots (add_roots_to_index p st) i) = r_start (GC_static_roots st i)"
  "r_end (GC_static_roots (add_roots_to_index p st) i) = r_end (GC_static_roots st i)"
  "r_tmp (GC_static_roots (add_roots_to_index p st) i) = r_tmp (GC_static_roots st i)"
  "n_root_sets (add_roots_to_index p st) = n_root_sets st"
  "GC_root_size (add_roots_to_index p st) = GC_root_size st"
  "GC_excl_table (add_roots_to_index p st) = GC_excl_table st"
  "GC_excl_table_entries (add_roots_to_index p st) = GC_excl_table_entries st"
  by (simp_all add: add_roots_to_index_def Let_def)

text \<open>Indexing entry \<open>k\<close> extends an index that is right for the entries below \<open>k\<close>.\<close>

definition index_upto :: "roots_state \<Rightarrow> nat \<Rightarrow> bool" where
  "index_upto st k \<longleftrightarrow>
     (\<forall>h. GC_root_index st h = prev_with st k h) \<and>
     (\<forall>i < k. r_next (GC_static_roots st i) =
        prev_with st i (rt_hash (r_start (GC_static_roots st i))))"

lemma index_inv_upto: "index_inv st \<longleftrightarrow> index_upto st (n_root_sets st)"
  by (simp add: index_inv_def index_upto_def)

lemma index_upto_cong:
  assumes "\<And>i. i < k \<Longrightarrow> r_start (GC_static_roots st i) = r_start (GC_static_roots st' i)"
    and "\<And>i. i < k \<Longrightarrow> r_next (GC_static_roots st i) = r_next (GC_static_roots st' i)"
    and "GC_root_index st = GC_root_index st'"
  shows "index_upto st k \<longleftrightarrow> index_upto st' k"
proof -
  have "prev_with st i h = prev_with st' i h" if "i \<le> k" for i h
    using that assms(1) by (intro prev_with_cong) auto
  with assms show ?thesis by (simp add: index_upto_def)
qed

lemma index_upto_add:
  assumes "index_upto st k"
  shows "index_upto (add_roots_to_index k st) (Suc k)"
proof -
  let ?st = "add_roots_to_index k st"
  have pw: "prev_with ?st i h = prev_with st i h" for i h
    by (rule prev_with_cong) simp
  have "GC_root_index ?st h = prev_with ?st (Suc k) h" for h
    using assms by (simp add: pw) (simp add: index_upto_def add_roots_to_index_def Let_def)
  moreover have "r_next (GC_static_roots ?st i) =
      prev_with ?st i (rt_hash (r_start (GC_static_roots ?st i)))" if "i < Suc k" for i
    using that assms
    by (simp add: pw) (auto simp: index_upto_def add_roots_to_index_def Let_def less_Suc_eq)
  ultimately show ?thesis by (auto simp: index_upto_def)
qed

lemma fold_add_roots_to_index_starts [simp]:
  "r_start (GC_static_roots (fold add_roots_to_index ps st) i) = r_start (GC_static_roots st i)"
  "r_end (GC_static_roots (fold add_roots_to_index ps st) i) = r_end (GC_static_roots st i)"
  "r_tmp (GC_static_roots (fold add_roots_to_index ps st) i) = r_tmp (GC_static_roots st i)"
  "n_root_sets (fold add_roots_to_index ps st) = n_root_sets st"
  "GC_root_size (fold add_roots_to_index ps st) = GC_root_size st"
  "GC_excl_table (fold add_roots_to_index ps st) = GC_excl_table st"
  "GC_excl_table_entries (fold add_roots_to_index ps st) = GC_excl_table_entries st"
  by (induction ps arbitrary: st) simp_all

lemma index_upto_fold:
  "index_upto (fold add_roots_to_index [0..<k] (st\<lparr>GC_root_index := (\<lambda>_. None)\<rparr>)) k"
proof (induction k)
  case 0
  show ?case by (simp add: index_upto_def)
next
  case (Suc k)
  then show ?case by (simp add: index_upto_add)
qed

lemma GC_rebuild_root_index_fields [simp]:
  "r_start (GC_static_roots (GC_rebuild_root_index st) i) = r_start (GC_static_roots st i)"
  "r_end (GC_static_roots (GC_rebuild_root_index st) i) = r_end (GC_static_roots st i)"
  "r_tmp (GC_static_roots (GC_rebuild_root_index st) i) = r_tmp (GC_static_roots st i)"
  "n_root_sets (GC_rebuild_root_index st) = n_root_sets st"
  "GC_root_size (GC_rebuild_root_index st) = GC_root_size st"
  "GC_excl_table (GC_rebuild_root_index st) = GC_excl_table st"
  "GC_excl_table_entries (GC_rebuild_root_index st) = GC_excl_table_entries st"
  by (simp_all add: GC_rebuild_root_index_def)

lemma index_inv_rebuild: "index_inv (GC_rebuild_root_index st)"
  by (simp add: index_inv_upto) (simp add: GC_rebuild_root_index_def index_upto_fold)

subsection \<open>Adding a range\<close>

lemma append_root_inv:
  assumes "roots_inv st" and "range_ok (b, e, tmp)" and "append_root st b e tmp = Ret st'"
  shows "roots_inv st'"
    and "covered st' a \<longleftrightarrow> covered st a \<or> b \<le> a \<and> a < e"
proof -
  let ?n = "n_root_sets st"
  let ?new = "\<lparr>r_start = b, r_end = e, r_next = None, r_tmp = tmp\<rparr>"
  let ?st1 = "st\<lparr>GC_static_roots := (GC_static_roots st)(?n := ?new)\<rparr>"
  let ?st2 = "add_roots_to_index ?n ?st1"
  have n: "?n < MAX_ROOT_SETS" and st': "st' = ?st2\<lparr>GC_root_size := GC_root_size ?st2 + (e - b), n_root_sets := Suc ?n\<rparr>"
    using assms(1,3) by (auto simp: append_root_def Let_def roots_inv_def split: if_splits)
  have se: "r_start (GC_static_roots st' i) = (if i = ?n then b else r_start (GC_static_roots st i))"
    "r_end (GC_static_roots st' i) = (if i = ?n then e else r_end (GC_static_roots st i))" for i
    by (simp_all add: st')
  have "index_upto ?st1 ?n"
    using assms(1) index_upto_cong [of ?n st ?st1] by (simp add: roots_inv_def index_inv_upto)
  then have "index_upto ?st2 (Suc ?n)" by (rule index_upto_add)
  then have "index_inv st'"
    using index_upto_cong [of "Suc ?n" ?st2 st'] by (simp add: index_inv_upto st')
  moreover have "root_bytes st' (Suc ?n) = root_bytes st ?n + (e - b)"
    by (simp add: root_bytes_def se)
  moreover have "root_of (GC_static_roots st' i) =
      (if i = ?n then (b, e, tmp) else root_of (GC_static_roots st i))" for i
    by (simp add: root_of_def st')
  ultimately show "roots_inv st'"
    using assms n by (simp add: roots_inv_def less_Suc_eq) (simp add: st')
  have ns: "n_root_sets st' = Suc ?n" by (simp add: st')
  show "covered st' a \<longleftrightarrow> covered st a \<or> b \<le> a \<and> a < e"
    unfolding covered_def ns ex_less_Suc se by (simp cong: conj_cong)
qed

text \<open>Changing the end of one entry.\<close>

lemma root_bytes_upd_end:
  assumes "p < n" and "\<And>i. r_start (GC_static_roots st' i) = r_start (GC_static_roots st i)"
    and "\<And>i. r_end (GC_static_roots st' i) = (if i = p then e else r_end (GC_static_roots st i))"
  shows "root_bytes st' n = root_bytes st n + (e - r_end (GC_static_roots st p))"
proof -
  have "root_bytes st' n = (\<Sum>i<n. (r_end (GC_static_roots st i) - r_start (GC_static_roots st i)) +
      (if i = p then e - r_end (GC_static_roots st p) else 0))"
    unfolding root_bytes_def assms(2,3) by (rule sum.cong) auto
  also have "\<dots> = root_bytes st n + (e - r_end (GC_static_roots st p))"
    using assms(1) by (simp add: sum.distrib root_bytes_def)
  finally show ?thesis .
qed

lemma extend_root_inv:
  assumes inv: "roots_inv st" and p: "p < n_root_sets st"
    and e: "r_end (GC_static_roots st p) \<le> e" "range_ok (r_start (GC_static_roots st p), e, t)"
    and st': "st' = st\<lparr>GC_root_size := GC_root_size st + (e - r_end (GC_static_roots st p)),
      GC_static_roots := (GC_static_roots st)(p := (GC_static_roots st p)\<lparr>r_end := e, r_tmp := t\<rparr>)\<rparr>"
  shows "roots_inv st'"
    and "covered st' a \<longleftrightarrow> covered st a \<or> r_start (GC_static_roots st p) \<le> a \<and> a < e"
proof -
  have se: "r_start (GC_static_roots st' i) = r_start (GC_static_roots st i)"
    "r_next (GC_static_roots st' i) = r_next (GC_static_roots st i)"
    "r_end (GC_static_roots st' i) = (if i = p then e else r_end (GC_static_roots st i))" for i
    by (simp_all add: st')
  have ns: "n_root_sets st' = n_root_sets st" by (simp add: st')
  have "index_upto st (n_root_sets st) \<longleftrightarrow> index_upto st' (n_root_sets st)"
    by (rule index_upto_cong) (simp_all add: st')
  then have "index_inv st'"
    using inv by (simp add: roots_inv_def index_inv_upto ns)
  moreover have "root_bytes st' (n_root_sets st) =
      root_bytes st (n_root_sets st) + (e - r_end (GC_static_roots st p))"
    by (rule root_bytes_upd_end [OF p]) (simp_all add: se)
  moreover have "root_of (GC_static_roots st' i) =
      (if i = p then (r_start (GC_static_roots st p), e, t) else root_of (GC_static_roots st i))" for i
    by (simp add: root_of_def st')
  ultimately show "roots_inv st'"
    using inv e p unfolding roots_inv_def ns by (auto simp: st')
  show "covered st' a \<longleftrightarrow> covered st a \<or> r_start (GC_static_roots st p) \<le> a \<and> a < e"
    unfolding covered_def ns se using p e(1) by (auto intro: order_less_le_trans)
qed

lemma append_root_total:
  "append_root st b e tmp = Abort ''Too many root sets'' \<and> n_root_sets st = MAX_ROOT_SETS \<or>
   (\<exists>st'. append_root st b e tmp = Ret st')"
  by (simp add: append_root_def Let_def)

lemma set_tmp_root_inv:
  assumes inv: "roots_inv st"
    and st': "st' = st\<lparr>GC_static_roots := (GC_static_roots st)(p := (GC_static_roots st p)\<lparr>r_tmp := t\<rparr>)\<rparr>"
  shows "roots_inv st'" and "covered st' a \<longleftrightarrow> covered st a"
proof -
  have se: "r_start (GC_static_roots st' i) = r_start (GC_static_roots st i)"
    "r_end (GC_static_roots st' i) = r_end (GC_static_roots st i)"
    "n_root_sets st' = n_root_sets st" "GC_root_size st' = GC_root_size st" for i
    by (simp_all add: st')
  have "index_upto st (n_root_sets st) \<longleftrightarrow> index_upto st' (n_root_sets st)"
    by (rule index_upto_cong) (simp_all add: st')
  moreover have "root_bytes st' k = root_bytes st k" for k
    by (rule root_bytes_cong) (simp add: se)
  moreover have "range_ok (root_of (GC_static_roots st' i)) = range_ok (root_of (GC_static_roots st i))" for i
    by (simp add: root_of_def range_ok_def se)
  ultimately show "roots_inv st'"
    using inv by (simp add: roots_inv_def index_inv_upto se)
  show "covered st' a \<longleftrightarrow> covered st a" by (simp add: covered_def se)
qed

lemma add_roots_present_spec:
  assumes inv: "roots_inv st" and p: "p < n_root_sets st"
    and b: "r_start (GC_static_roots st p) = b" and ok: "range_ok (b, e, tmp)"
    and res: "add_roots_present st p e tmp = Ret st'"
  shows "roots_inv st' \<and> (covered st' a \<longleftrightarrow> covered st a \<or> b \<le> a \<and> a < e)"
proof -
  let ?rt = "GC_static_roots st p"
  have old: "covered st a" if "b \<le> a" "a < r_end ?rt"
    using p b that by (auto simp: covered_def)
  consider (there) "r_end ?rt \<ge> e" | (extend) "\<not> r_end ?rt \<ge> e" "r_tmp ?rt = tmp \<or> \<not> tmp"
    | (split) "\<not> r_end ?rt \<ge> e" "\<not> (r_tmp ?rt = tmp \<or> \<not> tmp)"
    by blast
  then show ?thesis
  proof cases
    case there
    with res have "st' = st\<lparr>GC_static_roots :=
        (GC_static_roots st)(p := ?rt\<lparr>r_tmp := (r_tmp ?rt \<and> tmp)\<rparr>)\<rparr>"
      by (simp add: add_roots_present_def Let_def)
    with there show ?thesis
      using set_tmp_root_inv [OF inv] old by (meson order_less_le_trans)
  next
    case extend
    with res have "st' = st\<lparr>GC_root_size := GC_root_size st + (e - r_end ?rt),
        GC_static_roots := (GC_static_roots st)(p := ?rt\<lparr>r_end := e, r_tmp := tmp\<rparr>)\<rparr>"
      by (simp add: add_roots_present_def Let_def)
    from extend_root_inv [OF inv p _ _ this] extend(1) b ok show ?thesis by (simp add: not_le)
  next
    case split
    with res have "append_root st (r_end ?rt) e tmp = Ret st'"
      by (simp add: add_roots_present_def Let_def)
    moreover have "range_ok (r_end ?rt, e, tmp)"
      using inv p ok split(1) by (auto simp: roots_inv_def range_ok_def root_of_def not_le)
    ultimately have "roots_inv st'" "covered st' a \<longleftrightarrow> covered st a \<or> r_end ?rt \<le> a \<and> a < e"
      using append_root_inv [OF inv] by blast+
    moreover have "b \<le> r_end ?rt"
      using inv p b by (auto simp: roots_inv_def range_ok_def root_of_def)
    ultimately show ?thesis
      using old by (meson not_le order_trans)
  qed
qed

lemma add_roots_inner_spec:
  assumes inv: "roots_inv st" and res: "GC_add_roots_inner st b e tmp = Ret st'"
  shows "roots_inv st' \<and> (covered st' a \<longleftrightarrow>
    covered st a \<or> PTR_ALIGN_UP b ALIGNMENT \<le> a \<and> a < PTR_ALIGN_DOWN e ALIGNMENT)"
proof -
  let ?b = "PTR_ALIGN_UP b ALIGNMENT" and ?e = "PTR_ALIGN_DOWN e ALIGNMENT"
  have look: "GC_roots_present st ?b = Ret (last_start st (n_root_sets st) ?b)"
    using inv by (simp add: GC_roots_present_eq roots_inv_def)
  have ok: "range_ok (?b, ?e, tmp)" if "\<not> ?e \<le> ?b"
    using that by (simp add: range_ok_def not_le aligned_ALIGN_UP aligned_ALIGN_DOWN)
  consider (empty) "?e \<le> ?b" | (new) "\<not> ?e \<le> ?b" "last_start st (n_root_sets st) ?b = None"
    | (old) p where "\<not> ?e \<le> ?b" "last_start st (n_root_sets st) ?b = Some p"
    by (cases "last_start st (n_root_sets st) ?b") auto
  then show ?thesis
  proof cases
    case empty
    with inv res show ?thesis by (auto simp: GC_add_roots_inner_def)
  next
    case new
    with res look have "append_root st ?b ?e tmp = Ret st'"
      by (simp add: GC_add_roots_inner_def Let_def)
    from append_root_inv [OF inv ok this] new(1) show ?thesis by simp
  next
    case old
    then have "p < n_root_sets st" "r_start (GC_static_roots st p) = ?b"
      using last_start_Some by auto
    with old res look inv ok show ?thesis
      by (intro add_roots_present_spec) (auto simp: GC_add_roots_inner_def Let_def)
  qed
qed

lemma add_roots_present_total:
  "add_roots_present st p e tmp = Abort ''Too many root sets'' \<and> n_root_sets st = MAX_ROOT_SETS \<or>
   (\<exists>st'. add_roots_present st p e tmp = Ret st')"
  using append_root_total [of st "r_end (GC_static_roots st p)" e tmp]
  by (auto simp: add_roots_present_def Let_def)

lemma add_roots_inner_total:
  assumes "roots_inv st"
  shows "(\<exists>st'. GC_add_roots_inner st b e tmp = Ret st') \<or>
    n_root_sets st = MAX_ROOT_SETS \<and>
    GC_add_roots_inner st b e tmp = Abort ''Too many root sets''"
proof -
  let ?b = "PTR_ALIGN_UP b ALIGNMENT" and ?e = "PTR_ALIGN_DOWN e ALIGNMENT"
  have "GC_roots_present st ?b = Ret (last_start st (n_root_sets st) ?b)"
    using assms by (simp add: GC_roots_present_eq roots_inv_def)
  then show ?thesis
    using append_root_total [of st ?b ?e tmp] add_roots_present_total [of st _ ?e tmp]
    by (cases "last_start st (n_root_sets st) ?b") (auto simp: GC_add_roots_inner_def Let_def)
qed

subsection \<open>Removing ranges\<close>

text \<open>The abstract content of the table: the registered ranges in order.\<close>

definition root_list :: "roots_state \<Rightarrow> (ptr \<times> ptr \<times> bool) list" where
  "root_list st = map (\<lambda>i. root_of (GC_static_roots st i)) [0..<n_root_sets st]"

lemma length_root_list [simp]: "length (root_list st) = n_root_sets st"
  by (simp add: root_list_def)

lemma nth_root_list [simp]: "i < n_root_sets st \<Longrightarrow> root_list st ! i = root_of (GC_static_roots st i)"
  by (simp add: root_list_def)

lemma mset_butlast_update_last:
  assumes "i < length xs"
  shows "mset (butlast (xs[i := last xs])) = mset xs - {#xs ! i#}"
proof -
  have xs: "xs = butlast xs @ [last xs]" using assms by (cases "xs = []") simp_all
  show ?thesis
  proof (cases "i < length (butlast xs)")
    case True
    then have "butlast (xs[i := last xs]) = (butlast xs)[i := last xs]"
      by (simp add: butlast_list_update)
    moreover have "mset xs = add_mset (last xs) (mset (butlast xs))"
      by (subst xs) simp
    moreover have "xs ! i = butlast xs ! i" using True by (simp add: nth_butlast)
    ultimately show ?thesis using True by (simp add: mset_update)
  next
    case False
    with assms have "i = length xs - 1" by simp
    then have "butlast (xs[i := last xs]) = butlast xs" and "xs ! i = last xs"
      using assms by (cases "xs = []"; simp add: last_conv_nth butlast_list_update)+
    moreover have "mset xs = add_mset (last xs) (mset (butlast xs))"
      by (subst xs) simp
    ultimately show ?thesis by simp
  qed
qed

lemma root_list_remove_at:
  assumes "i < n_root_sets st"
  shows "root_list (GC_remove_root_at_pos i st) =
    butlast ((root_list st)[i := last (root_list st)])"
proof (rule nth_equalityI)
  show "length (root_list (GC_remove_root_at_pos i st)) =
    length (butlast ((root_list st)[i := last (root_list st)]))"
    by (simp add: GC_remove_root_at_pos_def Let_def)
next
  fix j assume "j < length (root_list (GC_remove_root_at_pos i st))"
  then have j: "j < n_root_sets st - 1"
    by (simp add: GC_remove_root_at_pos_def Let_def)
  have la: "last (root_list st) = root_of (GC_static_roots st (n_root_sets st - 1))"
    using assms by (simp add: last_conv_nth root_list_def)
  show "root_list (GC_remove_root_at_pos i st) ! j =
    butlast ((root_list st)[i := last (root_list st)]) ! j"
    using j assms
    by (simp add: nth_butlast nth_list_update la)
      (auto simp: root_list_def GC_remove_root_at_pos_def Let_def root_of_def)
qed

lemma sum_list_minus_one_mset:
  fixes f :: "'a \<Rightarrow> 'b::ab_group_add"
  assumes "x \<in># M"
  shows "sum_mset (image_mset f (M - {#x#})) = sum_mset (image_mset f M) - f x"
proof -
  from assms obtain N where "M = add_mset x N" by (auto dest: multi_member_split)
  then show ?thesis by simp
qed

text \<open>Ranges of the table: the part of the invariant that depends on the content only.\<close>

definition range_bytes :: "ptr \<times> ptr \<times> bool \<Rightarrow> 64 word" where
  "range_bytes = (\<lambda>(s, e, t). e - s)"

lemma root_bytes_list: "root_bytes st (n_root_sets st) = sum_mset (image_mset range_bytes (mset (root_list st)))"
proof -
  have "root_bytes st n = sum_list (map (\<lambda>i. range_bytes (root_of (GC_static_roots st i))) [0..<n])" for n
    by (induction n) (simp_all add: root_bytes_def range_bytes_def root_of_def)
  then show ?thesis
    by (simp add: root_list_def sum_mset_sum_list [symmetric] o_def image_mset.compositionality)
qed

lemma ranges_ok_list:
  "(\<forall>i < n_root_sets st. range_ok (root_of (GC_static_roots st i))) \<longleftrightarrow>
   (\<forall>r \<in># mset (root_list st). range_ok r)"
  by (auto simp: root_list_def)

lemma covered_list:
  "covered st a \<longleftrightarrow> (\<exists>r \<in># mset (root_list st). fst r \<le> a \<and> a < fst (snd r))"
  by (auto simp: covered_def root_list_def root_of_def)

definition ranges_inv :: "roots_state \<Rightarrow> bool" where
  "ranges_inv st \<longleftrightarrow>
     n_root_sets st \<le> MAX_ROOT_SETS \<and>
     (\<forall>r \<in># mset (root_list st). range_ok r) \<and>
     GC_root_size st = sum_mset (image_mset range_bytes (mset (root_list st)))"

lemma roots_inv_ranges: "roots_inv st \<longleftrightarrow> index_inv st \<and> ranges_inv st"
  by (auto simp: roots_inv_def ranges_inv_def ranges_ok_list root_bytes_list)

lemma remove_at_content:
  assumes "i < n_root_sets st" and "ranges_inv st"
  shows "mset (root_list (GC_remove_root_at_pos i st)) =
      mset (root_list st) - {#root_of (GC_static_roots st i)#}"
    and "ranges_inv (GC_remove_root_at_pos i st)"
proof -
  let ?st = "GC_remove_root_at_pos i st" and ?r = "root_of (GC_static_roots st i)"
  show m: "mset (root_list ?st) = mset (root_list st) - {#?r#}"
    using assms(1) by (simp add: root_list_remove_at mset_butlast_update_last)
  have "?r \<in># mset (root_list st)"
    using assms(1) by (auto simp: root_list_def)
  moreover have "GC_root_size ?st = GC_root_size st - range_bytes ?r"
    by (simp add: GC_remove_root_at_pos_def Let_def range_bytes_def root_of_def)
  moreover have "n_root_sets ?st \<le> n_root_sets st"
    by (simp add: GC_remove_root_at_pos_def Let_def)
  moreover have "\<forall>r \<in># mset (root_list ?st). range_ok r"
    using assms(2) unfolding m ranges_inv_def by (metis in_diffD)
  ultimately show "ranges_inv ?st"
    using assms(2) unfolding ranges_inv_def by (simp add: m sum_list_minus_one_mset)
qed

lemma remove_roots_loop_content:
  assumes "ranges_inv st" and "i \<le> n_root_sets st"
    and "\<forall>j < i. \<not> Q (root_list st ! j)" and "\<And>rt. P rt = Q (root_of rt)"
  shows "mset (root_list (remove_roots_loop P i st)) = filter_mset (\<lambda>r. \<not> Q r) (mset (root_list st))
    \<and> ranges_inv (remove_roots_loop P i st)"
  using assms
proof (induction P i st rule: remove_roots_loop.induct)
  case (1 P i st)
  let ?st = "GC_remove_root_at_pos i st"
  consider (fin) "i = n_root_sets st" | (hit) "i < n_root_sets st" "P (GC_static_roots st i)"
    | (miss) "i < n_root_sets st" "\<not> P (GC_static_roots st i)"
    using "1.prems" by linarith
  then show ?case
  proof cases
    case fin
    have "\<forall>r \<in># mset (root_list st). \<not> Q r"
      using "1.prems"(3) fin by (metis in_set_conv_nth length_root_list set_mset_mset)
    then have "filter_mset (\<lambda>r. \<not> Q r) (mset (root_list st)) = mset (root_list st)"
      by (simp add: filter_mset_eq_conv)
    with fin "1.prems"(1) show ?thesis by (simp add: remove_roots_loop.simps)
  next
    case hit
    have n: "n_root_sets ?st = n_root_sets st - 1"
      by (simp add: GC_remove_root_at_pos_def Let_def)
    have "root_list ?st ! j = root_list st ! j" if "j < i" for j
      using that hit(1) n by (simp add: root_list_remove_at nth_butlast)
    then have "\<forall>j < i. \<not> Q (root_list ?st ! j)"
      using "1.prems"(3) by simp
    moreover have "i \<le> n_root_sets ?st" using hit(1) n by simp
    ultimately have "mset (root_list (remove_roots_loop P i ?st)) =
        filter_mset (\<lambda>r. \<not> Q r) (mset (root_list ?st)) \<and> ranges_inv (remove_roots_loop P i ?st)"
      using "1.IH"(1) [OF hit remove_at_content(2) [OF hit(1) "1.prems"(1)]] "1.prems"(4) by blast
    moreover have "filter_mset (\<lambda>r. \<not> Q r) (mset (root_list ?st)) =
        filter_mset (\<lambda>r. \<not> Q r) (mset (root_list st))"
      using hit "1.prems"(4) by (simp add: remove_at_content [OF hit(1) "1.prems"(1)] filter_diff_mset)
    ultimately show ?thesis using hit by (simp add: remove_roots_loop.simps [of P i st])
  next
    case miss
    have *: "\<forall>j < Suc i. \<not> Q (root_list st ! j)"
      using "1.prems"(3,4) miss by (auto simp: less_Suc_eq)
    have "remove_roots_loop P i st = remove_roots_loop P (Suc i) st"
      using miss by (simp add: remove_roots_loop.simps [of P i st])
    then show ?thesis
      using "1.IH"(2) [OF miss "1.prems"(1) _ * "1.prems"(4)] miss(1) by simp
  qed
qed

lemma root_list_rebuild [simp]: "root_list (GC_rebuild_root_index st) = root_list st"
  by (simp add: root_list_def root_of_def)

lemma ranges_inv_rebuild [simp]: "ranges_inv (GC_rebuild_root_index st) = ranges_inv st"
  by (simp add: ranges_inv_def)

lemma remove_roots_loop_le: "n_root_sets (remove_roots_loop P i st) \<le> n_root_sets st"
proof (induction P i st rule: remove_roots_loop.induct)
  case (1 P i st)
  have "n_root_sets (GC_remove_root_at_pos i st) \<le> n_root_sets st"
    by (simp add: GC_remove_root_at_pos_def Let_def)
  with "1.IH" show ?case by (subst remove_roots_loop.simps) (auto intro: order_trans)
qed

lemma remove_roots_loop_same:
  "n_root_sets (remove_roots_loop P i st) = n_root_sets st \<Longrightarrow> remove_roots_loop P i st = st"
proof (induction P i st rule: remove_roots_loop.induct)
  case (1 P i st)
  show ?case
  proof (cases "i < n_root_sets st \<and> P (GC_static_roots st i)")
    case True
    have "n_root_sets (remove_roots_loop P i (GC_remove_root_at_pos i st)) \<le> n_root_sets st - 1"
      using remove_roots_loop_le [of P i "GC_remove_root_at_pos i st"]
      by (simp add: GC_remove_root_at_pos_def Let_def)
    with True "1.prems" show ?thesis by (auto simp: remove_roots_loop.simps [of P i st])
  next
    case False
    with "1.IH"(2) "1.prems" show ?thesis by (auto simp: remove_roots_loop.simps [of P i st])
  qed
qed

lemma remove_matching_roots_spec:
  assumes "roots_inv st" and Q: "\<And>rt. P rt = Q (root_of rt)"
  shows "mset (root_list (remove_matching_roots P st)) = filter_mset (\<lambda>r. \<not> Q r) (mset (root_list st))"
    and "roots_inv (remove_matching_roots P st)"
proof -
  let ?st = "remove_roots_loop P 0 st"
  have c: "mset (root_list ?st) = filter_mset (\<lambda>r. \<not> Q r) (mset (root_list st))" "ranges_inv ?st"
    using remove_roots_loop_content [of st 0 Q P] assms by (auto simp: roots_inv_ranges)
  then show "mset (root_list (remove_matching_roots P st)) =
      filter_mset (\<lambda>r. \<not> Q r) (mset (root_list st))"
    by (simp add: remove_matching_roots_def Let_def)
  have "?st = st" if "\<not> n_root_sets ?st < n_root_sets st"
    using that remove_roots_loop_le [of P 0 st] by (intro remove_roots_loop_same) simp
  then show "roots_inv (remove_matching_roots P st)"
    using assms(1) c(2) by (auto simp: remove_matching_roots_def Let_def roots_inv_ranges index_inv_rebuild)
qed

section \<open>Exclusion table\<close>

text \<open>The table holds disjoint non-empty ranges in ascending order.\<close>

definition excl_inv :: "roots_state \<Rightarrow> bool" where
  "excl_inv st \<longleftrightarrow>
     GC_excl_table_entries st \<le> MAX_EXCLUSIONS \<and>
     (\<forall>i < GC_excl_table_entries st. e_start (GC_excl_table st i) < e_end (GC_excl_table st i)) \<and>
     (\<forall>i j. i < j \<longrightarrow> j < GC_excl_table_entries st \<longrightarrow>
        e_end (GC_excl_table st i) \<le> e_start (GC_excl_table st j))"

definition excluded :: "roots_state \<Rightarrow> ptr \<Rightarrow> bool" where
  "excluded st a \<longleftrightarrow>
     (\<exists>i < GC_excl_table_entries st. e_start (GC_excl_table st i) \<le> a \<and> a < e_end (GC_excl_table st i))"

lemma excl_search_bounds: "low \<le> high \<Longrightarrow> low \<le> excl_search t a low high \<and> excl_search t a low high \<le> high"
proof (induction t a low high rule: excl_search.induct)
  case (1 t a low high)
  show ?case
  proof (cases "high > low")
    case False
    with "1.prems" show ?thesis by (simp add: excl_search.simps)
  next
    case True
    let ?mid = "(low + high) div 2"
    have mid: "low \<le> ?mid" "?mid < high" using True by auto
    with "1.IH" True show ?thesis
      by (auto simp: excl_search.simps [of t a low high] Let_def intro: order_trans)
  qed
qed

text \<open>Everything below the result ends at or before \<open>a\<close>; the result does not, unless it is the last.\<close>

lemma excl_search_correct:
  assumes "\<forall>i j. i \<le> j \<longrightarrow> j \<le> n \<longrightarrow> e_end (t i) \<le> e_end (t j)" and "high \<le> n" and "low \<le> high"
    and "\<forall>i < low. e_end (t i) \<le> a" and "high < n \<longrightarrow> a < e_end (t high)"
  shows "(\<forall>i < excl_search t a low high. e_end (t i) \<le> a) \<and>
    (excl_search t a low high < n \<longrightarrow> a < e_end (t (excl_search t a low high)))"
  using assms
proof (induction t a low high rule: excl_search.induct)
  case (1 t a low high)
  show ?case
  proof (cases "high > low")
    case False
    with "1.prems" have "low = high" by simp
    with "1.prems" show ?thesis by (simp add: excl_search.simps)
  next
    case True
    let ?mid = "(low + high) div 2"
    have mid: "low \<le> ?mid" "?mid < high" using True by auto
    show ?thesis
    proof (cases "a \<ge> e_end (t ?mid)")
      case ge: True
      have "\<forall>i < ?mid + 1. e_end (t i) \<le> a"
      proof (intro allI impI)
        fix i assume "i < ?mid + 1"
        then have "e_end (t i) \<le> e_end (t ?mid)" using "1.prems"(1,2) mid by simp
        then show "e_end (t i) \<le> a" using ge by (rule order_trans)
      qed
      with "1.IH"(1) [OF True refl ge "1.prems"(1,2)] "1.prems"(5) mid ge True show ?thesis
        by (simp add: excl_search.simps [of t a low high] Let_def)
    next
      case lt: False
      then have "a < e_end (t ?mid)" by (simp add: not_le)
      with "1.IH"(2) [OF True refl lt "1.prems"(1)] "1.prems"(2,4) mid
      have "(\<forall>i < excl_search t a low ?mid. e_end (t i) \<le> a) \<and>
        (excl_search t a low ?mid < n \<longrightarrow> a < e_end (t (excl_search t a low ?mid)))"
        by simp
      with True lt show ?thesis
        by (simp add: excl_search.simps [of t a low high] Let_def)
    qed
  qed
qed

lemma excl_ends_mono:
  assumes "excl_inv st" "i \<le> j" "j < GC_excl_table_entries st"
  shows "e_end (GC_excl_table st i) \<le> e_end (GC_excl_table st j)"
proof (cases "i = j")
  case False
  with assms have "e_end (GC_excl_table st i) \<le> e_start (GC_excl_table st j)"
    "e_start (GC_excl_table st j) < e_end (GC_excl_table st j)"
    by (auto simp: excl_inv_def)
  then show ?thesis by simp
qed simp

text \<open>The binary search finds the first range that ends after \<open>a\<close>.\<close>

lemma GC_next_exclusion_spec:
  assumes "excl_inv st"
  shows "case GC_next_exclusion st a of
      None \<Rightarrow> \<forall>i < GC_excl_table_entries st. e_end (GC_excl_table st i) \<le> a
    | Some k \<Rightarrow> k < GC_excl_table_entries st \<and> a < e_end (GC_excl_table st k) \<and>
        (\<forall>i < k. e_end (GC_excl_table st i) \<le> a)"
proof (cases "GC_excl_table_entries st")
  case 0
  then show ?thesis by (simp add: GC_next_exclusion_def)
next
  case (Suc n)
  let ?k = "excl_search (GC_excl_table st) a 0 n"
  have k: "?k \<le> n" using excl_search_bounds [of 0 n] by simp
  have mono: "\<forall>i j. i \<le> j \<longrightarrow> j \<le> n \<longrightarrow> e_end (GC_excl_table st i) \<le> e_end (GC_excl_table st j)"
    using excl_ends_mono [OF assms] Suc by simp
  have c: "\<forall>i < ?k. e_end (GC_excl_table st i) \<le> a"
    "?k < n \<Longrightarrow> a < e_end (GC_excl_table st ?k)"
    using excl_search_correct [OF mono order_refl, of 0 a] by auto
  moreover have "e_end (GC_excl_table st i) \<le> a"
    if "e_end (GC_excl_table st ?k) \<le> a" "i \<le> n" for i
  proof -
    have "\<not> ?k < n" using c(2) that(1) by (auto simp: not_le [symmetric])
    with k have "?k = n" by simp
    with mono that(2) have "e_end (GC_excl_table st i) \<le> e_end (GC_excl_table st ?k)" by simp
    then show ?thesis using that(1) by (rule order_trans)
  qed
  ultimately show ?thesis
    using k Suc by (simp add: GC_next_exclusion_def Let_def less_Suc_eq_le not_le)
qed

lemma shift_up_nth:
  "shift_up t n k i = (if k < i \<and> i \<le> n then t (i - 1) else t i)"
proof (induction n arbitrary: t)
  case 0
  then show ?case by simp
next
  case (Suc n)
  show ?case
  proof (cases "Suc n > k")
    case True
    then have "shift_up t (Suc n) k i = shift_up (t(Suc n := t n)) n k i" by simp
    also have "\<dots> = (if k < i \<and> i \<le> n then (t(Suc n := t n)) (i - 1) else (t(Suc n := t n)) i)"
      by (rule Suc.IH)
    also have "\<dots> = (if k < i \<and> i \<le> Suc n then t (i - 1) else t i)"
      using True by auto
    finally show ?thesis .
  next
    case False
    then show ?thesis by auto
  qed
qed

text \<open>Inserting a range before entry \<open>k\<close> (or at the end) keeps the table sorted.\<close>

lemma excl_insert:
  assumes inv: "excl_inv st" and ne: "start < finish" and k: "k \<le> GC_excl_table_entries st"
    and before: "\<forall>i < k. e_end (GC_excl_table st i) \<le> start"
    and after: "k < GC_excl_table_entries st \<longrightarrow> finish \<le> e_start (GC_excl_table st k)"
    and room: "GC_excl_table_entries st < MAX_EXCLUSIONS"
    and st': "st' = st\<lparr>GC_excl_table := (shift_up (GC_excl_table st) (GC_excl_table_entries st) k)
                 (k := \<lparr>e_start = start, e_end = finish\<rparr>),
               GC_excl_table_entries := Suc (GC_excl_table_entries st)\<rparr>"
  shows "excl_inv st' \<and> (excluded st' a \<longleftrightarrow> excluded st a \<or> start \<le> a \<and> a < finish)"
proof -
  let ?n = "GC_excl_table_entries st" and ?t = "GC_excl_table st" and ?t' = "GC_excl_table st'"
  have nth: "?t' i = (if i = k then \<lparr>e_start = start, e_end = finish\<rparr>
      else if k < i \<and> i \<le> ?n then ?t (i - 1) else ?t i)" for i
    by (simp add: st' shift_up_nth)
  have n': "GC_excl_table_entries st' = Suc ?n" by (simp add: st')
  have ne_t: "e_start (?t i) < e_end (?t i)" if "i < ?n" for i
    using inv that by (simp add: excl_inv_def)
  have sorted: "e_end (?t i) \<le> e_start (?t j)" if "i < j" "j < ?n" for i j
    using inv that by (simp add: excl_inv_def)
  have after': "finish \<le> e_start (?t j)" if "k \<le> j" "j < ?n" for j
  proof (cases "j = k")
    case False
    with that have "e_end (?t k) \<le> e_start (?t j)" "e_start (?t k) < e_end (?t k)"
      using sorted ne_t by auto
    with after that show ?thesis by auto
  qed (use after that in auto)
  have "e_start (?t' i) < e_end (?t' i)" if "i < Suc ?n" for i
    using that k ne ne_t by (auto simp: nth)
  moreover have "e_end (?t' i) \<le> e_start (?t' j)" if ij: "i < j" "j < Suc ?n" for i j
  proof -
    consider "i < k" "j < k" | "i < k" "j = k" | "i < k" "k < j" | "i = k" "k < j" | "k < i" "k < j"
      using ij by linarith
    then show ?thesis
    proof cases
      case 3
      then have "e_end (?t i) \<le> start" "finish \<le> e_start (?t (j - 1))"
        using before after' [of "j - 1"] ij by auto
      with 3 ij ne show ?thesis by (simp add: nth)
    next
      case 5
      then show ?thesis using ij sorted [of "i - 1" "j - 1"] by (simp add: nth)
    qed (use ij k sorted before after' [of "j - 1"] in \<open>auto simp: nth\<close>)
  qed
  ultimately have "excl_inv st'"
    using room by (simp add: excl_inv_def n')
  moreover have "excluded st' a \<longleftrightarrow> excluded st a \<or> start \<le> a \<and> a < finish"
  proof
    assume "excluded st' a"
    then obtain i where "i < Suc ?n" "e_start (?t' i) \<le> a" "a < e_end (?t' i)"
      by (auto simp: excluded_def n')
    moreover from this(1) have "k < i \<Longrightarrow> i - 1 < ?n" by auto
    ultimately show "excluded st a \<or> start \<le> a \<and> a < finish"
      using k by (auto simp: nth excluded_def split: if_splits)
  next
    assume "excluded st a \<or> start \<le> a \<and> a < finish"
    then show "excluded st' a"
    proof
      assume "excluded st a"
      then obtain i where i: "i < ?n" "e_start (?t i) \<le> a" "a < e_end (?t i)"
        by (auto simp: excluded_def)
      show ?thesis
      proof (cases "i < k")
        case True
        with i show ?thesis unfolding excluded_def n' by (intro exI [of _ i]) (simp add: nth)
      next
        case False
        with i show ?thesis unfolding excluded_def n' by (intro exI [of _ "Suc i"]) (simp add: nth)
      qed
    next
      assume "start \<le> a \<and> a < finish"
      with k show ?thesis unfolding excluded_def n' by (intro exI [of _ k]) (simp add: nth)
    qed
  qed
  ultimately show ?thesis by simp
qed

text \<open>Extending entry \<open>k\<close> backwards.\<close>

lemma excl_extend:
  assumes inv: "excl_inv st" and ne: "start < finish" and k: "k < GC_excl_table_entries st"
    and before: "\<forall>i < k. e_end (GC_excl_table st i) \<le> start"
    and eq: "e_start (GC_excl_table st k) = finish"
    and st': "st' = st\<lparr>GC_excl_table := (GC_excl_table st)
                 (k := (GC_excl_table st k)\<lparr>e_start := start\<rparr>)\<rparr>"
  shows "excl_inv st' \<and> (excluded st' a \<longleftrightarrow> excluded st a \<or> start \<le> a \<and> a < finish)"
proof -
  let ?n = "GC_excl_table_entries st" and ?t = "GC_excl_table st"
  have n': "GC_excl_table_entries st' = ?n" by (simp add: st')
  have nth: "e_start (GC_excl_table st' i) = (if i = k then start else e_start (?t i))"
    "e_end (GC_excl_table st' i) = e_end (?t i)" for i
    by (simp_all add: st')
  have ne_k: "finish < e_end (?t k)"
    using inv k eq by (auto simp: excl_inv_def)
  have "excl_inv st'"
    using inv ne ne_k before unfolding excl_inv_def n' nth by auto
  moreover have "excluded st' a \<longleftrightarrow> excluded st a \<or> start \<le> a \<and> a < finish"
  proof
    assume "excluded st' a"
    then obtain i where "i < ?n" "(if i = k then start else e_start (?t i)) \<le> a" "a < e_end (?t i)"
      by (auto simp: excluded_def n' nth)
    then show "excluded st a \<or> start \<le> a \<and> a < finish"
      using eq by (cases "i = k") (auto simp: excluded_def not_less)
  next
    assume "excluded st a \<or> start \<le> a \<and> a < finish"
    then show "excluded st' a"
    proof
      assume "excluded st a"
      then obtain i where "i < ?n" "e_start (?t i) \<le> a" "a < e_end (?t i)"
        by (auto simp: excluded_def)
      then show ?thesis
        unfolding excluded_def n' nth using eq ne by (intro exI [of _ i]) auto
    next
      assume "start \<le> a \<and> a < finish"
      with k ne_k show ?thesis unfolding excluded_def n' nth by (intro exI [of _ k]) auto
    qed
  qed
  ultimately show ?thesis by simp
qed

lemma exclude_inner_spec:
  assumes inv: "excl_inv st" and ne: "start < finish"
    and res: "GC_exclude_static_roots_inner st start finish = Ret st'"
  shows "excl_inv st' \<and> (excluded st' a \<longleftrightarrow> excluded st a \<or> start \<le> a \<and> a < finish)"
proof (cases "GC_next_exclusion st start")
  case None
  let ?n = "GC_excl_table_entries st"
  have sh: "shift_up (GC_excl_table st) ?n ?n = GC_excl_table st"
    by (rule ext) (auto simp: shift_up_nth)
  have "\<forall>i < ?n. e_end (GC_excl_table st i) \<le> start"
    using GC_next_exclusion_spec [OF inv, of start] None by simp
  moreover have "?n < MAX_EXCLUSIONS" "st' = st\<lparr>GC_excl_table := (shift_up (GC_excl_table st) ?n ?n)
       (?n := \<lparr>e_start = start, e_end = finish\<rparr>), GC_excl_table_entries := Suc ?n\<rparr>"
    using res None by (auto simp: GC_exclude_static_roots_inner_def Let_def sh split: if_splits)
  ultimately show ?thesis using excl_insert [OF inv ne, of ?n] by simp
next
  case (Some k)
  let ?n = "GC_excl_table_entries st"
  have k: "k < ?n" "\<forall>i < k. e_end (GC_excl_table st i) \<le> start"
    using GC_next_exclusion_spec [OF inv, of start] Some by simp_all
  show ?thesis
  proof (cases "e_start (GC_excl_table st k) = finish")
    case True
    then have "st' = st\<lparr>GC_excl_table := (GC_excl_table st)(k := (GC_excl_table st k)\<lparr>e_start := start\<rparr>)\<rparr>"
      using res Some by (auto simp: GC_exclude_static_roots_inner_def Let_def split: if_splits)
    from excl_extend [OF inv ne k True this] show ?thesis .
  next
    case False
    then have "finish \<le> e_start (GC_excl_table st k)" "?n < MAX_EXCLUSIONS"
      "st' = st\<lparr>GC_excl_table := (shift_up (GC_excl_table st) ?n k)
         (k := \<lparr>e_start = start, e_end = finish\<rparr>), GC_excl_table_entries := Suc ?n\<rparr>"
      using res Some by (auto simp: GC_exclude_static_roots_inner_def Let_def split: if_splits)
    then show ?thesis using excl_insert [OF inv ne less_imp_le [OF k(1)] k(2)] by simp
  qed
qed

text \<open>The traversal hands out exactly the non-excluded addresses of the range.\<close>

definition in_ranges :: "(ptr \<times> ptr) list \<Rightarrow> ptr \<Rightarrow> bool" where
  "in_ranges rs a \<longleftrightarrow> (\<exists>(s, e) \<in> set rs. s \<le> a \<and> a < e)"

lemma in_ranges_simps [simp]:
  "in_ranges [] a = False"
  "in_ranges ((s, e) # rs) a \<longleftrightarrow> s \<le> a \<and> a < e \<or> in_ranges rs a"
  "in_ranges (rs @ rs') a \<longleftrightarrow> in_ranges rs a \<or> in_ranges rs' a"
  by (auto simp: in_ranges_def)

lemma push_with_exclusions_spec:
  assumes "excl_inv st"
  shows "in_ranges (GC_push_conditional_with_exclusions st bottom top_p) a \<longleftrightarrow>
    bottom \<le> a \<and> a < top_p \<and> \<not> excluded st a"
  using assms
proof (induction st bottom top_p rule: GC_push_conditional_with_exclusions.induct)
  case (1 st bottom top_p)
  let ?t = "GC_excl_table st" and ?n = "GC_excl_table_entries st"
  note inv = "1.prems"
  have sorted: "e_end (?t i) \<le> e_start (?t j)" if "i < j" "j < ?n" for i j
    using inv that by (simp add: excl_inv_def)
  have ne: "e_start (?t i) < e_end (?t i)" if "i < ?n" for i
    using inv that by (simp add: excl_inv_def)
  define nxt where "nxt = (case GC_next_exclusion st bottom of None \<Rightarrow> None
      | Some k \<Rightarrow> if e_start (?t k) \<ge> top_p then None else Some k)"
  show ?case
  proof (cases "bottom < top_p")
    case False
    then show ?thesis
      by (auto simp: GC_push_conditional_with_exclusions.simps [of st bottom top_p])
  next
    case True
    show ?thesis
    proof (cases nxt)
      case None
      have "\<not> excluded st a" if "bottom \<le> a" "a < top_p"
      proof (cases "GC_next_exclusion st bottom")
        case None
        then have "\<forall>i < ?n. e_end (?t i) \<le> bottom"
          using GC_next_exclusion_spec [OF inv, of bottom] by simp
        with that show ?thesis by (auto simp: excluded_def)
      next
        case (Some k)
        then have "k < ?n" "\<forall>i < k. e_end (?t i) \<le> bottom" "top_p \<le> e_start (?t k)"
          using GC_next_exclusion_spec [OF inv, of bottom] None
          by (auto simp: nxt_def split: if_splits)
        then have "e_end (?t i) \<le> bottom \<or> top_p \<le> e_start (?t i)" if "i < ?n" for i
          using that sorted [of k i] ne [of k] by (cases i k rule: linorder_cases) auto
        with that show ?thesis by (fastforce simp: excluded_def)
      qed
      with True None show ?thesis
        by (auto simp: GC_push_conditional_with_exclusions.simps [of st bottom top_p] Let_def
            nxt_def [symmetric])
    next
      case (Some k)
      then have k: "k < ?n" "bottom < e_end (?t k)" "\<forall>i < k. e_end (?t i) \<le> bottom" "e_start (?t k) < top_p"
        using GC_next_exclusion_spec [OF inv, of bottom]
        by (auto simp: nxt_def not_le split: option.splits if_splits)
      have IH: "in_ranges (GC_push_conditional_with_exclusions st (e_end (?t k)) top_p) a \<longleftrightarrow>
          e_end (?t k) \<le> a \<and> a < top_p \<and> \<not> excluded st a"
        using "1.IH" [OF True nxt_def refl refl Some inv] .
      have "\<not> excluded st a" if "bottom \<le> a" "a < e_start (?t k)"
      proof -
        have "e_end (?t i) \<le> bottom \<or> e_start (?t k) \<le> e_start (?t i)" if "i < ?n" for i
          using that sorted [of k i] ne [of k] k by (cases i k rule: linorder_cases) auto
        with that show ?thesis by (fastforce simp: excluded_def)
      qed
      moreover have "excluded st a \<or> a < e_start (?t k) \<or> e_end (?t k) \<le> a"
        using k(1) by (meson excluded_def not_le)
      moreover have "in_ranges (GC_push_conditional_with_exclusions st bottom top_p) a \<longleftrightarrow>
          bottom \<le> a \<and> a < e_start (?t k) \<or> e_end (?t k) \<le> a \<and> a < top_p \<and> \<not> excluded st a"
        using True Some IH
        by (auto simp: GC_push_conditional_with_exclusions.simps [of st bottom top_p] Let_def
            nxt_def [symmetric])
      ultimately show ?thesis
        using k(2,4) by (meson less_imp_le order_less_trans order_trans)
    qed
  qed
qed

lemma remove_roots_quick_check:
  assumes "range_ok (s, f, t)" and "b \<le> s" and "f \<le> e"
  shows "PTR_ALIGN_UP b ALIGNMENT < PTR_ALIGN_DOWN e ALIGNMENT"
proof -
  from assms(1) have sf: "unat s < unat f" "8 dvd unat s" "8 dvd unat f"
    by (auto simp: range_ok_def word_less_nat_alt)
  have bs: "unat b \<le> unat s" "unat f \<le> unat e"
    using assms(2,3) by (simp_all add: word_le_nat_alt)
  have "unat s < 2 ^ 64" using unsigned_less [of s] by simp
  with sf(2) have "unat s + 7 < 2 ^ 64" by (auto elim!: dvdE)
  with bs(1) have "unat (PTR_ALIGN_UP b ALIGNMENT) = (unat b + 7) div 8 * 8"
    by (intro unat_ALIGN_UP) simp
  also have "\<dots> \<le> unat s" using bs(1) sf(2) by (auto elim!: dvdE)
  also have "\<dots> < unat f" by (rule sf(1))
  also have "\<dots> \<le> unat (PTR_ALIGN_DOWN e ALIGNMENT)"
    using bs(2) sf(3) by (auto simp: unat_ALIGN_DOWN elim!: dvdE)
  finally show ?thesis by (simp add: word_less_nat_alt)
qed

lemma exclude_inner_errors:
  assumes inv: "excl_inv st" and ne: "start < finish"
  shows "GC_exclude_static_roots_inner st start finish = Abort ''Exclusion ranges overlap'' \<longleftrightarrow>
      (\<exists>a. start \<le> a \<and> a < finish \<and> excluded st a)"
    and "(\<exists>st'. GC_exclude_static_roots_inner st start finish = Ret st') \<or>
      GC_exclude_static_roots_inner st start finish = Abort ''Exclusion ranges overlap'' \<or>
      GC_exclude_static_roots_inner st start finish = Abort ''Too many exclusions'' \<and>
        GC_excl_table_entries st = MAX_EXCLUSIONS"
proof -
  let ?t = "GC_excl_table st" and ?n = "GC_excl_table_entries st"
  have n: "?n \<le> MAX_EXCLUSIONS" using inv by (simp add: excl_inv_def)
  show "(\<exists>st'. GC_exclude_static_roots_inner st start finish = Ret st') \<or>
      GC_exclude_static_roots_inner st start finish = Abort ''Exclusion ranges overlap'' \<or>
      GC_exclude_static_roots_inner st start finish = Abort ''Too many exclusions'' \<and>
        ?n = MAX_EXCLUSIONS"
    using n by (auto simp: GC_exclude_static_roots_inner_def Let_def split: option.splits)
  show "GC_exclude_static_roots_inner st start finish = Abort ''Exclusion ranges overlap'' \<longleftrightarrow>
      (\<exists>a. start \<le> a \<and> a < finish \<and> excluded st a)"
  proof (cases "GC_next_exclusion st start")
    case None
    then have "\<forall>i < ?n. e_end (?t i) \<le> start"
      using GC_next_exclusion_spec [OF inv, of start] by simp
    then have "\<not> excluded st a" if "start \<le> a" for a
      using that by (fastforce simp: excluded_def)
    with None show ?thesis by (auto simp: GC_exclude_static_roots_inner_def Let_def)
  next
    case (Some k)
    then have k: "k < ?n" "start < e_end (?t k)" "\<forall>i < k. e_end (?t i) \<le> start"
      using GC_next_exclusion_spec [OF inv, of start] by simp_all
    have "(\<exists>a. start \<le> a \<and> a < finish \<and> excluded st a) \<longleftrightarrow> e_start (?t k) < finish"
    proof
      assume "\<exists>a. start \<le> a \<and> a < finish \<and> excluded st a"
      then obtain a i where a: "start \<le> a" "a < finish" "i < ?n" "e_start (?t i) \<le> a" "a < e_end (?t i)"
        by (auto simp: excluded_def)
      then have "\<not> i < k" using k(3) by (meson not_le order_less_le_trans)
      then have "e_start (?t k) \<le> e_start (?t i)"
      proof (cases "i = k")
        case False
        with \<open>\<not> i < k\<close> a(3) inv have "e_end (?t k) \<le> e_start (?t i)" "e_start (?t k) < e_end (?t k)"
          using k(1) by (auto simp: excl_inv_def)
        then show ?thesis by simp
      qed simp
      with a(2,4) show "e_start (?t k) < finish" by simp
    next
      assume "e_start (?t k) < finish"
      moreover have "e_start (?t k) < e_end (?t k)" using inv k(1) by (simp add: excl_inv_def)
      ultimately show "\<exists>a. start \<le> a \<and> a < finish \<and> excluded st a"
        using k(1,2) ne
        by (intro exI [of _ "max start (e_start (?t k))"]) (auto simp: excluded_def max_def)
    qed
    with Some show ?thesis by (auto simp: GC_exclude_static_roots_inner_def Let_def)
  qed
qed

section \<open>Properties\<close>

text \<open>The zero-initialised state of the collector's globals.\<close>

definition roots_init :: roots_state where
  "roots_init =
     \<lparr>GC_static_roots = (\<lambda>_. \<lparr>r_start = 0, r_end = 0, r_next = None, r_tmp = False\<rparr>),
      n_root_sets = 0, GC_root_size = 0, GC_root_index = (\<lambda>_. None),
      GC_excl_table = (\<lambda>_. \<lparr>e_start = 0, e_end = 0\<rparr>), GC_excl_table_entries = 0\<rparr>"

lemma roots_inv_init: "roots_inv roots_init"
  by (simp add: roots_init_def roots_inv_def index_inv_def root_bytes_def)

lemma excl_inv_init: "excl_inv roots_init"
  by (simp add: roots_init_def excl_inv_def)

text \<open>Two registered ranges, the second temporary, and one exclusion inside the first.\<close>

definition roots_ex :: roots_state where
  "roots_ex =
     (case obind (GC_add_roots_inner roots_init 0x1000 0x2000 False)
             (\<lambda>st. GC_add_roots_inner st 0x3000 0x4000 True) of
        Ret st \<Rightarrow> st\<lparr>GC_excl_table := (\<lambda>_. \<lparr>e_start = 0x1800, e_end = 0x1900\<rparr>),
                    GC_excl_table_entries := 1\<rparr>
      | _ \<Rightarrow> roots_init)"

lemmas roots_eval = GC_add_roots_inner_def PTR_ALIGN_UP_def PTR_ALIGN_DOWN_def roots_init_def
  gc_consts append_root_def add_roots_to_index_def GC_roots_present_def rt_hash_def Let_def
  root_list_def root_of_def push_bit_eq_mult

lemma roots_ex_list: "root_list roots_ex = [(0x1000, 0x2000, False), (0x3000, 0x4000, True)]"
  by (simp add: roots_ex_def roots_eval upt_rec)

lemma roots_inv_excl_upd [simp]:
  "roots_inv (st\<lparr>GC_excl_table := t, GC_excl_table_entries := n\<rparr>) = roots_inv st"
proof -
  have "prev_with (st\<lparr>GC_excl_table := t, GC_excl_table_entries := n\<rparr>) k h = prev_with st k h" for k h
    by (rule prev_with_cong) simp
  then show ?thesis
    by (simp add: roots_inv_def index_inv_def root_bytes_def)
qed

lemma roots_inv_ex: "roots_inv roots_ex"
proof -
  obtain st1 where 1: "GC_add_roots_inner roots_init 0x1000 0x2000 False = Ret st1"
    by (simp add: roots_eval)
  obtain st2 where 2: "GC_add_roots_inner st1 0x3000 0x4000 True = Ret st2"
    using 1 by (simp add: roots_eval) auto
  have "roots_inv st1" using add_roots_inner_spec [OF roots_inv_init 1] by blast
  then have "roots_inv st2" using add_roots_inner_spec [OF _ 2] by blast
  then show ?thesis by (simp add: roots_ex_def 1 2)
qed

lemma excl_inv_ex: "excl_inv roots_ex"
  by (simp add: roots_ex_def roots_eval excl_inv_def)

text \<open>
  C8: registering a range. In every state that satisfies the table invariant (hash index exact,
  ranges aligned and non-empty, \<open>GC_root_size\<close> the sum of the range sizes), \<open>GC_add_roots_inner\<close>
  returns a state that satisfies it again and whose roots cover exactly the addresses covered
  before and those of the requested range, rounded inwards to the pointer alignment; the only
  other outcome is the abort on a full table.
\<close>

theorem GC_add_roots_inner_correct:
  assumes "roots_inv st"
  shows "(\<exists>st'. GC_add_roots_inner st b e tmp = Ret st' \<and> roots_inv st' \<and>
      (\<forall>a. covered st' a \<longleftrightarrow>
         covered st a \<or> PTR_ALIGN_UP b ALIGNMENT \<le> a \<and> a < PTR_ALIGN_DOWN e ALIGNMENT)) \<or>
    n_root_sets st = MAX_ROOT_SETS \<and>
    GC_add_roots_inner st b e tmp = Abort ''Too many root sets''"
  using add_roots_inner_total [OF assms, of b e tmp] add_roots_inner_spec [OF assms, of b e tmp]
  by blast

theorem GC_add_roots_inner_witness:
  "roots_inv roots_init \<and>
   (\<exists>st'. GC_add_roots_inner roots_init 0x1003 0x2007 False = Ret st' \<and> covered st' 0x1008)"
  using GC_add_roots_inner_correct [OF roots_inv_init, of "0x1003" "0x2007" False] roots_inv_init
  by (auto simp: PTR_ALIGN_UP_def PTR_ALIGN_DOWN_def ALIGNMENT_def roots_init_def MAX_ROOT_SETS_def)

text \<open>
  C9: unregistering a range. \<open>GC_remove_roots\<close> keeps exactly the registered ranges that are
  not contained in the given one (the multiset of remaining ranges is the filtered one, although
  the loop moves the last entry into each hole), in every case including the early return, and
  keeps the table invariant, the rebuilt hash index included.
\<close>

theorem GC_remove_roots_correct:
  assumes "roots_inv st"
  shows "mset (root_list (GC_remove_roots st b e)) =
      filter_mset (\<lambda>(s, f, t). \<not> (b \<le> s \<and> f \<le> e)) (mset (root_list st)) \<and>
    roots_inv (GC_remove_roots st b e)"
proof (cases "PTR_ALIGN_UP b ALIGNMENT \<ge> PTR_ALIGN_DOWN e ALIGNMENT")
  case True
  have "\<forall>r \<in># mset (root_list st). \<not> (case r of (s, f, t) \<Rightarrow> b \<le> s \<and> f \<le> e)"
    using assms True remove_roots_quick_check [of _ _ _ b e]
    by (fastforce simp: roots_inv_ranges ranges_inv_def not_le [symmetric])
  then have "filter_mset (\<lambda>(s, f, t). \<not> (b \<le> s \<and> f \<le> e)) (mset (root_list st)) = mset (root_list st)"
    by (fastforce simp: filter_mset_eq_conv)
  with True assms show ?thesis by (simp add: GC_remove_roots_def)
next
  case False
  let ?Q = "\<lambda>(s, f, t). b \<le> s \<and> f \<le> e"
  have "\<And>rt. (r_start rt \<ge> b \<and> e \<ge> r_end rt) = ?Q (root_of rt)"
    by (simp add: root_of_def)
  note spec = remove_matching_roots_spec
    [where P = "\<lambda>rt. r_start rt \<ge> b \<and> e \<ge> r_end rt" and Q = ?Q, OF assms this]
  from spec False show ?thesis
    by (simp add: GC_remove_roots_def GC_remove_roots_inner_def case_prod_unfold)
qed

theorem GC_remove_roots_witness:
  "roots_inv roots_ex \<and>
   mset (root_list (GC_remove_roots roots_ex 0x0800 0x2800)) = {#(0x3000, 0x4000, True)#}"
  using GC_remove_roots_correct [OF roots_inv_ex, of "0x0800" "0x2800"] roots_inv_ex
  by (simp add: roots_ex_list)

text \<open>
  C10: \<open>GC_remove_tmp_roots\<close> drops exactly the temporary ranges and keeps the invariant.
\<close>

theorem GC_remove_tmp_roots_correct:
  assumes "roots_inv st"
  shows "mset (root_list (GC_remove_tmp_roots st)) =
      filter_mset (\<lambda>(s, f, t). \<not> t) (mset (root_list st)) \<and>
    roots_inv (GC_remove_tmp_roots st)"
proof -
  have "\<And>rt. r_tmp rt = (\<lambda>(s, f, t). t) (root_of rt)" by (simp add: root_of_def)
  note spec = remove_matching_roots_spec
    [where P = r_tmp and Q = "\<lambda>(s, f, t). t", OF assms this]
  from spec show ?thesis
    by (simp add: GC_remove_tmp_roots_def case_prod_unfold)
qed

theorem GC_remove_tmp_roots_witness:
  "roots_inv roots_ex \<and>
   mset (root_list (GC_remove_tmp_roots roots_ex)) = {#(0x1000, 0x2000, False)#}"
  using GC_remove_tmp_roots_correct [OF roots_inv_ex] roots_inv_ex by (simp add: roots_ex_list)

text \<open>
  C11: excluding a range. With the exclusion table sorted and disjoint,
  \<open>GC_exclude_static_roots_inner\<close> aborts on an overlap exactly when some address of the new
  range is already excluded, otherwise (unless the table is full) returns a table that is sorted
  and disjoint again and excludes exactly the old addresses and the new range.
\<close>

theorem GC_exclude_static_roots_inner_correct:
  assumes "excl_inv st" and "start < finish"
  shows "(GC_exclude_static_roots_inner st start finish = Abort ''Exclusion ranges overlap'' \<longleftrightarrow>
      (\<exists>a. start \<le> a \<and> a < finish \<and> excluded st a)) \<and>
    ((\<exists>st'. GC_exclude_static_roots_inner st start finish = Ret st' \<and> excl_inv st' \<and>
        (\<forall>a. excluded st' a \<longleftrightarrow> excluded st a \<or> start \<le> a \<and> a < finish)) \<or>
     GC_exclude_static_roots_inner st start finish = Abort ''Exclusion ranges overlap'' \<or>
     GC_exclude_static_roots_inner st start finish = Abort ''Too many exclusions'' \<and>
       GC_excl_table_entries st = MAX_EXCLUSIONS)"
  using exclude_inner_errors [OF assms] exclude_inner_spec [OF assms] by blast

theorem GC_exclude_static_roots_inner_witness:
  "excl_inv roots_init \<and> (0x1000 :: ptr) < 0x2000 \<and>
   (\<exists>st'. GC_exclude_static_roots_inner roots_init 0x1000 0x2000 = Ret st' \<and> excluded st' 0x1800)"
proof -
  have lt: "(0x1000 :: ptr) < 0x2000" by simp
  have "GC_exclude_static_roots_inner roots_init 0x1000 0x2000 \<noteq> Abort msg" for msg
    by (simp add: GC_exclude_static_roots_inner_def GC_next_exclusion_def roots_init_def gc_consts)
  with GC_exclude_static_roots_inner_correct [OF excl_inv_init lt] show ?thesis
    using lt excl_inv_init by auto
qed

text \<open>
  C12: scanning the static data. The ranges \<open>GC_push_roots\<close> hands to the marker for the
  registered root sets contain exactly the addresses that a root range covers and no exclusion
  range excludes; the loop over the exclusions always ends.
\<close>

theorem GC_push_static_roots_correct:
  assumes "excl_inv st"
  shows "in_ranges (GC_push_static_roots st) a \<longleftrightarrow> covered st a \<and> \<not> excluded st a"
proof -
  have "in_ranges (concat (map f xs)) a \<longleftrightarrow> (\<exists>x \<in> set xs. in_ranges (f x) a)"
    for f :: "nat \<Rightarrow> (ptr \<times> ptr) list" and xs
    by (induction xs) auto
  then show ?thesis
    unfolding GC_push_static_roots_def covered_def
    by (auto simp: push_with_exclusions_spec [OF assms])
qed

theorem GC_push_static_roots_witness:
  "excl_inv roots_ex \<and> in_ranges (GC_push_static_roots roots_ex) 0x1700 \<and>
   \<not> in_ranges (GC_push_static_roots roots_ex) 0x1880"
proof -
  have "covered roots_ex 0x1700" "\<not> excluded roots_ex 0x1700" "excluded roots_ex 0x1880"
    by (simp_all add: covered_list roots_ex_list)
      (simp_all add: excluded_def roots_ex_def roots_eval)
  then show ?thesis
    using GC_push_static_roots_correct [OF excl_inv_ex] excl_inv_ex by simp
qed

end
