(* ===== verification/Header_Table.thy ===== *)
theory Header_Table
  imports GC_Prelude
begin

text \<open>
  The block header index of \<^verbatim>\<open>headers.c\<close> and \<^verbatim>\<open>include/private/gc_hdrs.h\<close>: a two-level tree from heap
  block addresses to header pointers whose top level is a hash table of chained bottom-level
  index blocks, the doubly linked list of those blocks in address order, and the scratch
  allocator the index and the headers are carved from. Addresses are natural numbers; header
  and index objects live in stores from addresses to records, \<open>NULL\<close> is 0.
\<close>

section \<open>Parameters\<close>

definition BLK :: nat where [gc_consts]: "BLK = 4096"  \<comment> \<open>\<open>HBLKSIZE\<close> as a number\<close>
definition LOG_BOTTOM_SZ :: nat where [gc_consts]: "LOG_BOTTOM_SZ = 10"
definition BOTTOM_SZ :: nat where [gc_consts]: "BOTTOM_SZ = 2 ^ LOG_BOTTOM_SZ"
definition LOG_TOP_SZ :: nat where [gc_consts]: "LOG_TOP_SZ = 11"
definition TOP_SZ :: nat where [gc_consts]: "TOP_SZ = 2 ^ LOG_TOP_SZ"
definition MAX_JUMP :: nat where [gc_consts]: "MAX_JUMP = BLK - 1"
definition GC_GRANULE_BYTES :: nat where [gc_consts]: "GC_GRANULE_BYTES = 16"
definition GC_SIZE_MAX :: nat where [gc_consts]: "GC_SIZE_MAX = 2 ^ 64 - 1"
definition sizeof_bottom_index :: nat where [gc_consts]: "sizeof_bottom_index = 8224"
definition sizeof_hdr :: nat where [gc_consts]: "sizeof_hdr = 104"

definition SIZET_SAT_ADD :: "nat \<Rightarrow> nat \<Rightarrow> nat" where
  "SIZET_SAT_ADD a b = (if a < GC_SIZE_MAX - b then a + b else GC_SIZE_MAX)"

definition ROUNDUP_GRANULE_SIZE :: "nat \<Rightarrow> nat" where
  "ROUNDUP_GRANULE_SIZE lb =
     SIZET_SAT_ADD lb (GC_GRANULE_BYTES - 1) div GC_GRANULE_BYTES * GC_GRANULE_BYTES"

section \<open>State\<close>

record hdr =
  hb_next :: nat
  hb_prev :: nat
  hb_block :: nat
  hb_obj_kind :: "8 word"
  hb_flags :: "8 word"
  hb_last_reclaimed :: "16 word"
  hb_sz :: nat
  hb_descr :: "64 word"
  hb_map :: nat   \<comment> \<open>the address of an entry table of \<open>GC_obj_map\<close>\<close>
  hb_n_marks :: nat
  hb_marks :: "nat \<Rightarrow> 64 word"

record bottom_index =
  bi_index :: "nat \<Rightarrow> nat"   \<comment> \<open>\<open>hdr *index[BOTTOM_SZ]\<close>: header pointers or forwarding counts\<close>
  asc_link :: nat
  desc_link :: nat
  bi_key :: nat
  hash_link :: nat

record hdr_cache_entry =
  block_addr :: nat   \<comment> \<open>right-shifted by \<open>LOG_HBLKSIZE\<close>\<close>
  hce_hdr :: nat

record hdr_state =
  bi_mem :: "nat \<Rightarrow> bottom_index"
  hdr_mem :: "nat \<Rightarrow> hdr"
  GC_top_index :: "nat \<Rightarrow> nat"
  GC_all_nils :: nat
  GC_all_bottom_indices :: nat
  GC_all_bottom_indices_end :: nat
  GC_hdr_free_list :: nat
  GC_scratch_free_ptr :: nat
  GC_scratch_end_addr :: nat
  GC_page_size :: nat
  GC_gc_no :: nat
  GC_hdr_cache :: "nat \<Rightarrow> hdr_cache_entry"
  os_mem :: "nat list"   \<comment> \<open>the results of the coming calls of \<open>GC_os_get_mem\<close>\<close>

definition IS_FORWARDING_ADDR_OR_NIL :: "nat \<Rightarrow> bool" where
  "IS_FORWARDING_ADDR_OR_NIL hhdr \<longleftrightarrow> hhdr \<le> MAX_JUMP"

definition FREE_BLK :: "8 word" where "FREE_BLK = 4"
definition WAS_UNMAPPED :: "8 word" where "WAS_UNMAPPED = 2"

definition HBLK_IS_FREE :: "hdr \<Rightarrow> bool" where
  "HBLK_IS_FREE hhdr \<longleftrightarrow> hb_flags hhdr AND FREE_BLK \<noteq> 0"

definition zero_bi :: bottom_index where
  "zero_bi = \<lparr>bi_index = (\<lambda>_. 0), asc_link = 0, desc_link = 0, bi_key = 0, hash_link = 0\<rparr>"

section \<open>Scratch memory\<close>

text \<open>
  \<open>GC_os_get_mem\<close> belongs to the operating system layer: the model is given the addresses
  its successive calls return, 0 for a failure and after the end of the list.
\<close>

definition GC_os_get_mem :: "hdr_state \<Rightarrow> nat \<times> hdr_state" where
  "GC_os_get_mem st =
     (case os_mem st of [] \<Rightarrow> (0, st) | r # rs \<Rightarrow> (r, st\<lparr>os_mem := rs\<rparr>))"

text \<open>
  The loop of \<open>GC_scratch_alloc\<close>. Each round but the last takes one more region from the
  operating system, so the number of pending results bounds the rounds.
\<close>

function scratch_alloc_loop :: "nat \<Rightarrow> hdr_state \<Rightarrow> nat \<Rightarrow> nat \<times> hdr_state" where
  "scratch_alloc_loop bytes st result =
     (if bytes \<le> GC_scratch_end_addr st - result then
        (result, st\<lparr>GC_scratch_free_ptr := result + bytes\<rparr>)
      else if bytes \<ge> 16 * BLK then
        (case GC_os_get_mem st of (result, st) \<Rightarrow> (result, st))
      else
        let bytes_to_get = SIZET_SAT_ADD (16 * BLK) (GC_page_size st - 1)
              div GC_page_size st * GC_page_size st
        in (case GC_os_get_mem st of (result, st') \<Rightarrow>
              if result = 0 then GC_os_get_mem st'
              else scratch_alloc_loop bytes
                     (st'\<lparr>GC_scratch_free_ptr := result,
                          GC_scratch_end_addr := result + bytes_to_get\<rparr>)
                     result))"
  by pat_completeness auto
termination
  by (relation "measure (\<lambda>(b, st, r). length (os_mem st))")
    (auto simp: GC_os_get_mem_def split: list.splits)

declare scratch_alloc_loop.simps [simp del]

definition GC_scratch_alloc :: "hdr_state \<Rightarrow> nat \<Rightarrow> nat \<times> hdr_state" where
  "GC_scratch_alloc st bytes =
     scratch_alloc_loop (ROUNDUP_GRANULE_SIZE bytes) st (GC_scratch_free_ptr st)"

definition alloc_hdr :: "hdr_state \<Rightarrow> nat \<times> hdr_state" where
  "alloc_hdr st =
     (if GC_hdr_free_list st = 0 then GC_scratch_alloc st sizeof_hdr
      else (GC_hdr_free_list st,
            st\<lparr>GC_hdr_free_list := hb_next (hdr_mem st (GC_hdr_free_list st))\<rparr>))"

definition free_hdr :: "hdr_state \<Rightarrow> nat \<Rightarrow> hdr_state" where
  "free_hdr st hhdr =
     st\<lparr>hdr_mem := (hdr_mem st)(hhdr := (hdr_mem st hhdr)\<lparr>hb_next := GC_hdr_free_list st\<rparr>),
        GC_hdr_free_list := hhdr\<rparr>"

section \<open>Lookup\<close>

definition TL_HASH :: "nat \<Rightarrow> nat" where
  "TL_HASH hi = hi mod TOP_SZ"

definition hi_of :: "nat \<Rightarrow> nat" where
  "hi_of p = p div (BOTTOM_SZ * BLK)"

definition lo_of :: "nat \<Rightarrow> nat" where
  "lo_of p = p div BLK mod BOTTOM_SZ"

text \<open>
  Fuel of the walks over index blocks: there are at most \<open>2 ^ 42\<close> keys, so no chain of
  distinct keys is longer.
\<close>

definition BI_FUEL :: nat where "BI_FUEL = 2 ^ 42 + 2"

fun GET_BI_loop :: "nat \<Rightarrow> hdr_state \<Rightarrow> nat \<Rightarrow> nat \<Rightarrow> nat outcome" where
  "GET_BI_loop 0 st hi bi = Stuck"
| "GET_BI_loop (Suc fuel) st hi bi =
     (if bi_key (bi_mem st bi) \<noteq> hi \<and> bi \<noteq> GC_all_nils st
      then GET_BI_loop fuel st hi (hash_link (bi_mem st bi))
      else Ret bi)"

definition GET_BI :: "hdr_state \<Rightarrow> nat \<Rightarrow> nat outcome" where
  "GET_BI st p = GET_BI_loop BI_FUEL st (hi_of p) (GC_top_index st (TL_HASH (hi_of p)))"

definition GC_find_header :: "hdr_state \<Rightarrow> nat \<Rightarrow> nat outcome" where
  "GC_find_header st p = obind (GET_BI st p) (\<lambda>bi. Ret (bi_index (bi_mem st bi) (lo_of p)))"

definition SET_HDR :: "hdr_state \<Rightarrow> nat \<Rightarrow> nat \<Rightarrow> hdr_state outcome" where
  "SET_HDR st p hhdr =
     obind (GET_BI st p) (\<lambda>bi.
       Ret (st\<lparr>bi_mem := (bi_mem st)
                (bi := (bi_mem st bi)
                  \<lparr>bi_index := (bi_index (bi_mem st bi))(lo_of p := hhdr)\<rparr>)\<rparr>))"

section \<open>Growing the index\<close>

definition GC_init_headers :: "hdr_state \<Rightarrow> hdr_state outcome" where
  "GC_init_headers st =
     (case GC_scratch_alloc st sizeof_bottom_index of (r, st) \<Rightarrow>
        if r = 0 then Abort ''Insufficient memory for GC_all_nils''
        else Ret (st\<lparr>GC_all_nils := r, bi_mem := (bi_mem st)(r := zero_bi),
                     GC_top_index := (\<lambda>i. if i < TOP_SZ then r else GC_top_index st i)\<rparr>))"

fun find_key_loop :: "nat \<Rightarrow> hdr_state \<Rightarrow> nat \<Rightarrow> nat \<Rightarrow> bool outcome" where
  "find_key_loop 0 st hi p = Stuck"
| "find_key_loop (Suc fuel) st hi p =
     (if p \<noteq> GC_all_nils st then
        if bi_key (bi_mem st p) = hi then Ret True
        else find_key_loop fuel st hi (hash_link (bi_mem st p))
      else Ret False)"

text \<open>The walk along \<open>asc_link\<close>; \<open>pi\<close> is the block before \<open>p\<close> (\<open>prev\<close> is its link field).\<close>

fun asc_position_loop :: "nat \<Rightarrow> hdr_state \<Rightarrow> nat \<Rightarrow> nat \<Rightarrow> nat \<Rightarrow> (nat \<times> nat) outcome" where
  "asc_position_loop 0 st hi pi p = Stuck"
| "asc_position_loop (Suc fuel) st hi pi p =
     (if p \<noteq> 0 \<and> bi_key (bi_mem st p) < hi
      then asc_position_loop fuel st hi p (asc_link (bi_mem st p))
      else Ret (pi, p))"

text \<open>Link the fresh index block \<open>r\<close> for \<open>hi\<close> between \<open>pi\<close> and \<open>p\<close> and into its hash chain.\<close>

definition link_bottom_index :: "hdr_state \<Rightarrow> nat \<Rightarrow> nat \<Rightarrow> nat \<Rightarrow> nat \<Rightarrow> hdr_state" where
  "link_bottom_index st r hi pi p =
     (let i = TL_HASH hi;
          m = (bi_mem st)(r := zero_bi\<lparr>bi_key := hi, hash_link := GC_top_index st i,
                                       desc_link := pi\<rparr>);
          st = (if p = 0 then st\<lparr>GC_all_bottom_indices_end := r\<rparr> else st);
          m = (if p = 0 then m else m(p := (m p)\<lparr>desc_link := r\<rparr>));
          m = m(r := (m r)\<lparr>asc_link := p\<rparr>);
          st = (if pi = 0 then st\<lparr>GC_all_bottom_indices := r\<rparr> else st);
          m = (if pi = 0 then m else m(pi := (m pi)\<lparr>asc_link := r\<rparr>))
      in st\<lparr>bi_mem := m, GC_top_index := (GC_top_index st)(i := r)\<rparr>)"

definition get_index :: "hdr_state \<Rightarrow> nat \<Rightarrow> (bool \<times> hdr_state) outcome" where
  "get_index st addr =
     (let hi = hi_of addr
      in obind (find_key_loop BI_FUEL st hi (GC_top_index st (TL_HASH hi))) (\<lambda>found.
           if found then Ret (True, st)
           else (case GC_scratch_alloc st sizeof_bottom_index of (r, st) \<Rightarrow>
             if r = 0 then Ret (False, st)
             else obind (asc_position_loop BI_FUEL st hi 0 (GC_all_bottom_indices st)) (\<lambda>(pi, p).
                    Ret (True, link_bottom_index st r hi pi p)))))"

section \<open>Installing and removing headers\<close>

definition GC_INVALIDATE_HDR_CACHE :: "hdr_state \<Rightarrow> hdr_state" where
  "GC_INVALIDATE_HDR_CACHE st =
     st\<lparr>GC_hdr_cache := (\<lambda>_. \<lparr>block_addr = 0, hce_hdr = 0\<rparr>)\<rparr>"

definition GC_install_header :: "hdr_state \<Rightarrow> nat \<Rightarrow> (nat \<times> hdr_state) outcome" where
  "GC_install_header st h =
     obind (get_index (GC_INVALIDATE_HDR_CACHE st) h) (\<lambda>(ok, st).
       if \<not> ok then Ret (0, st)
       else (case alloc_hdr st of (result, st) \<Rightarrow>
         if result \<noteq> 0 then
           obind (SET_HDR st h result) (\<lambda>st.
             Ret (result, st\<lparr>hdr_mem := (hdr_mem st)(result :=
               (hdr_mem st result)\<lparr>hb_last_reclaimed := of_nat (GC_gc_no st)\<rparr>)\<rparr>))
         else Ret (0, st)))"

text \<open>\<open>for (hbp = h; hbp < h + sz; hbp += BOTTOM_SZ) get_index(hbp)\<close>\<close>

function install_index_loop :: "hdr_state \<Rightarrow> nat \<Rightarrow> nat \<Rightarrow> (bool \<times> hdr_state) outcome" where
  "install_index_loop st hbp limit =
     (if hbp < limit then
        obind (get_index st hbp) (\<lambda>(ok, st).
          if \<not> ok then Ret (False, st)
          else if hbp > 2 ^ 64 - 1 - BOTTOM_SZ * BLK then Ret (True, st)
          else install_index_loop st (hbp + BOTTOM_SZ * BLK) limit)
      else Ret (True, st))"
  by pat_completeness auto
termination
  by (relation "measure (\<lambda>(st, hbp, limit). limit - hbp)") (auto simp: gc_consts)

text \<open>
  \<open>for (hbp = h + 1; hbp < h + sz; hbp++) SET_HDR(hbp, min(hbp - h, MAX_JUMP))\<close>. The limit is computed
  modulo \<open>2 ^ 64\<close>. When it lies in the last block of the address space, \<open>hbp\<close> wraps around to an
  address below it and the loop never ends (\<open>Stuck\<close>).
\<close>

function install_counts_loop :: "hdr_state \<Rightarrow> nat \<Rightarrow> nat \<Rightarrow> nat \<Rightarrow> hdr_state outcome" where
  "install_counts_loop st h hbp limit =
     (if hbp < limit then
        let i = (hbp - h) div BLK
        in obind (SET_HDR st hbp (if i > MAX_JUMP then MAX_JUMP else i)) (\<lambda>st.
             if hbp + BLK < 2 ^ 64 then install_counts_loop st h (hbp + BLK) limit else Stuck)
      else Ret st)"
  by pat_completeness auto
termination
  by (relation "measure (\<lambda>(st, h, hbp, limit). limit - hbp)") (auto simp: gc_consts)

declare install_index_loop.simps [simp del] install_counts_loop.simps [simp del]

definition GC_install_counts :: "hdr_state \<Rightarrow> nat \<Rightarrow> nat \<Rightarrow> (bool \<times> hdr_state) outcome" where
  "GC_install_counts st h sz =
     (let limit = (h + sz) mod 2 ^ 64
      in obind (install_index_loop (GC_INVALIDATE_HDR_CACHE st) h limit) (\<lambda>(ok, st).
           if \<not> ok then Ret (False, st)
           else obind (get_index st ((h + sz + (2 ^ 64 - 1)) mod 2 ^ 64)) (\<lambda>(ok, st).
             if \<not> ok then Ret (False, st)
             else obind (install_counts_loop st h ((h + BLK) mod 2 ^ 64) limit) (\<lambda>st. Ret (True, st)))))"

definition GC_remove_header :: "hdr_state \<Rightarrow> nat \<Rightarrow> hdr_state outcome" where
  "GC_remove_header st h =
     (let st = GC_INVALIDATE_HDR_CACHE st
      in obind (GC_find_header st h) (\<lambda>ha. SET_HDR (free_hdr st ha) h 0))"

function remove_counts_loop :: "hdr_state \<Rightarrow> nat \<Rightarrow> nat \<Rightarrow> hdr_state outcome" where
  "remove_counts_loop st hbp limit =
     (if hbp < limit then
        obind (SET_HDR st hbp 0) (\<lambda>st. if hbp + BLK < 2 ^ 64 then remove_counts_loop st (hbp + BLK) limit else Stuck)
      else Ret st)"
  by pat_completeness auto
termination
  by (relation "measure (\<lambda>(st, hbp, limit). limit - hbp)") (auto simp: gc_consts)

declare remove_counts_loop.simps [simp del]

definition GC_remove_counts :: "hdr_state \<Rightarrow> nat \<Rightarrow> nat \<Rightarrow> hdr_state outcome" where
  "GC_remove_counts st h sz =
     (let st = GC_INVALIDATE_HDR_CACHE st
      in if sz \<le> BLK then Ret st
         else obind (GC_find_header st ((h + BLK) mod 2 ^ 64)) (\<lambda>hhdr.
           if hhdr = 0 then Ret st else remove_counts_loop st ((h + BLK) mod 2 ^ 64) ((h + sz) mod 2 ^ 64)))"

section \<open>The index invariant\<close>

abbreviation key_of :: "hdr_state \<Rightarrow> nat \<Rightarrow> nat" where
  "key_of st b \<equiv> bi_key (bi_mem st b)"

text \<open>
  \<open>bs\<close> lists the index blocks in address order: the two linked lists and every hash chain
  agree with it, and the shared empty block \<open>GC_all_nils\<close> is outside it.
\<close>

definition ht_inv :: "hdr_state \<Rightarrow> nat list \<Rightarrow> bool" where
  "ht_inv st bs \<longleftrightarrow>
     GC_all_nils st \<noteq> 0 \<and> GC_all_nils st \<notin> set bs \<and> 0 \<notin> set bs
     \<and> bi_key (bi_mem st (GC_all_nils st)) = 0
     \<and> (\<forall>j < BOTTOM_SZ. bi_index (bi_mem st (GC_all_nils st)) j = 0)
     \<and> sorted_wrt (<) (map (key_of st) bs)
     \<and> (\<forall>b \<in> set bs. key_of st b < 2 ^ 42)
     \<and> chain (\<lambda>b. asc_link (bi_mem st b)) (GC_all_bottom_indices st) bs 0
     \<and> chain (\<lambda>b. desc_link (bi_mem st b)) (GC_all_bottom_indices_end st) (rev bs) 0
     \<and> (\<forall>i < TOP_SZ. \<exists>cs. chain (\<lambda>b. hash_link (bi_mem st b)) (GC_top_index st i) cs (GC_all_nils st)
          \<and> distinct cs \<and> set cs = {b \<in> set bs. TL_HASH (key_of st b) = i})"

lemma ht_inv_inj:
  assumes "ht_inv st bs"
  shows "distinct bs" and "inj_on (key_of st) (set bs)"
proof -
  have "distinct (map (key_of st) bs)"
    using assms by (simp add: ht_inv_def strict_sorted_iff flip: strict_sorted_simps)
  then show "distinct bs" "inj_on (key_of st) (set bs)"
    by (simp_all add: distinct_map)
qed

lemma length_le_keys:
  assumes "ht_inv st bs" "distinct cs" "set cs \<subseteq> set bs"
  shows "length cs \<le> 2 ^ 42"
proof -
  have "length cs = card (key_of st ` set cs)"
    using assms ht_inv_inj(2)[OF assms(1)]
    by (metis card_image distinct_card inj_on_subset)
  also have "\<dots> \<le> card {..< 2 ^ 42 :: nat}"
    using assms by (intro card_mono) (auto simp: ht_inv_def)
  finally show ?thesis by simp
qed

lemma hi_of_less: "p < 2 ^ 64 \<Longrightarrow> hi_of p < 2 ^ 42"
  by (simp add: hi_of_def gc_consts less_mult_imp_div_less)

lemma lo_of_less [simp]: "lo_of p < BOTTOM_SZ"
  by (simp add: lo_of_def gc_consts)

lemma hi_lo_eq: "hi_of p = hi_of q \<and> lo_of p = lo_of q \<longleftrightarrow> p div BLK = q div BLK"
proof -
  have "hi_of p = p div BLK div BOTTOM_SZ" for p
    by (simp add: hi_of_def div_mult2_eq mult.commute)
  then show ?thesis
    unfolding lo_of_def by (metis div_mult_mod_eq)
qed

lemma TL_HASH_less [simp]: "TL_HASH hi < TOP_SZ"
  by (simp add: TL_HASH_def gc_consts)

lemma GET_BI_loop_chain:
  assumes "chain (\<lambda>b. hash_link (bi_mem st b)) p cs (GC_all_nils st)" "length cs < fuel"
  shows "GET_BI_loop fuel st hi p =
     Ret (case find (\<lambda>b. key_of st b = hi) cs of Some b \<Rightarrow> b | None \<Rightarrow> GC_all_nils st)"
  using assms
proof (induction cs arbitrary: p fuel)
  case Nil
  then show ?case by (cases fuel) auto
next
  case (Cons c cs)
  then show ?case by (cases fuel) auto
qed

lemma find_key_loop_chain:
  assumes "chain (\<lambda>b. hash_link (bi_mem st b)) p cs (GC_all_nils st)" "length cs < fuel"
  shows "find_key_loop fuel st hi p = Ret (hi \<in> key_of st ` set cs)"
  using assms
proof (induction cs arbitrary: p fuel)
  case Nil
  then show ?case by (cases fuel) auto
next
  case (Cons c cs)
  then show ?case by (cases fuel) auto
qed

lemma hash_chain:
  assumes "ht_inv st bs"
  obtains cs where "chain (\<lambda>b. hash_link (bi_mem st b)) (GC_top_index st (TL_HASH hi)) cs (GC_all_nils st)"
    and "length cs < BI_FUEL" and "set cs = {b \<in> set bs. TL_HASH (key_of st b) = TL_HASH hi}"
proof -
  obtain cs where *: "chain (\<lambda>b. hash_link (bi_mem st b)) (GC_top_index st (TL_HASH hi)) cs (GC_all_nils st)"
    "distinct cs" "set cs = {b \<in> set bs. TL_HASH (key_of st b) = TL_HASH hi}"
    using assms unfolding ht_inv_def by (metis TL_HASH_less)
  moreover have "length cs < BI_FUEL"
    using length_le_keys[OF assms *(2)] *(3) by (simp add: BI_FUEL_def)
  ultimately show thesis using that by blast
qed

lemma GET_BI_found:
  assumes inv: "ht_inv st bs" and b: "b \<in> set bs" "key_of st b = hi_of p"
  shows "GET_BI st p = Ret b"
proof -
  obtain cs where cs: "chain (\<lambda>b. hash_link (bi_mem st b)) (GC_top_index st (TL_HASH (hi_of p))) cs (GC_all_nils st)"
    "length cs < BI_FUEL" "set cs = {b \<in> set bs. TL_HASH (key_of st b) = TL_HASH (hi_of p)}"
    using hash_chain[OF inv] by blast
  have "find (\<lambda>b. key_of st b = hi_of p) cs \<noteq> None"
    unfolding find_None_iff using cs(3) b by auto
  then obtain c where c: "find (\<lambda>b. key_of st b = hi_of p) cs = Some c" by blast
  then have "c \<in> set cs" "key_of st c = hi_of p"
    by (auto simp: find_Some_iff)
  then have "c = b"
    using inj_onD[OF ht_inv_inj(2)[OF inv]] cs(3) b by auto
  then show ?thesis
    using GET_BI_loop_chain[OF cs(1,2)] c by (simp add: GET_BI_def)
qed

lemma GET_BI_absent:
  assumes inv: "ht_inv st bs" and b: "hi_of p \<notin> key_of st ` set bs"
  shows "GET_BI st p = Ret (GC_all_nils st)"
proof -
  obtain cs where cs: "chain (\<lambda>b. hash_link (bi_mem st b)) (GC_top_index st (TL_HASH (hi_of p))) cs (GC_all_nils st)"
    "length cs < BI_FUEL" "set cs = {b \<in> set bs. TL_HASH (key_of st b) = TL_HASH (hi_of p)}"
    using hash_chain[OF inv] by blast
  have "find (\<lambda>b. key_of st b = hi_of p) cs = None"
    unfolding find_None_iff using cs(3) b by (auto simp: image_iff)
  then show ?thesis
    using GET_BI_loop_chain[OF cs(1,2)] by (simp add: GET_BI_def)
qed

definition HDR :: "hdr_state \<Rightarrow> nat \<Rightarrow> nat" where
  "HDR st p = (case GC_find_header st p of Ret v \<Rightarrow> v | _ \<Rightarrow> 0)"

definition has_index :: "hdr_state \<Rightarrow> nat list \<Rightarrow> nat \<Rightarrow> bool" where
  "has_index st bs p \<longleftrightarrow> hi_of p \<in> key_of st ` set bs"

lemma HDR_found:
  "ht_inv st bs \<Longrightarrow> b \<in> set bs \<Longrightarrow> key_of st b = hi_of p \<Longrightarrow> HDR st p = bi_index (bi_mem st b) (lo_of p)"
  by (simp add: HDR_def GC_find_header_def GET_BI_found)

lemma HDR_absent: "ht_inv st bs \<Longrightarrow> \<not> has_index st bs p \<Longrightarrow> HDR st p = 0"
  by (simp add: HDR_def GC_find_header_def GET_BI_absent has_index_def) (simp add: ht_inv_def)

lemma GC_find_header_HDR: "ht_inv st bs \<Longrightarrow> GC_find_header st p = Ret (HDR st p)"
  by (cases "hi_of p \<in> key_of st ` set bs")
    (auto simp: HDR_def GC_find_header_def GET_BI_found GET_BI_absent)

lemma HDR_block: "p div BLK = q div BLK \<Longrightarrow> HDR st p = HDR st q"
  using hi_lo_eq[of p q] by (simp add: HDR_def GC_find_header_def GET_BI_def)

lemma SET_HDR_ok:
  assumes inv: "ht_inv st bs" and p: "has_index st bs p"
  obtains st' where "SET_HDR st p v = Ret st'" and "ht_inv st' bs"
    and "\<And>q. HDR st' q = (if q div BLK = p div BLK then v else HDR st q)"
    and "\<And>q. has_index st' bs q = has_index st bs q"
    and "\<exists>m. st' = st\<lparr>bi_mem := m\<rparr>"
proof -
  obtain b where b: "b \<in> set bs" "key_of st b = hi_of p"
    using p by (auto simp: has_index_def)
  define st' where "st' = st\<lparr>bi_mem := (bi_mem st)(b := (bi_mem st b)
     \<lparr>bi_index := (bi_index (bi_mem st b))(lo_of p := v)\<rparr>)\<rparr>"
  have set: "SET_HDR st p v = Ret st'"
    by (simp add: SET_HDR_def GET_BI_found[OF inv b] st'_def)
  have same: "bi_key (bi_mem st' c) = key_of st c" "asc_link (bi_mem st' c) = asc_link (bi_mem st c)"
    "desc_link (bi_mem st' c) = desc_link (bi_mem st c)"
    "hash_link (bi_mem st' c) = hash_link (bi_mem st c)" for c
    by (simp_all add: st'_def)
  have "b \<noteq> GC_all_nils st" using inv b by (auto simp: ht_inv_def)
  then have inv': "ht_inv st' bs"
    using inv unfolding ht_inv_def same by (simp add: st'_def)
  have idx: "has_index st' bs q = has_index st bs q" for q
    by (simp add: has_index_def same)
  have "HDR st' q = (if q div BLK = p div BLK then v else HDR st q)" for q
  proof (cases "has_index st bs q")
    case True
    then obtain c where c: "c \<in> set bs" "key_of st c = hi_of q"
      by (auto simp: has_index_def)
    have "c = b \<longleftrightarrow> hi_of q = hi_of p"
      using inj_onD[OF ht_inv_inj(2)[OF inv]] b c by metis
    moreover have "HDR st' q = bi_index (bi_mem st' c) (lo_of q)"
      using HDR_found[OF inv' c(1)] c(2) same by simp
    moreover have "HDR st q = bi_index (bi_mem st c) (lo_of q)"
      by (rule HDR_found[OF inv c])
    ultimately show ?thesis
      using hi_lo_eq[of q p] by (auto simp: st'_def)
  next
    case False
    then have "q div BLK \<noteq> p div BLK"
      using hi_lo_eq[of q p] p by (auto simp: has_index_def)
    then show ?thesis
      using False HDR_absent[OF inv] HDR_absent[OF inv'] idx by simp
  qed
  with set inv' idx show thesis
    using that st'_def by blast
qed

section \<open>Scratch memory is never handed out twice\<close>

text \<open>
  What the operating system layer promises of \<open>GC_os_get_mem\<close>: a non-null result starts above
  the first page and its \<open>L\<close> bytes are not in use.
\<close>

fun os_ok :: "nat \<Rightarrow> nat set \<Rightarrow> nat list \<Rightarrow> bool" where
  "os_ok L U [] \<longleftrightarrow> True"
| "os_ok L U (r # rs) \<longleftrightarrow>
     (r = 0 \<and> os_ok L U rs \<or> r \<ge> BLK \<and> {r ..< r + L} \<inter> U = {} \<and> os_ok L (U \<union> {r ..< r + L}) rs)"

definition page_round :: "hdr_state \<Rightarrow> nat \<Rightarrow> nat" where
  "page_round st lb =
     SIZET_SAT_ADD lb (GC_page_size st - 1) div GC_page_size st * GC_page_size st"

text \<open>\<open>U\<close> is the set of addresses in use outside the unallocated part of the scratch area.\<close>

definition mem_inv :: "nat \<Rightarrow> hdr_state \<Rightarrow> nat set \<Rightarrow> bool" where
  "mem_inv L st U \<longleftrightarrow>
     16 * BLK \<le> page_round st (16 * BLK) \<and> page_round st (16 * BLK) \<le> L
     \<and> GC_scratch_free_ptr st \<le> GC_scratch_end_addr st
     \<and> (GC_scratch_free_ptr st < GC_scratch_end_addr st \<longrightarrow> BLK \<le> GC_scratch_free_ptr st)
     \<and> {GC_scratch_free_ptr st ..< GC_scratch_end_addr st} \<inter> U = {}
     \<and> os_ok L (U \<union> {GC_scratch_free_ptr st ..< GC_scratch_end_addr st}) (os_mem st)"

lemma os_ok_mono: "os_ok L U rs \<Longrightarrow> V \<subseteq> U \<Longrightarrow> os_ok L V rs"
proof (induction rs arbitrary: U V)
  case (Cons r rs)
  have "os_ok L V rs" if "os_ok L U rs"
    using Cons.IH[OF that] Cons.prems by blast
  moreover have "os_ok L (V \<union> {r ..< r + L}) rs" if "os_ok L (U \<union> {r ..< r + L}) rs"
    using Cons.IH[OF that] Cons.prems by blast
  ultimately show ?case using Cons.prems by auto
qed simp

text \<open>The part of the state the scratch allocator leaves alone.\<close>

definition same_index :: "hdr_state \<Rightarrow> hdr_state \<Rightarrow> bool" where
  "same_index st st' \<longleftrightarrow>
     bi_mem st' = bi_mem st \<and> hdr_mem st' = hdr_mem st \<and> GC_top_index st' = GC_top_index st
     \<and> GC_all_nils st' = GC_all_nils st \<and> GC_all_bottom_indices st' = GC_all_bottom_indices st
     \<and> GC_all_bottom_indices_end st' = GC_all_bottom_indices_end st
     \<and> GC_hdr_free_list st' = GC_hdr_free_list st \<and> GC_page_size st' = GC_page_size st
     \<and> GC_gc_no st' = GC_gc_no st \<and> GC_hdr_cache st' = GC_hdr_cache st"

lemma same_index_os_get_mem: "GC_os_get_mem st = (r, st') \<Longrightarrow> same_index st st'"
  by (auto simp: GC_os_get_mem_def same_index_def split: list.splits)

text \<open>What a request for \<open>bytes\<close> returned by either allocator means for the memory in use.\<close>

definition fresh_or_null :: "nat \<Rightarrow> nat set \<Rightarrow> nat \<Rightarrow> nat \<Rightarrow> hdr_state \<Rightarrow> bool" where
  "fresh_or_null L U bytes r st' \<longleftrightarrow>
     (if r = 0 then mem_inv L st' U
      else BLK \<le> r \<and> {r ..< r + bytes} \<inter> U = {} \<and> mem_inv L st' (U \<union> {r ..< r + bytes}))"

lemma region_prefix: "{r ..< r + L} \<inter> V = {} \<Longrightarrow> n \<le> L \<Longrightarrow> {r ..< r + n} \<inter> V = {}" for r :: nat
  by (rule disjoint_iff[THEN iffD2]) (auto dest!: disjoint_iff[THEN iffD1])

lemma os_get_mem_fresh:
  assumes inv: "mem_inv L st U" and "bytes \<le> L" and get: "GC_os_get_mem st = (r, st')"
  shows "fresh_or_null L U bytes r st'"
proof (cases "os_mem st")
  case Nil
  then show ?thesis using get inv by (auto simp: GC_os_get_mem_def fresh_or_null_def)
next
  case (Cons y ys)
  let ?S = "{GC_scratch_free_ptr st ..< GC_scratch_end_addr st}"
  have y: "y = r" "st' = st\<lparr>os_mem := ys\<rparr>" using Cons get by (auto simp: GC_os_get_mem_def)
  show ?thesis
  proof (cases "r = 0 \<and> os_ok L (U \<union> ?S) ys")
    case True
    then show ?thesis using y inv by (auto simp: mem_inv_def fresh_or_null_def page_round_def)
  next
    case False
    then have r: "r \<ge> BLK" "{r ..< r + L} \<inter> (U \<union> ?S) = {}" "os_ok L (U \<union> ?S \<union> {r ..< r + L}) ys"
      using inv Cons y by (auto simp: mem_inv_def)
    have "os_ok L (U \<union> {r ..< r + bytes} \<union> ?S) ys"
      using r(3) by (rule os_ok_mono) (use \<open>bytes \<le> L\<close> in auto)
    moreover have "{r ..< r + bytes} \<inter> (U \<union> ?S) = {}"
      by (rule region_prefix[OF r(2) \<open>bytes \<le> L\<close>])
    ultimately show ?thesis using y r(1) inv
      by (simp add: mem_inv_def fresh_or_null_def page_round_def BLK_def Int_Un_distrib Int_commute)
  qed
qed

lemma os_get_mem_refill:
  assumes inv: "mem_inv L st U" and get: "GC_os_get_mem st = (x, st1)" and "x \<noteq> 0"
  shows "mem_inv L (st1\<lparr>GC_scratch_free_ptr := x,
                       GC_scratch_end_addr := x + page_round st (16 * BLK)\<rparr>) U"
proof -
  obtain xs where xs: "os_mem st = x # xs" "st1 = st\<lparr>os_mem := xs\<rparr>"
    using get \<open>x \<noteq> 0\<close> by (auto simp: GC_os_get_mem_def split: list.splits)
  let ?S = "{GC_scratch_free_ptr st ..< GC_scratch_end_addr st}"
  let ?n = "page_round st (16 * BLK)"
  have x: "x \<ge> BLK" "{x ..< x + L} \<inter> (U \<union> ?S) = {}" "os_ok L (U \<union> ?S \<union> {x ..< x + L}) xs"
    and n: "?n \<le> L" "16 * BLK \<le> ?n"
    using inv xs \<open>x \<noteq> 0\<close> by (auto simp: mem_inv_def)
  have "os_ok L (U \<union> {x ..< x + ?n}) xs"
    using x(3) by (rule os_ok_mono) (use n in auto)
  moreover have "{x ..< x + ?n} \<inter> (U \<union> ?S) = {}"
    by (rule region_prefix[OF x(2) n(1)])
  moreover have "page_round (st1\<lparr>GC_scratch_free_ptr := a, GC_scratch_end_addr := b\<rparr>) = page_round st" for a b
    using xs(2) by (auto simp: page_round_def)
  ultimately show ?thesis
    using xs(2) n x(1) by (simp add: mem_inv_def Int_Un_distrib)
qed

lemma scratch_carve:
  assumes inv: "mem_inv L st U" and n: "0 < n" "n \<le> GC_scratch_end_addr st - GC_scratch_free_ptr st"
  shows "fresh_or_null L U n (GC_scratch_free_ptr st)
           (st\<lparr>GC_scratch_free_ptr := GC_scratch_free_ptr st + n\<rparr>)"
proof -
  let ?f = "GC_scratch_free_ptr st" and ?e = "GC_scratch_end_addr st"
  have "U \<union> {?f ..< ?f + n} \<union> {?f + n ..< ?e} = U \<union> {?f ..< ?e}"
    using n by auto
  moreover have "{?f ..< ?f + n} \<inter> U = {} \<and> {?f + n ..< ?e} \<inter> (U \<union> {?f ..< ?f + n}) = {}"
    using inv n by (auto simp: mem_inv_def disjoint_iff)
  ultimately show ?thesis
    using inv n by (auto simp: mem_inv_def fresh_or_null_def page_round_def BLK_def)
qed

lemma scratch_alloc_loop_correct:
  assumes "mem_inv L st U" "0 < bytes" "bytes \<le> L" "result = GC_scratch_free_ptr st"
    and "scratch_alloc_loop bytes st result = (r, st')"
  shows "same_index st st' \<and> fresh_or_null L U bytes r st'"
  using assms
proof (induction bytes st result rule: scratch_alloc_loop.induct)
  case (1 bytes st result)
  let ?f = "GC_scratch_free_ptr st" and ?e = "GC_scratch_end_addr st"
  note loop = "1.prems"(5)[unfolded scratch_alloc_loop.simps[of bytes st result]]
  consider (fits) "bytes \<le> ?e - result" | (large) "\<not> bytes \<le> ?e - result" "bytes \<ge> 16 * BLK"
    | (more) "\<not> bytes \<le> ?e - result" "\<not> bytes \<ge> 16 * BLK" by blast
  then show ?case
  proof cases
    case fits
    then have r: "r = ?f" "st' = st\<lparr>GC_scratch_free_ptr := ?f + bytes\<rparr>"
      using loop "1.prems"(4) by auto
    then show ?thesis
      using scratch_carve[OF "1.prems"(1,2)] fits "1.prems"(4) by (simp add: same_index_def)
  next
    case large
    then have "GC_os_get_mem st = (r, st')"
      using loop by (simp split: prod.splits)
    then show ?thesis
      using os_get_mem_fresh "1.prems"(1,3) same_index_os_get_mem by blast
  next
    case more
    obtain x st1 where get: "GC_os_get_mem st = (x, st1)" by fastforce
    show ?thesis
    proof (cases "x = 0")
      case True
      then have get': "GC_os_get_mem st1 = (r, st')"
        using more get loop by (simp add: Let_def)
      have "mem_inv L st1 U"
        using os_get_mem_fresh[OF "1.prems"(1,3) get] True by (simp add: fresh_or_null_def)
      then have "fresh_or_null L U bytes r st'"
        using os_get_mem_fresh "1.prems"(3) get' by blast
      moreover have "same_index st st'"
        using same_index_os_get_mem[OF get] same_index_os_get_mem[OF get']
        by (simp add: same_index_def)
      ultimately show ?thesis by blast
    next
      case False
      define st2 where "st2 = st1\<lparr>GC_scratch_free_ptr := x,
        GC_scratch_end_addr := x + page_round st (16 * BLK)\<rparr>"
      have loop2: "scratch_alloc_loop bytes st2 x = (r, st')"
        using more get False loop by (simp add: st2_def page_round_def Let_def)
      have inv2: "mem_inv L st2 U"
        unfolding st2_def by (rule os_get_mem_refill[OF "1.prems"(1) get False])
      have x: "x = GC_scratch_free_ptr st2" by (simp add: st2_def)
      have "same_index st2 st' \<and> fresh_or_null L U bytes r st'"
        using "1.IH"[OF more refl get[symmetric] False, folded page_round_def, folded st2_def,
            OF inv2 "1.prems"(2,3) x loop2] .
      then show ?thesis
        using same_index_os_get_mem[OF get] by (auto simp: same_index_def st2_def)
    qed
  qed
qed

lemma same_index_inv: "same_index st st' \<Longrightarrow> ht_inv st' bs = ht_inv st bs"
  by (simp add: same_index_def ht_inv_def)

lemma GET_BI_loop_same:
  "same_index st st' \<Longrightarrow> GET_BI_loop fuel st' hi b = GET_BI_loop fuel st hi b"
  by (induction fuel arbitrary: b) (auto simp: same_index_def)

lemma same_index_HDR: "same_index st st' \<Longrightarrow> HDR st' p = HDR st p"
  by (simp add: HDR_def GC_find_header_def GET_BI_def GET_BI_loop_same) (simp add: same_index_def)

lemma ROUNDUP_GRANULE_SIZE_small:
  "n < GC_SIZE_MAX - 15 \<Longrightarrow> ROUNDUP_GRANULE_SIZE n = (n + 15) div 16 * 16"
  by (simp add: ROUNDUP_GRANULE_SIZE_def SIZET_SAT_ADD_def GC_GRANULE_BYTES_def)

lemma sizeof_rounded:
  "ROUNDUP_GRANULE_SIZE sizeof_bottom_index = 8224" "ROUNDUP_GRANULE_SIZE sizeof_hdr = 112"
  by (simp_all add: ROUNDUP_GRANULE_SIZE_small gc_consts)

lemma scratch_alloc_step:
  assumes "mem_inv L st U" "0 < ROUNDUP_GRANULE_SIZE n" "ROUNDUP_GRANULE_SIZE n \<le> L"
    and "GC_scratch_alloc st n = (r, st')"
  shows "same_index st st'" and "fresh_or_null L U (ROUNDUP_GRANULE_SIZE n) r st'"
  using scratch_alloc_loop_correct[OF assms(1-3) refl] assms(4) by (simp_all add: GC_scratch_alloc_def)

section \<open>Growing the index preserves it\<close>

lemma asc_position_loop_chain:
  assumes "chain (\<lambda>b. asc_link (bi_mem st b)) p (as @ cs) 0" "length (as @ cs) < fuel"
    and "\<forall>b \<in> set as. key_of st b < hi" "cs \<noteq> [] \<Longrightarrow> \<not> key_of st (hd cs) < hi"
  shows "asc_position_loop fuel st hi pi p =
     Ret (if as = [] then pi else last as, if cs = [] then 0 else hd cs)"
  using assms
proof (induction as arbitrary: p pi fuel)
  case Nil
  then show ?case by (cases fuel; cases cs) auto
next
  case (Cons a as)
  then show ?case by (cases fuel) auto
qed

lemma sorted_split_key:
  fixes hi :: nat
  assumes "sorted_wrt (<) (map f bs)"
  shows "filter (\<lambda>b. f b < hi) bs @ filter (\<lambda>b. \<not> f b < hi) bs = bs"
  using assms
proof (induction bs)
  case (Cons a bs)
  have "filter (\<lambda>b. f b < hi) bs = []" if "\<not> f a < hi"
    using Cons.prems that by (auto simp: filter_empty_conv)
  with Cons show ?case by auto
qed simp

lemma link_bottom_index_fields:
  fixes st :: hdr_state
  assumes "p = 0 \<or> p \<noteq> r" "pi = 0 \<or> pi \<noteq> r"
  shows "bi_key (bi_mem (link_bottom_index st r hi pi p) x) = (if x = r then hi else bi_key (bi_mem st x))"
    and "bi_index (bi_mem (link_bottom_index st r hi pi p) x) = (if x = r then (\<lambda>_. 0) else bi_index (bi_mem st x))"
    and "hash_link (bi_mem (link_bottom_index st r hi pi p) x) =
           (if x = r then GC_top_index st (TL_HASH hi) else hash_link (bi_mem st x))"
    and "asc_link (bi_mem (link_bottom_index st r hi pi p) x) =
           (if x = r then p else if pi \<noteq> 0 \<and> x = pi then r else asc_link (bi_mem st x))"
    and "desc_link (bi_mem (link_bottom_index st r hi pi p) x) =
           (if x = r then pi else if p \<noteq> 0 \<and> x = p then r else desc_link (bi_mem st x))"
    and "GC_all_bottom_indices (link_bottom_index st r hi pi p) = (if pi = 0 then r else GC_all_bottom_indices st)"
    and "GC_all_bottom_indices_end (link_bottom_index st r hi pi p) = (if p = 0 then r else GC_all_bottom_indices_end st)"
    and "GC_all_nils (link_bottom_index st r hi pi p) = GC_all_nils st"
    and "GC_top_index (link_bottom_index st r hi pi p) = (GC_top_index st)(TL_HASH hi := r)"
  unfolding link_bottom_index_def Let_def zero_bi_def
  by (cases "p = 0"; cases "pi = 0"; use assms in simp)+

lemma link_bottom_index_inv:
  assumes inv: "ht_inv st (as @ cs)" and r: "r \<noteq> 0" "r \<noteq> GC_all_nils st" "r \<notin> set (as @ cs)"
    and hi: "hi < 2 ^ 42" "\<forall>b \<in> set as. key_of st b < hi" "\<forall>b \<in> set cs. hi < key_of st b"
  shows "ht_inv (link_bottom_index st r hi (if as = [] then 0 else last as)
           (if cs = [] then 0 else hd cs)) (as @ r # cs)"
proof -
  define pi where "pi = (if as = [] then 0 else last as)"
  define p where "p = (if cs = [] then 0 else hd cs)"
  define st' where "st' = link_bottom_index st r hi pi p"
  note dist = ht_inv_inj(1)[OF inv]
  have "0 \<notin> set (as @ cs)" using inv by (simp add: ht_inv_def)
  then have nz: "p = 0 \<longleftrightarrow> cs = []" "pi = 0 \<longleftrightarrow> as = []"
    and nr: "p = 0 \<or> p \<noteq> r" "pi = 0 \<or> pi \<noteq> r"
    using r(3) unfolding p_def pi_def by (metis Un_iff hd_in_set last_in_set set_append)+
  note f = link_bottom_index_fields[OF nr, of st hi, folded st'_def, unfolded nz]
  have keys: "map (key_of st') xs = map (key_of st) xs" if "r \<notin> set xs" for xs
    using that f(1) by (intro map_cong) auto
  have "chain (\<lambda>b. asc_link (bi_mem st' b)) (GC_all_bottom_indices st') (as @ r # cs) 0"
    unfolding f(6) by (rule chain_insert[where nxt = "\<lambda>b. asc_link (bi_mem st b)"])
      (use inv dist r f(4) in \<open>auto simp: ht_inv_def p_def pi_def\<close>)
  moreover have "chain (\<lambda>b. desc_link (bi_mem st' b)) (GC_all_bottom_indices_end st') (rev cs @ r # rev as) 0"
  proof -
    have "chain (\<lambda>b. desc_link (bi_mem st' b)) (if rev cs = [] then r else GC_all_bottom_indices_end st)
        (rev cs @ r # rev as) 0"
      by (rule chain_insert[where nxt = "\<lambda>b. desc_link (bi_mem st b)"])
        (use inv dist r f(5) in \<open>auto simp: ht_inv_def last_rev hd_rev p_def pi_def\<close>)
    then show ?thesis by (simp add: f(7))
  qed
  moreover have "\<exists>es. chain (\<lambda>b. hash_link (bi_mem st' b)) (GC_top_index st' i) es (GC_all_nils st)
        \<and> distinct es \<and> set es = {b \<in> set (as @ r # cs). TL_HASH (key_of st' b) = i}" if i: "i < TOP_SZ" for i
  proof -
    obtain es where es: "chain (\<lambda>b. hash_link (bi_mem st b)) (GC_top_index st i) es (GC_all_nils st)"
      "distinct es" "set es = {b \<in> set (as @ cs). TL_HASH (key_of st b) = i}"
      using inv i unfolding ht_inv_def by blast
    have "chain (\<lambda>b. hash_link (bi_mem st' b)) q es (GC_all_nils st)
        = chain (\<lambda>b. hash_link (bi_mem st b)) q es (GC_all_nils st)" for q
      using es(3) r(3) by (intro chain_cong) (auto simp: f(3))
    then show ?thesis
      using es r by (intro exI[of _ "if TL_HASH hi = i then r # es else es"]) (auto simp: f(1,3,9))
  qed
  moreover have "sorted_wrt (<) (map (key_of st') (as @ r # cs))"
    using inv hi r(3) f(1)[of r] by (simp add: ht_inv_def keys sorted_wrt_append)
  ultimately show ?thesis
    using inv r hi(1) f(1,2,8) unfolding pi_def[symmetric] p_def[symmetric] st'_def[symmetric]
    by (simp add: ht_inv_def)
qed

text \<open>
  The whole state: \<open>U\<close> bounds the addresses in use, \<open>fs\<close> is the list of free headers, and no
  header serves two blocks.
\<close>

definition one_block :: "(nat \<Rightarrow> nat) \<Rightarrow> bool" where
  "one_block hf \<longleftrightarrow> (\<forall>p q. hf p > MAX_JUMP \<longrightarrow> hf p = hf q \<longrightarrow> p div BLK = q div BLK)"

lemma one_block_upd:
  assumes hf: "one_block hf" and v: "v \<le> MAX_JUMP \<or> (\<forall>q. hf q = v \<longrightarrow> q div BLK = b)"
  shows "one_block (\<lambda>q. if q div BLK = b then v else hf q)"
  unfolding one_block_def
proof (intro allI impI)
  fix p q
  assume p: "(if p div BLK = b then v else hf p) > MAX_JUMP"
    and pq: "(if p div BLK = b then v else hf p) = (if q div BLK = b then v else hf q)"
  show "p div BLK = q div BLK"
  proof (cases "p div BLK = b \<or> q div BLK = b")
    case True
    with v p pq show ?thesis by (cases "p div BLK = b"; cases "q div BLK = b") auto
  next
    case False
    then have "hf p > MAX_JUMP" "hf p = hf q" using p pq by simp_all
    then show ?thesis using hf unfolding one_block_def by blast
  qed
qed

definition hdr_inv :: "nat \<Rightarrow> hdr_state \<Rightarrow> nat set \<Rightarrow> nat list \<Rightarrow> nat list \<Rightarrow> bool" where
  "hdr_inv L st U bs fs \<longleftrightarrow>
     ht_inv st bs \<and> mem_inv L st U \<and> set bs \<subseteq> U \<and> GC_all_nils st \<in> U
     \<and> chain (\<lambda>h. hb_next (hdr_mem st h)) (GC_hdr_free_list st) fs 0 \<and> distinct fs
     \<and> set fs \<subseteq> U \<and> (\<forall>f \<in> set fs. f > MAX_JUMP)
     \<and> (\<forall>p. HDR st p > MAX_JUMP \<longrightarrow> HDR st p \<in> U \<and> HDR st p \<notin> set fs)
     \<and> one_block (HDR st)"

lemma mem_inv_L: "mem_inv L st U \<Longrightarrow> 16 * BLK \<le> L"
  by (simp add: mem_inv_def)

lemma mem_inv_mono: "mem_inv L st U \<Longrightarrow> V \<subseteq> U \<Longrightarrow> mem_inv L st V"
  unfolding mem_inv_def by (auto elim!: os_ok_mono simp: disjoint_iff)

lemma link_same:
  "hdr_mem (link_bottom_index st r hi pi p) = hdr_mem st"
  "GC_hdr_free_list (link_bottom_index st r hi pi p) = GC_hdr_free_list st"
  "GC_scratch_free_ptr (link_bottom_index st r hi pi p) = GC_scratch_free_ptr st"
  "GC_scratch_end_addr (link_bottom_index st r hi pi p) = GC_scratch_end_addr st"
  "GC_page_size (link_bottom_index st r hi pi p) = GC_page_size st"
  "GC_gc_no (link_bottom_index st r hi pi p) = GC_gc_no st"
  "GC_hdr_cache (link_bottom_index st r hi pi p) = GC_hdr_cache st"
  "os_mem (link_bottom_index st r hi pi p) = os_mem st"
  by (simp_all add: link_bottom_index_def Let_def)

lemma link_bottom_index_HDR:
  assumes inv: "ht_inv st (as @ cs)" and inv': "ht_inv st' (as @ r # cs)" and r: "r \<notin> set (as @ cs)"
    and hi: "hi \<notin> key_of st ` set (as @ cs)"
    and key: "\<And>x. bi_key (bi_mem st' x) = (if x = r then hi else bi_key (bi_mem st x))"
    and idx: "\<And>x. bi_index (bi_mem st' x) = (if x = r then (\<lambda>_. 0) else bi_index (bi_mem st x))"
  shows "HDR st' p = HDR st p"
proof -
  consider (new) "hi_of p = hi" | (old) b where "b \<in> set (as @ cs)" "key_of st b = hi_of p"
    | (none) "hi_of p \<noteq> hi" "hi_of p \<notin> key_of st ` set (as @ cs)"
    by (metis imageE)
  then show ?thesis
  proof cases
    case new
    then show ?thesis
      using HDR_found[OF inv', of r p] key[of r] idx[of r] HDR_absent[OF inv, of p] hi
      by (simp add: has_index_def)
  next
    case (old b)
    have "b \<in> set (as @ r # cs)" "bi_key (bi_mem st' b) = hi_of p" "b \<noteq> r"
      using old r key by auto
    then show ?thesis
      using HDR_found[OF inv', of b p] HDR_found[OF inv old] idx[of b] by simp
  next
    case none
    have "key_of st' ` set (as @ r # cs) = insert hi (key_of st ` set (as @ cs))"
      using key r by (auto simp: image_iff)
    then show ?thesis
      using none HDR_absent[OF inv, of p] HDR_absent[OF inv', of p] by (simp add: has_index_def)
  qed
qed

definition indexed :: "hdr_state \<Rightarrow> nat \<Rightarrow> bool" where
  "indexed st p \<longleftrightarrow> GET_BI st p \<noteq> Ret (GC_all_nils st)"

lemma indexed_iff:
  assumes inv: "ht_inv st bs"
  shows "indexed st p \<longleftrightarrow> has_index st bs p"
proof (cases "has_index st bs p")
  case True
  then obtain b where b: "b \<in> set bs" "key_of st b = hi_of p" by (auto simp: has_index_def)
  have "b \<noteq> GC_all_nils st" using inv b(1) by (auto simp: ht_inv_def)
  with True show ?thesis by (simp add: indexed_def GET_BI_found[OF inv b])
next
  case False
  then show ?thesis using GET_BI_absent[OF inv] by (simp add: indexed_def has_index_def)
qed

text \<open>The fields no operation on the index tree touches.\<close>

definition same_rest :: "hdr_state \<Rightarrow> hdr_state \<Rightarrow> bool" where
  "same_rest st st' \<longleftrightarrow>
     hdr_mem st' = hdr_mem st \<and> GC_hdr_free_list st' = GC_hdr_free_list st
     \<and> GC_page_size st' = GC_page_size st \<and> GC_gc_no st' = GC_gc_no st
     \<and> GC_hdr_cache st' = GC_hdr_cache st"

lemma hdr_inv_grow:
  assumes inv: "hdr_inv L st U bs fs" and "same_rest st st'" "\<And>p. HDR st' p = HDR st p"
    and "ht_inv st' bs'" "mem_inv L st' U'" "U \<subseteq> U'" "set bs' \<subseteq> U'" "GC_all_nils st' \<in> U'"
  shows "hdr_inv L st' U' bs' fs"
proof -
  have "HDR st' = HDR st" "hdr_mem st' = hdr_mem st" "GC_hdr_free_list st' = GC_hdr_free_list st"
    using assms(2,3) by (auto simp: same_rest_def)
  with assms(4-8) inv show ?thesis
    unfolding hdr_inv_def by (metis subset_eq)
qed

text \<open>The branch of \<open>get_index\<close> that links a fresh index block.\<close>

lemma get_index_link:
  assumes inv: "hdr_inv L st U bs fs" and addr: "addr < 2 ^ 64" and absent: "\<not> has_index st bs addr"
    and r: "BLK \<le> r" "{r ..< r + 8224} \<inter> U = {}" and mem: "mem_inv L st (U \<union> {r ..< r + 8224})"
  obtains pi p bs' where
    "asc_position_loop BI_FUEL st (hi_of addr) 0 (GC_all_bottom_indices st) = Ret (pi, p)"
    and "hdr_inv L (link_bottom_index st r (hi_of addr) pi p) (U \<union> {r ..< r + 8224}) bs' fs"
    and "\<And>q. HDR (link_bottom_index st r (hi_of addr) pi p) q = HDR st q"
    and "indexed (link_bottom_index st r (hi_of addr) pi p) addr"
    and "\<And>q. indexed st q \<Longrightarrow> indexed (link_bottom_index st r (hi_of addr) pi p) q"
proof -
  let ?hi = "hi_of addr"
  have ht: "ht_inv st bs" and sub: "set bs \<subseteq> U" "GC_all_nils st \<in> U" using inv by (simp_all add: hdr_inv_def)
  define as where "as = filter (\<lambda>b. key_of st b < ?hi) bs"
  define cs where "cs = filter (\<lambda>b. \<not> key_of st b < ?hi) bs"
  define pi where "pi = (if as = [] then 0 else last as)"
  define p where "p = (if cs = [] then 0 else hd cs)"
  define st' where "st' = link_bottom_index st r ?hi pi p"
  have bs: "bs = as @ cs"
    unfolding as_def cs_def using ht by (intro sorted_split_key[symmetric]) (simp add: ht_inv_def)
  have hi: "?hi \<notin> key_of st ` set (as @ cs)" using absent bs by (simp add: has_index_def)
  have asc: "asc_position_loop BI_FUEL st ?hi 0 (GC_all_bottom_indices st) = Ret (pi, p)"
    unfolding pi_def p_def
  proof (rule asc_position_loop_chain)
    show "chain (\<lambda>b. asc_link (bi_mem st b)) (GC_all_bottom_indices st) (as @ cs) 0"
      using ht unfolding bs[symmetric] by (simp add: ht_inv_def)
    show "length (as @ cs) < BI_FUEL"
      using length_le_keys[OF ht, of bs] ht_inv_inj(1)[OF ht] unfolding bs[symmetric]
      by (simp add: BI_FUEL_def)
    show "cs \<noteq> [] \<Longrightarrow> \<not> key_of st (hd cs) < ?hi"
      using hd_in_set[of cs] by (auto simp: cs_def)
  qed (simp add: as_def)
  have r0: "r \<noteq> 0" "r \<notin> U" using r by (auto simp: BLK_def disjoint_iff)
  then have rn: "r \<noteq> GC_all_nils st" "r \<notin> set (as @ cs)" using sub bs by auto
  have cs_keys: "\<forall>b \<in> set cs. ?hi < key_of st b"
  proof
    fix b assume b: "b \<in> set cs"
    then have "key_of st b \<noteq> ?hi" using hi by (metis UnI2 image_eqI set_append)
    moreover have "\<not> key_of st b < ?hi" using b by (simp add: cs_def)
    ultimately show "?hi < key_of st b" by simp
  qed
  have ht': "ht_inv st' (as @ r # cs)"
    unfolding st'_def pi_def p_def
    by (rule link_bottom_index_inv)
      (use ht[unfolded bs] r0 rn hi_of_less[OF addr] cs_keys in \<open>simp_all add: as_def\<close>)
  have "p = 0 \<or> p \<noteq> r" "pi = 0 \<or> pi \<noteq> r"
    unfolding p_def pi_def using rn(2) hd_in_set[of cs] last_in_set[of as] by (metis Un_iff set_append)+
  note f = link_bottom_index_fields[OF this, of st ?hi, folded st'_def]
  have HDR': "HDR st' q = HDR st q" for q
    by (rule link_bottom_index_HDR[OF ht[unfolded bs] ht' rn(2) hi f(1,2)])
  have keys: "key_of st' ` set (as @ r # cs) = insert ?hi (key_of st ` set bs)"
    using f(1) rn(2) unfolding bs by (auto simp: image_iff)
  have "hdr_inv L st' (U \<union> {r ..< r + 8224}) (as @ r # cs) fs"
  proof (rule hdr_inv_grow[OF inv _ HDR' ht'])
    show "same_rest st st'" by (simp add: same_rest_def st'_def link_same)
    show "mem_inv L st' (U \<union> {r ..< r + 8224})"
      using mem by (simp add: mem_inv_def st'_def link_same page_round_def)
    show "set (as @ r # cs) \<subseteq> U \<union> {r ..< r + 8224}" using sub(1)[unfolded bs] by auto
    show "GC_all_nils st' \<in> U \<union> {r ..< r + 8224}" using sub(2) f(8) by simp
  qed simp
  moreover have "indexed st' addr" "indexed st q \<Longrightarrow> indexed st' q" for q
    unfolding indexed_iff[OF ht'] indexed_iff[OF ht] has_index_def keys by simp_all
  ultimately show thesis
    using that asc HDR' unfolding st'_def by blast
qed

abbreviation scratch_room :: "hdr_state \<Rightarrow> nat" where
  "scratch_room st \<equiv> GC_scratch_end_addr st - GC_scratch_free_ptr st"

lemma scratch_alloc_room:
  assumes "mem_inv L st U" "0 < ROUNDUP_GRANULE_SIZE n" "ROUNDUP_GRANULE_SIZE n \<le> scratch_room st"
    and "GC_scratch_alloc st n = (r, st')"
  shows "r \<noteq> 0 \<and> scratch_room st' = scratch_room st - ROUNDUP_GRANULE_SIZE n"
  using assms unfolding GC_scratch_alloc_def
  by (subst (asm) scratch_alloc_loop.simps) (auto simp: mem_inv_def BLK_def)

lemma get_index_ok:
  assumes inv: "hdr_inv L st U bs fs" and addr: "addr < 2 ^ 64"
  obtains ok st' U' bs' where "get_index st addr = Ret (ok, st')" and "hdr_inv L st' U' bs' fs"
    and "\<And>p. HDR st' p = HDR st p" and "ok \<Longrightarrow> indexed st' addr"
    and "\<And>p. indexed st p \<Longrightarrow> indexed st' p" and "same_rest st st'"
    and "\<And>n. n + 8224 \<le> scratch_room st \<Longrightarrow> ok \<and> n \<le> scratch_room st'"
proof -
  have ht: "ht_inv st bs" and mem: "mem_inv L st U" using inv by (simp_all add: hdr_inv_def)
  let ?hi = "hi_of addr"
  obtain cs where cs: "chain (\<lambda>b. hash_link (bi_mem st b)) (GC_top_index st (TL_HASH ?hi)) cs (GC_all_nils st)"
    "length cs < BI_FUEL" "set cs = {b \<in> set bs. TL_HASH (key_of st b) = TL_HASH ?hi}"
    using hash_chain[OF ht] by blast
  have "?hi \<in> key_of st ` set cs \<longleftrightarrow> has_index st bs addr"
    unfolding cs(3) has_index_def by auto
  then have found: "find_key_loop BI_FUEL st ?hi (GC_top_index st (TL_HASH ?hi)) = Ret (has_index st bs addr)"
    using find_key_loop_chain[OF cs(1,2), of ?hi] by simp
  obtain r st1 where alloc: "GC_scratch_alloc st sizeof_bottom_index = (r, st1)" by fastforce
  have same: "same_index st st1" and fresh: "fresh_or_null L U 8224 r st1"
    using scratch_alloc_step[OF mem _ _ alloc] mem_inv_L[OF mem] by (simp_all add: sizeof_rounded BLK_def)
  note ht1 = same_index_inv[OF same, THEN iffD2, OF ht]
  have rest: "same_rest st st1" and nils: "GC_all_nils st1 = GC_all_nils st"
    and idx: "has_index st1 bs = has_index st bs"
    using same by (auto simp: same_rest_def same_index_def has_index_def)
  have sub: "set bs \<subseteq> U" "GC_all_nils st \<in> U" using inv by (simp_all add: hdr_inv_def)
  have room: "r \<noteq> 0 \<and> n \<le> scratch_room st1" if "n + 8224 \<le> scratch_room st" for n
    using scratch_alloc_room[OF mem _ _ alloc] that by (simp add: sizeof_rounded)
  consider (present) "has_index st bs addr" | (fail) "\<not> has_index st bs addr" "r = 0"
    | (link) "\<not> has_index st bs addr" "r \<noteq> 0" by blast
  then show thesis
  proof cases
    case present
    then have "get_index st addr = Ret (True, st)" using found by (simp add: get_index_def)
    then show thesis
      by (rule that) (use present inv indexed_iff[OF ht] in \<open>simp_all add: same_rest_def\<close>)
  next
    case fail
    then have "get_index st addr = Ret (False, st1)" using found alloc by (simp add: get_index_def)
    moreover have "hdr_inv L st1 U bs fs"
      using fresh fail(2) nils sub
      by (intro hdr_inv_grow[OF inv rest same_index_HDR[OF same] ht1]) (simp_all add: fresh_or_null_def)
    ultimately show thesis
      by (rule that)
        (use indexed_iff[OF ht] indexed_iff[OF ht1] idx rest same_index_HDR[OF same] room fail in simp_all)
  next
    case link
    then have f: "BLK \<le> r" "{r ..< r + 8224} \<inter> U = {}" "mem_inv L st1 (U \<union> {r ..< r + 8224})"
      using fresh by (simp_all add: fresh_or_null_def)
    have "hdr_inv L st1 U bs fs"
      by (rule hdr_inv_grow[OF inv rest same_index_HDR[OF same] ht1])
        (use nils sub mem_inv_mono[OF f(3)] in auto)
    then obtain pi p bs' where l:
      "asc_position_loop BI_FUEL st1 ?hi 0 (GC_all_bottom_indices st1) = Ret (pi, p)"
      "hdr_inv L (link_bottom_index st1 r ?hi pi p) (U \<union> {r ..< r + 8224}) bs' fs"
      "\<And>q. HDR (link_bottom_index st1 r ?hi pi p) q = HDR st1 q"
      "indexed (link_bottom_index st1 r ?hi pi p) addr"
      "\<And>q. indexed st1 q \<Longrightarrow> indexed (link_bottom_index st1 r ?hi pi p) q"
      using get_index_link[OF _ addr _ f] link(1) idx by metis
    have "get_index st addr = Ret (True, link_bottom_index st1 r ?hi pi p)"
      using found alloc link l(1) by (simp add: get_index_def)
    then show thesis
      by (rule that[OF _ l(2)])
        (use l(3-5) rest indexed_iff[OF ht] indexed_iff[OF ht1] idx same_index_HDR[OF same] room
          in \<open>simp_all add: same_rest_def link_same\<close>)
  qed
qed

section \<open>Installing and removing headers\<close>

lemma SET_HDR_inv:
  assumes inv: "hdr_inv L st U bs fs" and p: "indexed st p"
    and v: "v \<le> MAX_JUMP \<or> v \<in> U \<and> v \<notin> set fs \<and> (\<forall>q. HDR st q = v \<longrightarrow> q div BLK = p div BLK)"
  obtains st' where "SET_HDR st p v = Ret st'" and "hdr_inv L st' U bs fs"
    and "\<And>q. HDR st' q = (if q div BLK = p div BLK then v else HDR st q)"
    and "\<And>q. indexed st' q = indexed st q" and "same_rest st st'"
proof -
  have ht: "ht_inv st bs" using inv by (simp add: hdr_inv_def)
  obtain st' where set: "SET_HDR st p v = Ret st'" and ht': "ht_inv st' bs"
    and HDR': "\<And>q. HDR st' q = (if q div BLK = p div BLK then v else HDR st q)"
    and idx: "\<And>q. has_index st' bs q = has_index st bs q" and m: "\<exists>m. st' = st\<lparr>bi_mem := m\<rparr>"
    using SET_HDR_ok[OF ht p[unfolded indexed_iff[OF ht]], of v] by blast
  have rest: "same_rest st st'" "GC_all_nils st' = GC_all_nils st" "mem_inv L st' U = mem_inv L st U"
    using m by (auto simp: same_rest_def mem_inv_def page_round_def)
  have inU: "HDR st' q \<in> U \<and> HDR st' q \<notin> set fs" if "HDR st' q > MAX_JUMP" for q
    using that v inv HDR' by (auto simp: hdr_inv_def split: if_splits)
  have "one_block (HDR st)" using inv by (simp add: hdr_inv_def)
  then have "one_block (\<lambda>q. if q div BLK = p div BLK then v else HDR st q)"
    by (rule one_block_upd) (use v in blast)
  then have inj: "one_block (HDR st')" unfolding HDR'[abs_def] .
  have "hdr_inv L st' U bs fs"
    unfolding hdr_inv_def
    by (intro conjI allI impI)
      (use inv ht' rest inU inj in \<open>simp_all add: hdr_inv_def same_rest_def\<close>)
  then show thesis
    by (rule that[OF set]) (use HDR' idx rest(1) indexed_iff[OF ht] indexed_iff[OF ht'] in simp_all)
qed

lemma scratch_alloc_hdr_inv:
  assumes inv: "hdr_inv L st U bs fs" and n: "0 < ROUNDUP_GRANULE_SIZE n" "ROUNDUP_GRANULE_SIZE n \<le> 16 * BLK"
    and alloc: "GC_scratch_alloc st n = (r, st')"
  shows "same_index st st'" "fresh_or_null L U (ROUNDUP_GRANULE_SIZE n) r st'" "HDR st' = HDR st"
    and "ht_inv st' bs"
    and "hdr_inv L st' (if r = 0 then U else U \<union> {r ..< r + ROUNDUP_GRANULE_SIZE n}) bs fs"
proof -
  have ht: "ht_inv st bs" and mem: "mem_inv L st U" and sub: "set bs \<subseteq> U" "GC_all_nils st \<in> U"
    using inv by (simp_all add: hdr_inv_def)
  show same: "same_index st st'" and fresh: "fresh_or_null L U (ROUNDUP_GRANULE_SIZE n) r st'"
    using scratch_alloc_step[OF mem n(1) _ alloc] mem_inv_L[OF mem] n(2) by simp_all
  show HDR: "HDR st' = HDR st" using same_index_HDR[OF same] by auto
  show ht': "ht_inv st' bs" by (rule same_index_inv[OF same, THEN iffD2, OF ht])
  show "hdr_inv L st' (if r = 0 then U else U \<union> {r ..< r + ROUNDUP_GRANULE_SIZE n}) bs fs"
    by (rule hdr_inv_grow[OF inv _ _ ht'])
      (use same sub fresh HDR in \<open>auto simp: same_rest_def same_index_def fresh_or_null_def\<close>)
qed

lemma alloc_hdr_ok:
  assumes inv: "hdr_inv L st U bs fs"
  obtains r st' U' fs' where "alloc_hdr st = (r, st')" and "hdr_inv L st' U' bs fs'"
    and "\<And>p. HDR st' p = HDR st p" and "\<And>p. indexed st' p = indexed st p"
    and "r \<noteq> 0 \<Longrightarrow> r > MAX_JUMP \<and> r \<in> U' \<and> r \<notin> set fs' \<and> (\<forall>p. HDR st p \<noteq> r)"
    and "hdr_mem st' = hdr_mem st" "GC_gc_no st' = GC_gc_no st" "GC_hdr_cache st' = GC_hdr_cache st"
    and "if fs = [] then fs' = [] else r = hd fs \<and> fs' = tl fs" and "112 \<le> scratch_room st \<Longrightarrow> r \<noteq> 0"
proof (cases fs)
  case Nil
  have ht: "ht_inv st bs" and mem: "mem_inv L st U" using inv by (simp_all add: hdr_inv_def)
  obtain r st' where alloc: "GC_scratch_alloc st sizeof_hdr = (r, st')" by fastforce
  define U' where "U' = (if r = 0 then U else U \<union> {r ..< r + 112})"
  have same: "same_index st st'" and fresh: "fresh_or_null L U 112 r st'" and HDR': "HDR st' = HDR st"
    and ht': "ht_inv st' bs" and "hdr_inv L st' U' bs fs"
    unfolding U'_def using scratch_alloc_hdr_inv[OF inv _ _ alloc, unfolded sizeof_rounded]
    by (simp_all add: BLK_def)
  moreover have "r > MAX_JUMP \<and> r \<in> U' \<and> r \<notin> set fs \<and> (\<forall>p. HDR st p \<noteq> r)" if "r \<noteq> 0"
  proof -
    have "r \<notin> U" "r > MAX_JUMP" "r \<in> U'"
      using fresh that by (auto simp: fresh_or_null_def U'_def gc_consts disjoint_iff)
    then show ?thesis using inv Nil unfolding hdr_inv_def by auto
  qed
  moreover have "alloc_hdr st = (r, st')"
    using inv Nil alloc by (simp add: alloc_hdr_def hdr_inv_def)
  moreover have "indexed st' p = indexed st p" for p
    unfolding indexed_iff[OF ht] indexed_iff[OF ht'] using same by (simp add: has_index_def same_index_def)
  ultimately show thesis
    by (intro that[of r st' U' fs])
      (use same HDR' Nil scratch_alloc_room[OF mem _ _ alloc] in \<open>simp_all add: same_index_def sizeof_rounded\<close>)
next
  case (Cons f fs')
  define st' where "st' = st\<lparr>GC_hdr_free_list := hb_next (hdr_mem st f)\<rparr>"
  have same: "HDR st' p = HDR st p" "indexed st' p = indexed st p" "ht_inv st' bs = ht_inv st bs"
    "mem_inv L st' U = mem_inv L st U" for p
  proof -
    have "GET_BI_loop n st' hi b = GET_BI_loop n st hi b" for n hi b
      by (induction n arbitrary: b) (simp_all add: st'_def)
    then show "HDR st' p = HDR st p" "indexed st' p = indexed st p"
      by (simp_all add: HDR_def indexed_def GC_find_header_def GET_BI_def) (simp_all add: st'_def)
  qed (simp_all add: st'_def ht_inv_def mem_inv_def page_round_def)
  have "hdr_inv L st' U bs fs'"
    unfolding hdr_inv_def same
    by (intro conjI allI impI) (use inv[unfolded Cons] in \<open>auto simp: hdr_inv_def st'_def\<close>)
  moreover have "alloc_hdr st = (f, st')"
    using inv Cons by (auto simp: alloc_hdr_def hdr_inv_def st'_def)
  moreover have "f > MAX_JUMP \<and> f \<in> U \<and> f \<notin> set fs' \<and> (\<forall>p. HDR st p \<noteq> f)"
    using inv[unfolded Cons] unfolding hdr_inv_def by fastforce
  ultimately show thesis
    by (intro that[of f st' U fs']) (use same Cons in \<open>simp_all add: st'_def\<close>)
qed

lemma invalidate_fields [simp]:
  "hdr_mem (GC_INVALIDATE_HDR_CACHE st) = hdr_mem st" "GC_gc_no (GC_INVALIDATE_HDR_CACHE st) = GC_gc_no st"
  "GC_hdr_free_list (GC_INVALIDATE_HDR_CACHE st) = GC_hdr_free_list st"
  by (simp_all add: GC_INVALIDATE_HDR_CACHE_def)

text \<open>Emptying the cache touches nothing else.\<close>

lemma invalidate_same:
  "hdr_inv L (GC_INVALIDATE_HDR_CACHE st) U bs fs = hdr_inv L st U bs fs"
  "HDR (GC_INVALIDATE_HDR_CACHE st) p = HDR st p"
  "indexed (GC_INVALIDATE_HDR_CACHE st) p = indexed st p"
  "hdr_mem (GC_INVALIDATE_HDR_CACHE st) = hdr_mem st"
  "GC_gc_no (GC_INVALIDATE_HDR_CACHE st) = GC_gc_no st"
  "scratch_room (GC_INVALIDATE_HDR_CACHE st) = scratch_room st"
proof -
  have loop: "GET_BI_loop n (GC_INVALIDATE_HDR_CACHE st) hi b = GET_BI_loop n st hi b" for n hi b
    by (induction n arbitrary: b) (simp_all add: GC_INVALIDATE_HDR_CACHE_def)
  then have HDR: "HDR (GC_INVALIDATE_HDR_CACHE st) p = HDR st p" for p
    by (simp add: HDR_def GC_find_header_def GET_BI_def) (simp add: GC_INVALIDATE_HDR_CACHE_def)
  moreover have "ht_inv (GC_INVALIDATE_HDR_CACHE st) bs = ht_inv st bs" "mem_inv L (GC_INVALIDATE_HDR_CACHE st) U = mem_inv L st U"
    by (simp_all add: GC_INVALIDATE_HDR_CACHE_def ht_inv_def mem_inv_def page_round_def)
  ultimately show "hdr_inv L (GC_INVALIDATE_HDR_CACHE st) U bs fs = hdr_inv L st U bs fs"
    unfolding hdr_inv_def HDR[abs_def] by (simp add: GC_INVALIDATE_HDR_CACHE_def)
  from HDR show "HDR (GC_INVALIDATE_HDR_CACHE st) p = HDR st p" .
  from loop show "indexed (GC_INVALIDATE_HDR_CACHE st) p = indexed st p"
    by (simp add: indexed_def GET_BI_def) (simp add: GC_INVALIDATE_HDR_CACHE_def)
qed (simp_all add: GC_INVALIDATE_HDR_CACHE_def)

definition cache_empty :: "hdr_state \<Rightarrow> bool" where
  "cache_empty st \<longleftrightarrow> (\<forall>i < 64. block_addr (GC_hdr_cache st i) = 0 \<and> hce_hdr (GC_hdr_cache st i) = 0)"

lemma invalidate_cache_empty [simp]: "cache_empty (GC_INVALIDATE_HDR_CACHE st)"
  by (simp add: cache_empty_def GC_INVALIDATE_HDR_CACHE_def)

lemma same_rest_cache: "same_rest st st' \<Longrightarrow> cache_empty st' = cache_empty st"
  by (simp add: same_rest_def cache_empty_def)

text \<open>Writing into a header that is in use keeps the invariant.\<close>

lemma hdr_mem_upd_inv:
  assumes inv: "hdr_inv L st U bs fs" and r: "r \<notin> set fs"
  shows "hdr_inv L (st\<lparr>hdr_mem := (hdr_mem st)(r := x)\<rparr>) U bs fs"
    and "HDR (st\<lparr>hdr_mem := (hdr_mem st)(r := x)\<rparr>) p = HDR st p"
    and "indexed (st\<lparr>hdr_mem := (hdr_mem st)(r := x)\<rparr>) p = indexed st p"
proof -
  let ?st = "st\<lparr>hdr_mem := (hdr_mem st)(r := x)\<rparr>"
  have loop: "GET_BI_loop n ?st hi b = GET_BI_loop n st hi b" for n hi b
    by (induction n arbitrary: b) simp_all
  then have HDR: "HDR ?st p = HDR st p" for p
    by (simp add: HDR_def GC_find_header_def GET_BI_def)
  have "chain (\<lambda>h. hb_next (hdr_mem ?st h)) (GC_hdr_free_list st) fs 0 =
      chain (\<lambda>h. hb_next (hdr_mem st h)) (GC_hdr_free_list st) fs 0"
    using r by (intro chain_cong) auto
  moreover have "ht_inv ?st bs = ht_inv st bs" "mem_inv L ?st U = mem_inv L st U"
    by (simp_all add: ht_inv_def mem_inv_def page_round_def)
  ultimately show "hdr_inv L ?st U bs fs"
    using inv unfolding hdr_inv_def HDR[abs_def] by simp
  from HDR show "HDR ?st p = HDR st p" .
  from loop show "indexed ?st p = indexed st p"
    by (simp add: indexed_def GET_BI_def)
qed

lemma GC_install_header_spec:
  assumes inv: "hdr_inv L st U bs fs" and h: "h < 2 ^ 64"
  shows "\<exists>result st' U' bs' fs'. GC_install_header st h = Ret (result, st')
     \<and> hdr_inv L st' U' bs' fs' \<and> cache_empty st'
     \<and> (\<forall>q. HDR st' q = (if result \<noteq> 0 \<and> q div BLK = h div BLK then result else HDR st q))
     \<and> (result \<noteq> 0 \<longrightarrow> MAX_JUMP < result \<and> (\<forall>q. HDR st q \<noteq> result) \<and> result \<notin> set fs')
     \<and> hdr_mem st' = (if result = 0 then hdr_mem st else (hdr_mem st)(result :=
          (hdr_mem st result)\<lparr>hb_last_reclaimed := of_nat (GC_gc_no st)\<rparr>))
     \<and> GC_gc_no st' = GC_gc_no st
     \<and> (8336 \<le> scratch_room st \<longrightarrow> result \<noteq> 0)"
proof -
  let ?st0 = "GC_INVALIDATE_HDR_CACHE st"
  obtain ok st1 U1 bs1 where get: "get_index ?st0 h = Ret (ok, st1)" and inv1: "hdr_inv L st1 U1 bs1 fs"
    and HDR1: "\<And>p. HDR st1 p = HDR ?st0 p" and idx1: "ok \<Longrightarrow> indexed st1 h" and rest1: "same_rest ?st0 st1"
    and room1: "\<And>n. n + 8224 \<le> scratch_room ?st0 \<Longrightarrow> ok \<and> n \<le> scratch_room st1"
    by (rule get_index_ok[OF invalidate_same(1)[THEN iffD2, OF inv] h]) (rule that)
  obtain r st2 U2 fs2 where alloc: "alloc_hdr st1 = (r, st2)" and inv2: "hdr_inv L st2 U2 bs1 fs2"
    and HDR2: "\<And>p. HDR st2 p = HDR st1 p" and idx2: "\<And>p. indexed st2 p = indexed st1 p"
    and r: "r \<noteq> 0 \<Longrightarrow> r > MAX_JUMP \<and> r \<in> U2 \<and> r \<notin> set fs2 \<and> (\<forall>p. HDR st1 p \<noteq> r)"
    and same2: "hdr_mem st2 = hdr_mem st1" "GC_gc_no st2 = GC_gc_no st1" "GC_hdr_cache st2 = GC_hdr_cache st1"
    and room2: "112 \<le> scratch_room st1 \<Longrightarrow> r \<noteq> 0"
    by (rule alloc_hdr_ok[OF inv1]) (rule that)
  have cache: "cache_empty st1" "cache_empty st2"
  proof -
    show "cache_empty st1" using same_rest_cache[OF rest1] by simp
    then show "cache_empty st2" using same2 by (simp add: cache_empty_def)
  qed
  have gc: "GC_gc_no st1 = GC_gc_no st" "hdr_mem st1 = hdr_mem st" using rest1 by (simp_all add: same_rest_def)
  have room: "ok \<and> r \<noteq> 0" if "8336 \<le> scratch_room st"
    using room1[of 112] room2 that unfolding invalidate_same by simp
  consider (noidx) "\<not> ok" | (nohdr) "ok" "r = 0" | (ok) "ok" "r \<noteq> 0" by blast
  then show ?thesis
  proof cases
    case noidx
    then have "GC_install_header st h = Ret (0, st1)" using get by (simp add: GC_install_header_def)
    then show ?thesis using inv1 HDR1 cache room noidx gc unfolding invalidate_same by auto
  next
    case nohdr
    then have "GC_install_header st h = Ret (0, st2)" using get alloc by (simp add: GC_install_header_def)
    then show ?thesis using inv2 HDR1 HDR2 cache room nohdr gc same2 unfolding invalidate_same by auto
  next
    case ok
    obtain st3 where set: "SET_HDR st2 h r = Ret st3" and inv3: "hdr_inv L st3 U2 bs1 fs2"
      and HDR3: "\<And>q. HDR st3 q = (if q div BLK = h div BLK then r else HDR st2 q)" and rest3: "same_rest st2 st3"
      by (rule SET_HDR_inv[OF inv2, of h r]) (use r[OF ok(2)] idx1[OF ok(1)] idx2 HDR2 in \<open>auto intro: that\<close>)
    define st4 where "st4 = st3\<lparr>hdr_mem := (hdr_mem st3)(r :=
      (hdr_mem st3 r)\<lparr>hb_last_reclaimed := of_nat (GC_gc_no st3)\<rparr>)\<rparr>"
    have "GC_install_header st h = Ret (r, st4)"
      using get alloc ok set by (simp add: GC_install_header_def st4_def)
    moreover have "hdr_inv L st4 U2 bs1 fs2" "\<And>q. HDR st4 q = HDR st3 q"
      unfolding st4_def using hdr_mem_upd_inv[OF inv3] r[OF ok(2)] by auto
    moreover have "cache_empty st4"
      using cache(2) same_rest_cache[OF rest3] by (simp add: st4_def cache_empty_def)
    moreover have "hdr_mem st4 = (hdr_mem st)(r := (hdr_mem st r)\<lparr>hb_last_reclaimed := of_nat (GC_gc_no st)\<rparr>)"
      "GC_gc_no st4 = GC_gc_no st"
      using rest3 same2 gc by (simp_all add: st4_def same_rest_def)
    ultimately show ?thesis
      using r[OF ok(2)] HDR1 HDR2 HDR3 ok(2) unfolding invalidate_same by auto
  qed
qed

text \<open>
  C13: \<open>GC_install_header\<close> on a consistent index gives the block a header that served no
  block before and is not on the free list, changes the header of no other block, stamps it with
  the collection number and empties the header cache; it fails (returns null, changing no
  mapping) only when neither free headers and index nor scratch memory are available.
\<close>

theorem GC_install_header_correct:
  assumes inv: "hdr_inv L st U bs fs" and h: "h < 2 ^ 64"
  shows "\<exists>result st' U' bs' fs'. GC_install_header st h = Ret (result, st')
     \<and> hdr_inv L st' U' bs' fs' \<and> cache_empty st'
     \<and> (\<forall>q. HDR st' q = (if result \<noteq> 0 \<and> q div BLK = h div BLK then result else HDR st q))
     \<and> (result \<noteq> 0 \<longrightarrow> MAX_JUMP < result \<and> (\<forall>q. HDR st q \<noteq> result) \<and> result \<notin> set fs')
     \<and> hdr_mem st' = (if result = 0 then hdr_mem st else (hdr_mem st)(result :=
          (hdr_mem st result)\<lparr>hb_last_reclaimed := of_nat (GC_gc_no st)\<rparr>))
     \<and> GC_gc_no st' = GC_gc_no st
     \<and> (8336 \<le> scratch_room st \<longrightarrow> result \<noteq> 0)"
  by (rule GC_install_header_spec[OF assms])

lemma GC_remove_header_spec:
  assumes inv: "hdr_inv L st U bs fs" and h: "HDR st h > MAX_JUMP"
  shows "\<exists>st'. GC_remove_header st h = Ret st' \<and> hdr_inv L st' U bs (HDR st h # fs)
     \<and> cache_empty st' \<and> (\<forall>q. HDR st' q = (if q div BLK = h div BLK then 0 else HDR st q))
     \<and> hdr_mem st' = (hdr_mem st)(HDR st h := (hdr_mem st (HDR st h))\<lparr>hb_next := GC_hdr_free_list st\<rparr>)
     \<and> GC_hdr_free_list st' = HDR st h \<and> GC_gc_no st' = GC_gc_no st"
proof -
  let ?st0 = "GC_INVALIDATE_HDR_CACHE st" and ?r = "HDR st h"
  have inv0: "hdr_inv L ?st0 U bs fs" using inv by (simp only: invalidate_same)
  have ht0: "ht_inv ?st0 bs" using inv0 by (simp add: hdr_inv_def)
  have r: "?r \<in> U" "?r \<notin> set fs" using inv h by (simp_all add: hdr_inv_def)
  have "has_index ?st0 bs h"
    using HDR_absent[OF ht0, of h] h by (auto simp: invalidate_same)
  then have idx: "indexed ?st0 h" using indexed_iff[OF ht0] by simp
  obtain st1 where set: "SET_HDR ?st0 h 0 = Ret st1" and inv1: "hdr_inv L st1 U bs fs"
    and HDR1: "\<And>q. HDR st1 q = (if q div BLK = h div BLK then 0 else HDR ?st0 q)" and rest: "same_rest ?st0 st1"
    by (rule SET_HDR_inv[OF inv0 idx, of 0]) (simp, rule that)
  define st2 where "st2 = free_hdr st1 ?r"
  have upd: "st2 = (st1\<lparr>hdr_mem := (hdr_mem st1)(?r := (hdr_mem st1 ?r)\<lparr>hb_next := GC_hdr_free_list st1\<rparr>)\<rparr>)
      \<lparr>GC_hdr_free_list := ?r\<rparr>"
    by (simp add: st2_def free_hdr_def)
  have loop: "GET_BI_loop n (free_hdr s x) hi b = GET_BI_loop n s hi b" for n s x hi b
    by (induction n arbitrary: b) (simp_all add: free_hdr_def)
  then have HDR2: "HDR (free_hdr s x) q = HDR s q" for s x q
    by (simp add: HDR_def GC_find_header_def GET_BI_def) (simp add: free_hdr_def)
  have set2: "SET_HDR (free_hdr ?st0 ?r) h 0 = Ret st2"
    using set rest loop
    by (auto simp: SET_HDR_def GET_BI_def obind_eq_Ret st2_def free_hdr_def same_rest_def simp del: invalidate_fields)
  have "GC_remove_header st h = Ret st2"
    using GC_find_header_HDR[OF ht0, of h] set2 by (simp add: GC_remove_header_def Let_def invalidate_same)
  moreover have "hdr_inv L st2 U bs (?r # fs)"
  proof -
    have "one_block (HDR st)" using inv by (simp add: hdr_inv_def)
    then have "q div BLK \<noteq> h div BLK \<Longrightarrow> HDR st q \<noteq> ?r" for q
      using h unfolding one_block_def by metis
    then have notin: "HDR st1 q \<noteq> ?r" for q
      using h by (cases "q div BLK = h div BLK") (simp_all add: HDR1 invalidate_same)
    have "chain (\<lambda>x. hb_next (hdr_mem st2 x)) (GC_hdr_free_list st1) fs 0 =
        chain (\<lambda>x. hb_next (hdr_mem st1 x)) (GC_hdr_free_list st1) fs 0"
      using r(2) by (intro chain_cong) (auto simp: upd)
    moreover have "ht_inv st2 bs = ht_inv st1 bs" "mem_inv L st2 U = mem_inv L st1 U"
      by (simp_all add: upd ht_inv_def mem_inv_def page_round_def)
    ultimately show ?thesis
      using inv1 r h notin HDR2[of st1 ?r, folded st2_def, abs_def] unfolding hdr_inv_def
      by (simp add: upd) 
  qed
  moreover have "cache_empty st2"
  proof -
    have "cache_empty st1" using same_rest_cache[OF rest] by simp
    then show ?thesis by (simp add: upd cache_empty_def)
  qed
  moreover have "HDR st2 q = (if q div BLK = h div BLK then 0 else HDR st q)" for q
    using HDR2 HDR1 by (simp add: st2_def invalidate_same)
  moreover have "hdr_mem st2 = (hdr_mem st)(?r := (hdr_mem st ?r)\<lparr>hb_next := GC_hdr_free_list st\<rparr>)"
    "GC_hdr_free_list st2 = ?r" "GC_gc_no st2 = GC_gc_no st"
    using rest by (simp_all add: upd same_rest_def)
  ultimately show ?thesis by blast
qed

text \<open>
  C15: \<open>GC_remove_header\<close> on a block that has a header takes the mapping of that block (and
  of no other) out of the index, puts the header at the front of the free header list and
  empties the header cache.
\<close>

theorem GC_remove_header_correct:
  assumes inv: "hdr_inv L st U bs fs" and h: "HDR st h > MAX_JUMP"
  shows "\<exists>st'. GC_remove_header st h = Ret st' \<and> hdr_inv L st' U bs (HDR st h # fs)
     \<and> cache_empty st' \<and> (\<forall>q. HDR st' q = (if q div BLK = h div BLK then 0 else HDR st q))
     \<and> hdr_mem st' = (hdr_mem st)(HDR st h := (hdr_mem st (HDR st h))\<lparr>hb_next := GC_hdr_free_list st\<rparr>)
     \<and> GC_hdr_free_list st' = HDR st h \<and> GC_gc_no st' = GC_gc_no st"
  by (rule GC_remove_header_spec[OF assms])

text \<open>The loop that fills in the forwarding counts of one object.\<close>

lemma install_counts_loop_ok:
  assumes "hdr_inv L st U bs fs" "BLK dvd h" "BLK dvd hbp" "h \<le> hbp"
    and "\<forall>q. hbp \<le> q \<longrightarrow> q < limit \<longrightarrow> indexed st q" "limit + BLK \<le> 2 ^ 64"
  shows "\<exists>st'. install_counts_loop st h hbp limit = Ret st' \<and> hdr_inv L st' U bs fs \<and> same_rest st st'
    \<and> (\<forall>q. HDR st' q = (if hbp div BLK \<le> q div BLK \<and> q div BLK * BLK < limit
                         then min (q div BLK - h div BLK) MAX_JUMP else HDR st q))"
  using assms
proof (induction st h hbp limit rule: install_counts_loop.induct)
  case (1 st h hbp limit)
  obtain k j where k: "hbp = k * BLK" and j: "h = j * BLK"
    using "1.prems"(2,3) by (metis dvd_def mult.commute)
  have B: "BLK > 0" by (simp add: BLK_def)
  show ?case
  proof (cases "hbp < limit")
    case False
    have "\<not> (hbp div BLK \<le> q div BLK \<and> q div BLK * BLK < limit)" for q
    proof
      assume q: "hbp div BLK \<le> q div BLK \<and> q div BLK * BLK < limit"
      then have "k \<le> q div BLK" using k B by simp
      then have "k * BLK \<le> q div BLK * BLK" by simp
      with q False k show False by linarith
    qed
    then show ?thesis
      using False "1.prems"(1) by (auto simp: install_counts_loop.simps same_rest_def)
  next
    case True
    have below: "hbp + BLK < 2 ^ 64" using True "1.prems"(6) by linarith
    let ?v = "if (hbp - h) div BLK > MAX_JUMP then MAX_JUMP else (hbp - h) div BLK"
    have v: "?v = min (k - j) MAX_JUMP" using k j B by (simp flip: diff_mult_distrib)
    obtain st1 where set: "SET_HDR st hbp ?v = Ret st1" and inv1: "hdr_inv L st1 U bs fs"
      and HDR1: "\<And>q. HDR st1 q = (if q div BLK = hbp div BLK then ?v else HDR st q)"
      and idx1: "\<And>q. indexed st1 q = indexed st q" and rest1: "same_rest st st1"
      by (rule SET_HDR_inv[OF "1.prems"(1), of hbp ?v]) (use "1.prems"(5) True in simp, simp, rule that)
    have "\<exists>st'. install_counts_loop st1 h (hbp + BLK) limit = Ret st' \<and> hdr_inv L st' U bs fs \<and> same_rest st1 st'
      \<and> (\<forall>q. HDR st' q = (if (hbp + BLK) div BLK \<le> q div BLK \<and> q div BLK * BLK < limit
                           then min (q div BLK - h div BLK) MAX_JUMP else HDR st1 q))"
      by (rule "1.IH"[OF True refl below inv1 "1.prems"(2)]) (use "1.prems"(3-6) idx1 in auto)
    then obtain st2 where loop: "install_counts_loop st1 h (hbp + BLK) limit = Ret st2"
      and inv2: "hdr_inv L st2 U bs fs" and rest2: "same_rest st1 st2"
      and HDR2: "\<And>q. HDR st2 q = (if k + 1 \<le> q div BLK \<and> q div BLK * BLK < limit
                           then min (q div BLK - h div BLK) MAX_JUMP else HDR st1 q)"
      using k B by auto
    have "install_counts_loop st h hbp limit = Ret st2"
      using True set loop below by (subst install_counts_loop.simps) (simp add: Let_def)
    moreover have "HDR st2 q = (if hbp div BLK \<le> q div BLK \<and> q div BLK * BLK < limit
                           then min (q div BLK - h div BLK) MAX_JUMP else HDR st q)" for q
    proof -
      have "q div BLK = k \<Longrightarrow> q div BLK * BLK < limit" using True k by simp
      then show ?thesis unfolding HDR2 HDR1 v using k j B by auto
    qed
    moreover have "same_rest st st2" using rest1 rest2 by (simp add: same_rest_def)
    ultimately show ?thesis using inv2 by blast
  qed
qed

definition IDX :: nat where "IDX = BOTTOM_SZ * BLK"   \<comment> \<open>bytes covered by an index block\<close>

lemma IDX_value: "IDX = 4194304" by (simp add: IDX_def gc_consts)

text \<open>The index may have grown, the mapping is the same.\<close>

definition grown :: "nat \<Rightarrow> nat list \<Rightarrow> hdr_state \<Rightarrow> hdr_state \<Rightarrow> bool" where
  "grown L fs st st' \<longleftrightarrow>
     (\<exists>U bs. hdr_inv L st' U bs fs) \<and> (\<forall>q. HDR st' q = HDR st q)
     \<and> (\<forall>q. indexed st q \<longrightarrow> indexed st' q) \<and> same_rest st st'"

lemma grown_refl: "hdr_inv L st U bs fs \<Longrightarrow> grown L fs st st"
  by (auto simp: grown_def same_rest_def)

lemma grown_trans: "grown L fs a b \<Longrightarrow> grown L fs b c \<Longrightarrow> grown L fs a c"
  by (simp add: grown_def same_rest_def)

lemma get_index_grown:
  assumes "hdr_inv L st U bs fs" "addr < 2 ^ 64"
  obtains ok st' where "get_index st addr = Ret (ok, st')" and "grown L fs st st'"
    and "ok \<Longrightarrow> indexed st' addr"
    and "\<And>n. n + 8224 \<le> scratch_room st \<Longrightarrow> ok \<and> n \<le> scratch_room st'"
proof -
  obtain ok st' U' bs' where g: "get_index st addr = Ret (ok, st')" and i: "hdr_inv L st' U' bs' fs"
    and H: "\<And>p. HDR st' p = HDR st p" and o: "ok \<Longrightarrow> indexed st' addr"
    and m: "\<And>p. indexed st p \<Longrightarrow> indexed st' p" and r: "same_rest st st'"
    and n: "\<And>n. n + 8224 \<le> scratch_room st \<Longrightarrow> ok \<and> n \<le> scratch_room st'"
    by (rule get_index_ok[OF assms]) (rule that)
  have "grown L fs st st'" unfolding grown_def using i H m r by blast
  then show thesis by (rule that[OF g]) (use o n in simp_all)
qed

lemma install_index_loop_ok:
  assumes "hdr_inv L st U bs fs" "limit \<le> 2 ^ 64"
  shows "\<exists>ok st'. install_index_loop st hbp limit = Ret (ok, st') \<and> grown L fs st st'
    \<and> (ok \<longrightarrow> (\<forall>k. hbp + k * IDX < limit \<longrightarrow> indexed st' (hbp + k * IDX)))
    \<and> (\<forall>m n. limit \<le> hbp + m * IDX \<longrightarrow> n + 8224 * m \<le> scratch_room st \<longrightarrow> ok \<and> n \<le> scratch_room st')"
  using assms
proof (induction st hbp limit arbitrary: U bs rule: install_index_loop.induct)
  case (1 st hbp limit)
  note loop_simp = install_index_loop.simps[of st hbp limit, folded IDX_def]
  show ?case
  proof (cases "hbp < limit")
    case False
    then have "install_index_loop st hbp limit = Ret (True, st)" by (simp add: loop_simp)
    then show ?thesis using grown_refl[OF "1.prems"(1)] False by auto
  next
    case True
    then have h64: "hbp < 2 ^ 64" using "1.prems" by simp
    obtain ok st1 where get: "get_index st hbp = Ret (ok, st1)" and g1: "grown L fs st st1"
      and idx: "ok \<Longrightarrow> indexed st1 hbp"
      and room1: "\<And>n. n + 8224 \<le> scratch_room st \<Longrightarrow> ok \<and> n \<le> scratch_room st1"
      by (rule get_index_grown[OF "1.prems"(1) h64]) (rule that)
    have room: "ok \<and> n + 8224 * (m - 1) \<le> scratch_room st1 \<and> m \<noteq> 0"
      if "limit \<le> hbp + m * IDX" "n + 8224 * m \<le> scratch_room st" for n m
      using room1[of "n + 8224 * (m - 1)"] that True by (cases m) auto
    show ?thesis
    proof (cases "ok \<and> \<not> hbp > 2 ^ 64 - 1 - IDX")
      case False
      then have loop: "install_index_loop st hbp limit = Ret (ok, st1)"
        using True get by (auto simp: loop_simp)
      have "indexed st1 (hbp + k * IDX)" if ok "hbp + k * IDX < limit" for k
      proof (cases k)
        case (Suc j)
        then have "hbp + IDX < 2 ^ 64" using that(2) "1.prems"(2) by simp
        then show ?thesis using that(1) False by (simp add: IDX_value)
      qed (use idx that in simp)
      moreover have "ok \<and> n \<le> scratch_room st1"
        if "limit \<le> hbp + m * IDX" "n + 8224 * m \<le> scratch_room st" for n m
        using room[OF that] by simp
      ultimately show ?thesis using loop g1 by blast
    next
      case more: True
      obtain U1 bs1 where inv1: "hdr_inv L st1 U1 bs1 fs" using g1 unfolding grown_def by blast
      have "\<not> \<not> ok" "\<not> hbp > 2 ^ 64 - 1 - BOTTOM_SZ * BLK" using more by (simp_all add: IDX_def)
      from "1.IH"[OF True this inv1 "1.prems"(2), folded IDX_def]
      obtain ok2 st2 where loop2: "install_index_loop st1 (hbp + IDX) limit = Ret (ok2, st2)"
        and g2: "grown L fs st1 st2"
        and idx2: "ok2 \<longrightarrow> (\<forall>k. hbp + IDX + k * IDX < limit \<longrightarrow> indexed st2 (hbp + IDX + k * IDX))"
        and room2: "\<forall>m n. limit \<le> hbp + IDX + m * IDX \<longrightarrow> n + 8224 * m \<le> scratch_room st1
            \<longrightarrow> ok2 \<and> n \<le> scratch_room st2" by blast
      have loop: "install_index_loop st hbp limit = Ret (ok2, st2)"
        using True get more loop2 by (auto simp: loop_simp)
      have "indexed st2 (hbp + k * IDX)" if ok2 "hbp + k * IDX < limit" for k
      proof (cases k)
        case 0
        then show ?thesis using idx more g2 by (simp add: grown_def)
      next
        case (Suc j)
        then show ?thesis using idx2 that by (simp add: add.assoc)
      qed
      moreover have "ok2 \<and> n \<le> scratch_room st2"
        if "limit \<le> hbp + m * IDX" "n + 8224 * m \<le> scratch_room st" for n m
        using room[OF that] that(1) room2[rule_format, of "m - 1" n] by (cases m) simp_all
      ultimately show ?thesis using loop grown_trans[OF g1 g2] by blast
    qed
  qed
qed

lemma indexed_hi: "hi_of p = hi_of q \<Longrightarrow> indexed st p = indexed st q"
  by (simp add: indexed_def GET_BI_def)

lemma indexed_range:
  assumes step: "\<forall>k. h + k * IDX < h + sz \<longrightarrow> indexed st (h + k * IDX)" and last: "indexed st (h + sz - 1)"
    and q: "h \<le> q" "q < h + sz"
  shows "indexed st q"
proof -
  have hi: "hi_of p = p div IDX" for p by (simp add: hi_of_def IDX_def)
  have mono: "hi_of a \<le> hi_of b" if "a \<le> b" for a b
    using that unfolding hi by (rule div_le_mono)
  define k where "k = (q - h) div IDX"
  have k: "h + k * IDX \<le> q" "q < h + k * IDX + IDX"
    using q(1) div_mod_decomp[of "q - h" IDX] mod_less_divisor[of IDX "q - h"]
    by (auto simp: k_def IDX_value)
  show ?thesis
  proof (cases "hi_of q = hi_of (h + k * IDX)")
    case True
    have "h + k * IDX < h + sz" using k(1) q(2) by linarith
    then show ?thesis using step[rule_format, of k] indexed_hi[OF True] by simp
  next
    case False
    let ?n = "h + (k + 1) * IDX"
    have n: "?n = h + k * IDX + IDX" by simp
    have "hi_of ?n = hi_of (h + k * IDX) + 1" unfolding hi n by (simp add: IDX_value)
    moreover have "hi_of (h + k * IDX) \<le> hi_of q" "hi_of q \<le> hi_of ?n"
      using k n by (simp_all add: mono)
    ultimately have qn: "hi_of q = hi_of ?n" using False by simp
    show ?thesis
    proof (cases "?n < h + sz")
      case True
      then show ?thesis using step[rule_format, of "k + 1"] indexed_hi[OF qn] by simp
    next
      case False
      then have "hi_of q \<le> hi_of (h + sz - 1)" "hi_of (h + sz - 1) \<le> hi_of ?n"
        using q(2) by (auto intro!: mono)
      then show ?thesis using last qn indexed_hi[of q "h + sz - 1"] by simp
    qed
  qed
qed

text \<open>Below the last block of the address space nothing wraps around.\<close>

lemma no_wrap:
  assumes "0 < sz" "h + sz + BLK \<le> 2 ^ 64"
  shows "(h + sz) mod 2 ^ 64 = h + sz" "(h + BLK) mod 2 ^ 64 = h + BLK"
    "(h + sz + (2 ^ 64 - 1)) mod 2 ^ 64 = h + sz - 1" "h + sz \<le> 2 ^ 64"
proof -
  have "h + sz < 2 ^ 64" "h + BLK < 2 ^ 64" using assms by (simp_all add: BLK_def)
  moreover have "a + (n - 1) = (a - 1) + n" if "0 < a" "0 < n" for a n :: nat using that by linarith
  from this[of "h + sz" "2 ^ 64"] have "h + sz + (2 ^ 64 - 1) = (h + sz - 1) + 2 ^ 64" using assms(1) by simp
  ultimately show "(h + sz) mod 2 ^ 64 = h + sz" "(h + BLK) mod 2 ^ 64 = h + BLK"
    "(h + sz + (2 ^ 64 - 1)) mod 2 ^ 64 = h + sz - 1" "h + sz \<le> 2 ^ 64"
    by (simp_all only: mod_less mod_add_self2 less_imp_le less_imp_diff_less)
qed

lemma GC_install_counts_no_wrap:
  assumes "0 < sz" "h + sz + BLK \<le> 2 ^ 64"
  shows "GC_install_counts st h sz =
     obind (install_index_loop (GC_INVALIDATE_HDR_CACHE st) h (h + sz)) (\<lambda>(ok, st).
       if \<not> ok then Ret (False, st)
       else obind (get_index st (h + sz - 1)) (\<lambda>(ok, st).
         if \<not> ok then Ret (False, st)
         else obind (install_counts_loop st h (h + BLK) (h + sz)) (\<lambda>st. Ret (True, st))))"
  unfolding GC_install_counts_def Let_def no_wrap(1-3)[OF assms] ..

lemma GC_install_counts_spec:
  assumes inv: "hdr_inv L st U bs fs" and h: "BLK dvd h" and sz: "0 < sz" "h + sz + BLK \<le> 2 ^ 64"
  shows "\<exists>ok st' U' bs'. GC_install_counts st h sz = Ret (ok, st') \<and> hdr_inv L st' U' bs' fs
     \<and> cache_empty st'
     \<and> (\<forall>q. HDR st' q = (if ok \<and> h div BLK < q div BLK \<and> q div BLK * BLK < h + sz
                         then min (q div BLK - h div BLK) MAX_JUMP else HDR st q))
     \<and> hdr_mem st' = hdr_mem st \<and> GC_gc_no st' = GC_gc_no st
     \<and> (8224 * (sz div (BOTTOM_SZ * BLK) + 2) \<le> scratch_room st \<longrightarrow> ok)"
proof -
  let ?st0 = "GC_INVALIDATE_HDR_CACHE st"
  note nw = no_wrap[OF sz]
  have inv0: "hdr_inv L ?st0 U bs fs" using inv by (simp only: invalidate_same)
  obtain ok1 st1 where loop1: "install_index_loop ?st0 h (h + sz) = Ret (ok1, st1)" and g1: "grown L fs ?st0 st1"
    and idx1: "ok1 \<longrightarrow> (\<forall>k. h + k * IDX < h + sz \<longrightarrow> indexed st1 (h + k * IDX))"
    and room1: "\<forall>m n. h + sz \<le> h + m * IDX \<longrightarrow> n + 8224 * m \<le> scratch_room ?st0 \<longrightarrow> ok1 \<and> n \<le> scratch_room st1"
    using install_index_loop_ok[OF inv0 nw(4), of h] by blast
  obtain U1 bs1 where inv1: "hdr_inv L st1 U1 bs1 fs" using g1 unfolding grown_def by blast
  have last: "h + sz - 1 < 2 ^ 64" using sz by linarith
  obtain ok2 st2 where get: "get_index st1 (h + sz - 1) = Ret (ok2, st2)" and g2: "grown L fs st1 st2"
    and idx2: "ok2 \<Longrightarrow> indexed st2 (h + sz - 1)"
    and room2: "\<And>n. n + 8224 \<le> scratch_room st1 \<Longrightarrow> ok2 \<and> n \<le> scratch_room st2"
    by (rule get_index_grown[OF inv1 last]) (rule that)
  obtain U2 bs2 where inv2: "hdr_inv L st2 U2 bs2 fs" using g2 unfolding grown_def by blast
  have cache: "cache_empty st1" "cache_empty st2"
    using g1 g2 same_rest_cache[of ?st0 st1] same_rest_cache[of st1 st2] by (simp_all add: grown_def)
  have HDR: "HDR st1 q = HDR st q" "HDR st2 q = HDR st q" for q
    using g1 g2 by (simp_all add: grown_def invalidate_same)
  have room: "ok1 \<and> ok2" if "8224 * (sz div IDX + 2) \<le> scratch_room st"
  proof -
    have "h + sz \<le> h + (sz div IDX + 1) * IDX"
      using div_mod_decomp[of sz IDX] mod_less_divisor[of IDX sz] by (simp add: IDX_value)
    then show ?thesis
      using room1[rule_format, of "sz div IDX + 1" 8224] room2[of 0] that unfolding invalidate_same by simp
  qed
  show ?thesis
  proof (cases "ok1 \<and> ok2")
    case False
    then obtain st' where "GC_install_counts st h sz = Ret (False, st')" "st' = st1 \<or> st' = st2"
      using loop1 get by (cases ok1) (auto simp: GC_install_counts_no_wrap[OF sz])
    moreover have "\<exists>U' bs'. hdr_inv L st' U' bs' fs" "cache_empty st'" "HDR st' q = HDR st q" for q
      using \<open>st' = st1 \<or> st' = st2\<close> inv1 inv2 cache HDR by auto
    moreover have "hdr_mem st' = hdr_mem st" "GC_gc_no st' = GC_gc_no st"
      using \<open>st' = st1 \<or> st' = st2\<close> g1 g2 by (auto simp: grown_def same_rest_def)
    ultimately show ?thesis using room False unfolding IDX_def by auto
  next
    case True
    have "\<forall>q. h + BLK \<le> q \<longrightarrow> q < h + sz \<longrightarrow> indexed st2 q"
    proof (intro allI impI)
      fix q assume q: "h + BLK \<le> q" "q < h + sz"
      have "\<forall>k. h + k * IDX < h + sz \<longrightarrow> indexed st2 (h + k * IDX)"
        using idx1 True g2 by (simp add: grown_def)
      then show "indexed st2 q"
        using indexed_range[of h sz st2 q] idx2 True q by simp
    qed
    then obtain st3 where loop3: "install_counts_loop st2 h (h + BLK) (h + sz) = Ret st3"
      and inv3: "hdr_inv L st3 U2 bs2 fs" and rest3: "same_rest st2 st3"
      and HDR3: "\<forall>q. HDR st3 q = (if (h + BLK) div BLK \<le> q div BLK \<and> q div BLK * BLK < h + sz
           then min (q div BLK - h div BLK) MAX_JUMP else HDR st2 q)"
      using install_counts_loop_ok[OF inv2 h, of "h + BLK" "h + sz"] h sz(2) by auto
    have "GC_install_counts st h sz = Ret (True, st3)"
      using loop1 get loop3 True by (simp add: GC_install_counts_no_wrap[OF sz])
    moreover have "(h + BLK) div BLK = Suc (h div BLK)"
      by (simp add: BLK_def)
    moreover have "hdr_mem st3 = hdr_mem st" "GC_gc_no st3 = GC_gc_no st"
      using rest3 g1 g2 by (simp_all add: grown_def same_rest_def)
    ultimately show ?thesis
      using inv3 HDR3 HDR cache(2) same_rest_cache[OF rest3] by (auto simp: Suc_le_eq)
  qed
qed

text \<open>
  C14: \<open>GC_install_counts\<close> makes every block of an object after its first one hold the distance
  to the first block in blocks (at most \<open>MAX_JUMP\<close>), and changes no other entry; when memory
  for the index runs out it fails with the mapping unchanged; it succeeds whenever the scratch
  area has room for the index blocks the object can touch. The object must end below the last
  block of the address space, where the end of the loops would wrap around.
\<close>

theorem GC_install_counts_correct:
  assumes inv: "hdr_inv L st U bs fs" and h: "BLK dvd h" and sz: "0 < sz" "h + sz + BLK \<le> 2 ^ 64"
  shows "\<exists>ok st' U' bs'. GC_install_counts st h sz = Ret (ok, st') \<and> hdr_inv L st' U' bs' fs
     \<and> cache_empty st'
     \<and> (\<forall>q. HDR st' q = (if ok \<and> h div BLK < q div BLK \<and> q div BLK * BLK < h + sz
                         then min (q div BLK - h div BLK) MAX_JUMP else HDR st q))
     \<and> hdr_mem st' = hdr_mem st \<and> GC_gc_no st' = GC_gc_no st
     \<and> (8224 * (sz div (BOTTOM_SZ * BLK) + 2) \<le> scratch_room st \<longrightarrow> ok)"
  by (rule GC_install_counts_spec[OF assms])

lemma remove_counts_loop_ok:
  assumes "hdr_inv L st U bs fs" "BLK dvd hbp" "\<forall>q. hbp \<le> q \<longrightarrow> q < limit \<longrightarrow> indexed st q" "limit + BLK \<le> 2 ^ 64"
  shows "\<exists>st'. remove_counts_loop st hbp limit = Ret st' \<and> hdr_inv L st' U bs fs \<and> same_rest st st'
    \<and> (\<forall>q. HDR st' q = (if hbp div BLK \<le> q div BLK \<and> q div BLK * BLK < limit then 0 else HDR st q))"
  using assms
proof (induction st hbp limit rule: remove_counts_loop.induct)
  case (1 st hbp limit)
  obtain k where k: "hbp = k * BLK" using "1.prems"(2) by (metis dvd_def mult.commute)
  have B: "BLK > 0" by (simp add: BLK_def)
  show ?case
  proof (cases "hbp < limit")
    case False
    have "\<not> (hbp div BLK \<le> q div BLK \<and> q div BLK * BLK < limit)" for q
    proof
      assume q: "hbp div BLK \<le> q div BLK \<and> q div BLK * BLK < limit"
      then have "k * BLK \<le> q div BLK * BLK" using k B by simp
      with q False k show False by linarith
    qed
    then show ?thesis
      using False "1.prems"(1) by (auto simp: remove_counts_loop.simps same_rest_def)
  next
    case True
    have below: "hbp + BLK < 2 ^ 64" using True "1.prems"(4) by linarith
    obtain st1 where set: "SET_HDR st hbp 0 = Ret st1" and inv1: "hdr_inv L st1 U bs fs"
      and HDR1: "\<And>q. HDR st1 q = (if q div BLK = hbp div BLK then 0 else HDR st q)"
      and idx1: "\<And>q. indexed st1 q = indexed st q" and rest1: "same_rest st st1"
      by (rule SET_HDR_inv[OF "1.prems"(1), of hbp 0]) (use "1.prems"(3) True in simp, simp, rule that)
    have "\<exists>st'. remove_counts_loop st1 (hbp + BLK) limit = Ret st' \<and> hdr_inv L st' U bs fs \<and> same_rest st1 st'
      \<and> (\<forall>q. HDR st' q = (if (hbp + BLK) div BLK \<le> q div BLK \<and> q div BLK * BLK < limit then 0 else HDR st1 q))"
      by (rule "1.IH"[OF True below inv1]) (use "1.prems"(2-4) idx1 in auto)
    then obtain st2 where loop: "remove_counts_loop st1 (hbp + BLK) limit = Ret st2"
      and inv2: "hdr_inv L st2 U bs fs" and rest2: "same_rest st1 st2"
      and HDR2: "\<And>q. HDR st2 q = (if k + 1 \<le> q div BLK \<and> q div BLK * BLK < limit then 0 else HDR st1 q)"
      using k B by auto
    have "remove_counts_loop st hbp limit = Ret st2"
      using True set loop below by (subst remove_counts_loop.simps) simp
    moreover have "HDR st2 q = (if hbp div BLK \<le> q div BLK \<and> q div BLK * BLK < limit then 0 else HDR st q)" for q
    proof -
      have "q div BLK = k \<Longrightarrow> q div BLK * BLK < limit" using True k by simp
      then show ?thesis unfolding HDR2 HDR1 using k B by auto
    qed
    moreover have "same_rest st st2" using rest1 rest2 by (simp add: same_rest_def)
    ultimately show ?thesis using inv2 by blast
  qed
qed

lemma GC_remove_counts_spec:
  assumes inv: "hdr_inv L st U bs fs" and h: "BLK dvd h" "h + sz + BLK \<le> 2 ^ 64"
    and idx: "\<forall>q. h + BLK \<le> q \<longrightarrow> q < h + sz \<longrightarrow> indexed st q"
  shows "\<exists>st'. GC_remove_counts st h sz = Ret st' \<and> hdr_inv L st' U bs fs \<and> cache_empty st'
     \<and> (\<forall>q. HDR st' q = (if BLK < sz \<and> HDR st (h + BLK) \<noteq> 0 \<and> h div BLK < q div BLK
                            \<and> q div BLK * BLK < h + sz then 0 else HDR st q))
     \<and> hdr_mem st' = hdr_mem st \<and> GC_gc_no st' = GC_gc_no st"
proof -
  let ?st0 = "GC_INVALIDATE_HDR_CACHE st"
  have inv0: "hdr_inv L ?st0 U bs fs" using inv by (simp only: invalidate_same)
  have ht0: "ht_inv ?st0 bs" using inv0 by (simp add: hdr_inv_def)
  have find: "GC_find_header ?st0 (h + BLK) = Ret (HDR st (h + BLK))"
    using GC_find_header_HDR[OF ht0] by (simp add: invalidate_same)
  have suc: "(h + BLK) div BLK = Suc (h div BLK)" by (simp add: BLK_def)
  have nw: "BLK < sz \<Longrightarrow> (h + BLK) mod 2 ^ 64 = h + BLK \<and> (h + sz) mod 2 ^ 64 = h + sz"
    using no_wrap(1,2)[OF _ h(2)] by simp
  show ?thesis
  proof (cases "sz \<le> BLK \<or> HDR st (h + BLK) = 0")
    case True
    then have "GC_remove_counts st h sz = Ret ?st0"
      using find nw by (auto simp: GC_remove_counts_def Let_def)
    then show ?thesis using True inv0 by (auto simp: invalidate_same(2))
  next
    case False
    obtain st1 where loop: "remove_counts_loop ?st0 (h + BLK) (h + sz) = Ret st1"
      and inv1: "hdr_inv L st1 U bs fs" and rest: "same_rest ?st0 st1"
      and HDR1: "\<forall>q. HDR st1 q = (if (h + BLK) div BLK \<le> q div BLK \<and> q div BLK * BLK < h + sz then 0 else HDR st q)"
      using remove_counts_loop_ok[OF inv0, of "h + BLK" "h + sz"] h idx by (auto simp: invalidate_same)
    have "GC_remove_counts st h sz = Ret st1"
      using find loop False nw by (simp add: GC_remove_counts_def Let_def)
    then show ?thesis
      using inv1 HDR1 False same_rest_cache[OF rest] suc rest by (auto simp: Suc_le_eq same_rest_def)
  qed
qed

text \<open>
  C16: \<open>GC_remove_counts\<close> undoes \<open>GC_install_counts\<close>: for an object of more than one block
  whose second block is in the index it clears the entries of all blocks after the first one
  and no others; otherwise it leaves the mapping alone. It always empties the header cache.
  As for the installation, the object ends below the last block of the address space.
\<close>

theorem GC_remove_counts_correct:
  assumes inv: "hdr_inv L st U bs fs" and h: "BLK dvd h" "h + sz + BLK \<le> 2 ^ 64"
    and idx: "\<forall>q. h + BLK \<le> q \<longrightarrow> q < h + sz \<longrightarrow> indexed st q"
  shows "\<exists>st'. GC_remove_counts st h sz = Ret st' \<and> hdr_inv L st' U bs fs \<and> cache_empty st'
     \<and> (\<forall>q. HDR st' q = (if BLK < sz \<and> HDR st (h + BLK) \<noteq> 0 \<and> h div BLK < q div BLK
                            \<and> q div BLK * BLK < h + sz then 0 else HDR st q))
     \<and> hdr_mem st' = hdr_mem st \<and> GC_gc_no st' = GC_gc_no st"
  by (rule GC_remove_counts_spec[OF assms])

text \<open>
  The supply of memory from the operating system: a failed request has used up all coming
  results when none of them is a failure, and an exhausted os_use stays so.
\<close>

definition os_use :: "hdr_state \<Rightarrow> hdr_state \<Rightarrow> bool \<Rightarrow> bool" where
  "os_use st st' ok \<longleftrightarrow>
     (os_mem st = [] \<longrightarrow> os_mem st' = [])
     \<and> (0 \<notin> set (os_mem st) \<longrightarrow> 0 \<notin> set (os_mem st') \<and> (\<not> ok \<longrightarrow> os_mem st' = []))"

lemma os_use_refl: "os_use st st True"
  by (simp add: os_use_def)

lemma os_use_trans: "os_use a b True \<Longrightarrow> os_use b c ok \<Longrightarrow> os_use a c ok"
  by (auto simp: os_use_def)

lemma os_use_weaken: "os_use a b ok \<Longrightarrow> os_use a b True"
  by (auto simp: os_use_def)

lemma os_use_same: "os_mem st' = os_mem st \<Longrightarrow> os_use st st' True"
  by (simp add: os_use_def)

lemma os_use_os_get_mem: "GC_os_get_mem st = (r, st') \<Longrightarrow> os_use st st' (r \<noteq> 0)"
  by (auto simp: os_use_def GC_os_get_mem_def split: list.splits)

lemma os_use_scratch_loop:
  assumes "result \<noteq> 0 \<or> GC_scratch_end_addr st - result < bytes" "scratch_alloc_loop bytes st result = (r, st')"
  shows "os_use st st' (r \<noteq> 0)"
  using assms
proof (induction bytes st result arbitrary: r st' rule: scratch_alloc_loop.induct)
  case (1 bytes st result)
  obtain r1 st1 where os: "GC_os_get_mem st = (r1, st1)" by fastforce
  note s1 = os_use_os_get_mem[OF os]
  show ?case
  proof (cases "bytes \<le> GC_scratch_end_addr st - result \<or> bytes \<ge> 16 * BLK")
    case True
    then show ?thesis
      using "1.prems" s1 os
      by (auto simp: os_use_def scratch_alloc_loop.simps[of bytes st result] split: if_splits)
  next
    case False
    define st2 where "st2 = st1\<lparr>GC_scratch_free_ptr := r1, GC_scratch_end_addr :=
      r1 + SIZET_SAT_ADD (16 * BLK) (GC_page_size st - 1) div GC_page_size st * GC_page_size st\<rparr>"
    have step: "scratch_alloc_loop bytes st result =
        (if r1 = 0 then GC_os_get_mem st1 else scratch_alloc_loop bytes st2 r1)"
      using False os by (subst scratch_alloc_loop.simps) (simp only: Let_def st2_def de_Morgan_disj if_False prod.case)
    show ?thesis
    proof (cases "r1 = 0")
      case True
      then show ?thesis using step s1 "1.prems"(2) os_use_os_get_mem[of st1 r st'] by (auto simp: os_use_def)
    next
      case r1: False
      have "os_use st2 st' (r \<noteq> 0)"
        unfolding st2_def by (rule "1.IH"[OF _ _ refl os[symmetric] r1])
          (use False r1 step[unfolded st2_def] "1.prems"(2) in auto)
      then show ?thesis using s1 r1 by (auto simp: os_use_def st2_def)
    qed
  qed
qed

lemma os_use_scratch_alloc:
  assumes "hdr_inv L st U bs fs" "0 < ROUNDUP_GRANULE_SIZE n" "GC_scratch_alloc st n = (r, st')"
  shows "os_use st st' (r \<noteq> 0)"
proof -
  have "mem_inv L st U" using assms(1) by (simp add: hdr_inv_def)
  then have "GC_scratch_free_ptr st \<noteq> 0 \<or> GC_scratch_end_addr st - GC_scratch_free_ptr st < ROUNDUP_GRANULE_SIZE n"
    using assms(2) by (auto simp: mem_inv_def BLK_def)
  then show ?thesis
    using os_use_scratch_loop assms(3) by (simp add: GC_scratch_alloc_def)
qed

lemma os_use_get_index:
  assumes inv: "hdr_inv L st U bs fs" and "get_index st addr = Ret (ok, st')"
  shows "os_use st st' ok"
proof -
  obtain r st1 where alloc: "GC_scratch_alloc st sizeof_bottom_index = (r, st1)" by fastforce
  have "os_use st st1 (r \<noteq> 0)"
    by (rule os_use_scratch_alloc[OF inv _ alloc]) (simp add: sizeof_rounded)
  moreover have "os_mem (link_bottom_index s a b c d) = os_mem s" for s a b c d
    by (simp add: link_bottom_index_def Let_def)
  ultimately show ?thesis
    using assms(2) alloc
    by (auto simp: get_index_def Let_def obind_eq_Ret os_use_def split: if_splits)
qed

lemma os_use_SET_HDR: "SET_HDR st p x = Ret st' \<Longrightarrow> os_mem st' = os_mem st"
  by (auto simp: SET_HDR_def obind_eq_Ret)

lemma os_use_install_header:
  assumes inv: "hdr_inv L st U bs fs" and h: "h < 2 ^ 64" and res: "GC_install_header st h = Ret (r, st')"
  shows "os_use st st' (r \<noteq> 0)"
proof -
  let ?st0 = "GC_INVALIDATE_HDR_CACHE st"
  have inv0: "hdr_inv L ?st0 U bs fs" using inv by (simp only: invalidate_same)
  obtain ok st1 U1 bs1 where get: "get_index ?st0 h = Ret (ok, st1)" and inv1: "hdr_inv L st1 U1 bs1 fs"
    by (rule get_index_ok[OF inv0 h]) (rule that)
  have s1: "os_use st st1 ok"
    using os_use_get_index[OF inv0 get] by (simp add: os_use_def GC_INVALIDATE_HDR_CACHE_def)
  obtain r2 st2 where alloc: "alloc_hdr st1 = (r2, st2)" by fastforce
  have s2: "os_use st1 st2 (r2 \<noteq> 0)"
    using alloc os_use_scratch_alloc[OF inv1 _, of sizeof_hdr r2 st2]
    by (auto simp: alloc_hdr_def sizeof_rounded os_use_same split: if_splits)
  show ?thesis
    using res get alloc s1 s2
    by (auto simp: GC_install_header_def obind_eq_Ret os_use_def dest!: os_use_SET_HDR split: if_splits)
qed

lemma os_use_install_index_loop:
  assumes "hdr_inv L st U bs fs" "limit \<le> 2 ^ 64" "install_index_loop st hbp limit = Ret (ok, st')"
  shows "os_use st st' ok"
  using assms
proof (induction st hbp limit arbitrary: U bs rule: install_index_loop.induct)
  case (1 st hbp limit)
  show ?case
  proof (cases "hbp < limit")
    case False
    then show ?thesis using "1.prems"(3) by (simp add: install_index_loop.simps[of st hbp limit] os_use_refl)
  next
    case True
    then have "hbp < 2 ^ 64" using "1.prems"(2) by simp
    then obtain ok1 st1 U1 bs1 where get: "get_index st hbp = Ret (ok1, st1)" and inv1: "hdr_inv L st1 U1 bs1 fs"
      by (rule get_index_ok[OF "1.prems"(1)]) (rule that)
    note s1 = os_use_get_index[OF "1.prems"(1) get]
    show ?thesis
    proof (cases "ok1 \<and> \<not> hbp > 2 ^ 64 - 1 - BOTTOM_SZ * BLK")
      case c: True
      have step: "install_index_loop st1 (hbp + BOTTOM_SZ * BLK) limit = Ret (ok, st')"
        using "1.prems"(3) True get c by (simp add: install_index_loop.simps[of st hbp limit])
      have "os_use st1 st' ok"
        by (rule "1.IH"[OF True _ _ inv1 "1.prems"(2) step, of True]) (use c in simp_all)
      then show ?thesis using s1 c os_use_trans by simp
    next
      case c: False
      then show ?thesis
        using "1.prems"(3) True get s1
        by (auto simp: install_index_loop.simps[of st hbp limit] split: if_splits intro: os_use_weaken)
    qed
  qed
qed

lemma os_use_counts_loop: "install_counts_loop st h hbp limit = Ret st' \<Longrightarrow> os_mem st' = os_mem st"
proof (induction st h hbp limit arbitrary: st' rule: install_counts_loop.induct)
  case (1 st h hbp limit)
  show ?case
  proof (cases "hbp < limit")
    case True
    then obtain st1 where "SET_HDR st hbp (if (hbp - h) div BLK > MAX_JUMP then MAX_JUMP else (hbp - h) div BLK) = Ret st1"
      and "hbp + BLK < 2 ^ 64" "install_counts_loop st1 h (hbp + BLK) limit = Ret st'"
      using "1.prems"
      by (cases "hbp + BLK < 2 ^ 64")
        (auto simp: install_counts_loop.simps[of st h hbp limit] Let_def obind_eq_Ret split del: if_split)
    then show ?thesis using "1.IH"[OF True refl] os_use_SET_HDR by metis
  next
    case False
    then show ?thesis using "1.prems" by (simp add: install_counts_loop.simps[of st h hbp limit])
  qed
qed

lemma os_use_install_counts:
  assumes inv: "hdr_inv L st U bs fs" and sz: "0 < sz" "h + sz + BLK \<le> 2 ^ 64"
    and res: "GC_install_counts st h sz = Ret (ok, st')"
  shows "os_use st st' ok"
proof -
  let ?st0 = "GC_INVALIDATE_HDR_CACHE st"
  note nw = no_wrap[OF sz]
  have inv0: "hdr_inv L ?st0 U bs fs" using inv by (simp only: invalidate_same)
  obtain ok1 st1 where loop1: "install_index_loop ?st0 h (h + sz) = Ret (ok1, st1)" and g1: "grown L fs ?st0 st1"
    using install_index_loop_ok[OF inv0 nw(4), of h] by blast
  obtain U1 bs1 where inv1: "hdr_inv L st1 U1 bs1 fs" using g1 unfolding grown_def by blast
  have s1: "os_use st st1 ok1"
    using os_use_install_index_loop[OF inv0 nw(4) loop1] by (simp add: os_use_def GC_INVALIDATE_HDR_CACHE_def)
  obtain ok2 st2 where get: "get_index st1 (h + sz - 1) = Ret (ok2, st2)"
    by (rule get_index_grown[OF inv1, of "h + sz - 1"]) (use sz in linarith, rule that)
  note s2 = os_use_get_index[OF inv1 get]
  show ?thesis
    using res loop1 get s1 s2
    by (auto simp: GC_install_counts_no_wrap[OF sz] obind_eq_Ret os_use_def dest!: os_use_counts_loop split: if_splits)
qed

lemma remove_loop_os_mem: "remove_counts_loop st hbp limit = Ret st' \<Longrightarrow> os_mem st' = os_mem st"
proof (induction st hbp limit arbitrary: st' rule: remove_counts_loop.induct)
  case (1 st hbp limit)
  then show ?case
    by (cases "hbp < limit")
      (auto simp: remove_counts_loop.simps[of st hbp limit] obind_eq_Ret split: if_splits dest!: os_use_SET_HDR)
qed

lemma remove_os_mem:
  "GC_remove_header st h = Ret st' \<Longrightarrow> os_mem st' = os_mem st"
  "GC_remove_counts st h sz = Ret st' \<Longrightarrow> os_mem st' = os_mem st"
  by (auto simp: GC_remove_header_def GC_remove_counts_def Let_def obind_eq_Ret free_hdr_def
      GC_INVALIDATE_HDR_CACHE_def split: if_splits dest!: os_use_SET_HDR remove_loop_os_mem)

lemma block_number_split: "p div BLK = hi_of p * BOTTOM_SZ + lo_of p"
  using div_mod_decomp[of "p div BLK" BOTTOM_SZ]
  by (simp add: hi_of_def lo_of_def div_mult2_eq mult.commute[of BOTTOM_SZ])

section \<open>Initialisation and an example\<close>

text \<open>
  C17: \<open>GC_init_headers\<close> on a state whose scratch memory is consistent either establishes the
  invariant of the index with no block mapped, or reports that there is no memory; with room
  in the scratch area it succeeds.
\<close>

theorem GC_init_headers_correct:
  assumes mem: "mem_inv L st U" and st: "GC_hdr_free_list st = 0" "GC_all_bottom_indices st = 0"
    "GC_all_bottom_indices_end st = 0"
  shows "(\<exists>st' U'. GC_init_headers st = Ret st' \<and> hdr_inv L st' U' [] [] \<and> (\<forall>p. HDR st' p = 0))
     \<or> GC_init_headers st = Abort ''Insufficient memory for GC_all_nils'' \<and> scratch_room st < 8224"
proof -
  obtain r st1 where alloc: "GC_scratch_alloc st sizeof_bottom_index = (r, st1)" by fastforce
  have same: "same_index st st1" and fresh: "fresh_or_null L U 8224 r st1"
    using scratch_alloc_step[OF mem _ _ alloc] mem_inv_L[OF mem] by (simp_all add: sizeof_rounded BLK_def)
  show ?thesis
  proof (cases "r = 0")
    case True
    then have "scratch_room st < 8224"
      using scratch_alloc_room[OF mem _ _ alloc] by (cases "8224 \<le> scratch_room st") (simp_all add: sizeof_rounded)
    then show ?thesis using True alloc by (simp add: GC_init_headers_def)
  next
    case False
    define st2 where "st2 = st1\<lparr>GC_all_nils := r, bi_mem := (bi_mem st1)(r := zero_bi),
      GC_top_index := (\<lambda>i. if i < TOP_SZ then r else GC_top_index st1 i)\<rparr>"
    have "chain nxt r [] r" for nxt by simp
    then have ht: "ht_inv st2 []"
      using False st same unfolding ht_inv_def
      by (auto simp: st2_def zero_bi_def same_index_def intro!: exI[of _ "[]"])
    have zero: "HDR st2 p = 0" for p using HDR_absent[OF ht] by (simp add: has_index_def)
    have "mem_inv L st2 (U \<union> {r ..< r + 8224})"
      using fresh False by (simp add: fresh_or_null_def st2_def mem_inv_def page_round_def)
    then have "hdr_inv L st2 (U \<union> {r ..< r + 8224}) [] []"
      unfolding hdr_inv_def one_block_def using ht zero st same
      by (simp add: st2_def same_index_def)
    moreover have "GC_init_headers st = Ret st2"
      using alloc False by (simp add: GC_init_headers_def st2_def)
    ultimately show ?thesis using zero by blast
  qed
qed

text \<open>
  A state with an object of two blocks at block 5 and a free block of two blocks at block 8.
\<close>

definition hdr_of :: "nat \<Rightarrow> nat \<Rightarrow> 8 word \<Rightarrow> hdr" where
  "hdr_of blk sz flags =
     \<lparr>hb_next = 0, hb_prev = 0, hb_block = blk, hb_obj_kind = 0, hb_flags = flags, hb_last_reclaimed = 0,
      hb_sz = sz, hb_descr = 0, hb_map = 0, hb_n_marks = 0, hb_marks = (\<lambda>_. 0)\<rparr>"

definition hdr_ex :: hdr_state where
  "hdr_ex = \<lparr>bi_mem = (\<lambda>_. zero_bi)(110000 := zero_bi\<lparr>bi_index := (\<lambda>_. 0)(5 := 200000, 6 := 1, 8 := 200200),
                 hash_link := 100000\<rparr>),
     hdr_mem = (\<lambda>_. hdr_of 0 0 0)(200000 := hdr_of 20480 8192 0, 200200 := hdr_of 32768 8192 FREE_BLK),
     GC_top_index = (\<lambda>_. 100000)(0 := 110000), GC_all_nils = 100000,
     GC_all_bottom_indices = 110000, GC_all_bottom_indices_end = 110000, GC_hdr_free_list = 0,
     GC_scratch_free_ptr = 300000, GC_scratch_end_addr = 400000, GC_page_size = 4096, GC_gc_no = 7,
     GC_hdr_cache = (\<lambda>_. \<lparr>block_addr = 5, hce_hdr = 200000\<rparr>), os_mem = []\<rparr>"

lemma hdr_ex_ht: "ht_inv hdr_ex [110000]"
proof -
  have "\<exists>cs. chain (\<lambda>b. hash_link (bi_mem hdr_ex b)) (GC_top_index hdr_ex i) cs (GC_all_nils hdr_ex)
      \<and> distinct cs \<and> set cs = {b \<in> set [110000]. TL_HASH (key_of hdr_ex b) = i}" for i
    by (rule exI[of _ "if i = 0 then [110000] else []"])
      (auto simp: hdr_ex_def zero_bi_def TL_HASH_def)
  then show ?thesis
    unfolding ht_inv_def by (simp add: hdr_ex_def zero_bi_def)
qed

lemma hdr_ex_HDR: "HDR hdr_ex p = (if p div 4096 = 5 then 200000 else if p div 4096 = 6 then 1
    else if p div 4096 = 8 then 200200 else 0)"
proof (cases "hi_of p = 0")
  case True
  then have "lo_of p = p div 4096" using block_number_split[of p] by (simp add: BLK_def)
  then show ?thesis
    using HDR_found[OF hdr_ex_ht, of 110000 p] True by (simp add: hdr_ex_def zero_bi_def)
next
  case False
  then have "p div 4096 \<ge> 1024" using block_number_split[of p] by (cases "hi_of p") (simp_all add: gc_consts)
  then show ?thesis
    using HDR_absent[OF hdr_ex_ht, of p] False by (simp add: has_index_def) (simp add: hdr_ex_def zero_bi_def)
qed

lemma hdr_ex_inv: "hdr_inv 65536 hdr_ex {100000 ..< 250000} [110000] []"
proof -
  have "mem_inv 65536 hdr_ex {100000 ..< 250000}"
    by (simp add: mem_inv_def hdr_ex_def page_round_def SIZET_SAT_ADD_def gc_consts)
  moreover have "one_block (HDR hdr_ex)"
    unfolding one_block_def hdr_ex_HDR by (auto simp: gc_consts)
  ultimately show ?thesis
    using hdr_ex_ht unfolding hdr_inv_def hdr_ex_HDR by (simp add: gc_consts) (simp add: hdr_ex_def)
qed


theorem GC_init_headers_correct_witness:
  "\<exists>st'. GC_init_headers (hdr_ex\<lparr>GC_all_bottom_indices := 0, GC_all_bottom_indices_end := 0\<rparr>) = Ret st'
     \<and> HDR st' 20480 = 0"
proof -
  let ?st = "hdr_ex\<lparr>GC_all_bottom_indices := 0, GC_all_bottom_indices_end := 0\<rparr>"
  have "mem_inv 65536 ?st {}" by (simp add: mem_inv_def hdr_ex_def page_round_def SIZET_SAT_ADD_def gc_consts)
  from GC_init_headers_correct[OF this] show ?thesis by (auto simp: hdr_ex_def)
qed

theorem GC_install_header_correct_witness:
  "\<exists>result st'. GC_install_header hdr_ex 9000000 = Ret (result, st') \<and> result \<noteq> 0 \<and> result \<noteq> 200000
     \<and> HDR st' 9000000 = result \<and> HDR st' 20480 = 200000 \<and> cache_empty st'"
proof -
  have "8336 \<le> scratch_room hdr_ex" by (simp add: hdr_ex_def)
  moreover have "HDR hdr_ex 20480 = 200000" by (simp add: hdr_ex_HDR)
  ultimately show ?thesis
    using GC_install_header_correct[OF hdr_ex_inv, of 9000000] by (fastforce simp: BLK_def)
qed

theorem GC_remove_header_correct_witness:
  "\<exists>st'. GC_remove_header hdr_ex 20480 = Ret st' \<and> HDR st' 20480 = 0 \<and> HDR st' 32768 = 200200"
proof -
  have "MAX_JUMP < HDR hdr_ex 20480" by (simp add: hdr_ex_HDR gc_consts)
  from GC_remove_header_correct[OF hdr_ex_inv this] obtain st' where st': "GC_remove_header hdr_ex 20480 = Ret st'"
    "\<forall>q. HDR st' q = (if q div BLK = 20480 div BLK then 0 else HDR hdr_ex q)" by blast
  have "HDR st' 20480 = 0" "HDR st' 32768 = 200200"
    using st'(2) by (simp_all add: hdr_ex_HDR BLK_def)
  with st'(1) show ?thesis by blast
qed

theorem GC_install_counts_correct_witness:
  "\<exists>st'. GC_install_counts hdr_ex 40960 20480 = Ret (True, st') \<and> HDR st' 57344 = 4 \<and> HDR st' 20480 = 200000"
proof -
  have "8224 * (20480 div (BOTTOM_SZ * BLK) + 2) \<le> scratch_room hdr_ex" by (simp add: hdr_ex_def gc_consts)
  then show ?thesis
    using GC_install_counts_correct[OF hdr_ex_inv, of 40960 20480] by (auto simp: hdr_ex_HDR gc_consts)
qed

theorem GC_remove_counts_correct_witness:
  "\<exists>st'. GC_remove_counts hdr_ex 20480 8192 = Ret st' \<and> HDR st' 24576 = 0 \<and> HDR st' 20480 = 200000"
proof -
  have "indexed hdr_ex q" if "q < 28672" for q
    using that unfolding indexed_iff[OF hdr_ex_ht]
    by (simp add: has_index_def hi_of_def gc_consts) (simp add: hdr_ex_def zero_bi_def)
  then have "\<forall>q. 20480 + BLK \<le> q \<longrightarrow> q < 20480 + 8192 \<longrightarrow> indexed hdr_ex q" by simp
  from GC_remove_counts_correct[OF hdr_ex_inv _ _ this] show ?thesis
    by (auto simp: hdr_ex_HDR gc_consts)
qed

end
