(* ===== verification/Header_Walk.thy ===== *)
theory Header_Walk
  imports Header_Table
begin

text \<open>
  The operations of \<^verbatim>\<open>headers.c\<close> that walk over the block header index in address order
  (\<open>GC_next_block\<close>, \<open>GC_prev_block\<close>, \<open>GC_apply_to_all_blocks\<close>), and that they find the blocks
  they are meant to find.
\<close>

section \<open>Walking over the blocks\<close>

text \<open>The inner loop of \<open>GC_next_block\<close> over one index block.\<close>

fun next_in_index :: "nat \<Rightarrow> hdr_state \<Rightarrow> bool \<Rightarrow> nat \<Rightarrow> nat \<Rightarrow> nat option outcome" where
  "next_in_index 0 st allow_free bi j = Stuck"
| "next_in_index (Suc fuel) st allow_free bi j =
     (if j < BOTTOM_SZ then
        let hhdr = bi_index (bi_mem st bi) j
        in if IS_FORWARDING_ADDR_OR_NIL hhdr then next_in_index fuel st allow_free bi (j + 1)
           else if allow_free \<or> \<not> HBLK_IS_FREE (hdr_mem st hhdr)
           then Ret (Some (hb_block (hdr_mem st hhdr)))
           else next_in_index fuel st allow_free bi (j + hb_sz (hdr_mem st hhdr) div BLK)
      else Ret None)"

fun next_block_loop :: "nat \<Rightarrow> hdr_state \<Rightarrow> bool \<Rightarrow> nat \<Rightarrow> nat \<Rightarrow> nat outcome" where
  "next_block_loop 0 st allow_free bi j = Stuck"
| "next_block_loop (Suc fuel) st allow_free bi j =
     (if bi \<noteq> 0 then
        obind (next_in_index (BOTTOM_SZ + 1) st allow_free bi j) (\<lambda>r.
          case r of Some b \<Rightarrow> Ret b
          | None \<Rightarrow> next_block_loop fuel st allow_free (asc_link (bi_mem st bi)) 0)
      else Ret 0)"

definition GC_next_block :: "hdr_state \<Rightarrow> nat \<Rightarrow> bool \<Rightarrow> nat outcome" where
  "GC_next_block st h allow_free =
     obind (GET_BI st h) (\<lambda>bi.
       if bi = GC_all_nils st then
         obind (asc_position_loop BI_FUEL st (hi_of h) 0 (GC_all_bottom_indices st)) (\<lambda>(pi, bi).
           next_block_loop BI_FUEL st allow_free bi 0)
       else next_block_loop BI_FUEL st allow_free bi (lo_of h))"

fun prev_in_index :: "nat \<Rightarrow> hdr_state \<Rightarrow> nat \<Rightarrow> int \<Rightarrow> nat option outcome" where
  "prev_in_index 0 st bi j = Stuck"
| "prev_in_index (Suc fuel) st bi j =
     (if j \<ge> 0 then
        let hhdr = bi_index (bi_mem st bi) (nat j)
        in if hhdr = 0 then prev_in_index fuel st bi (j - 1)
           else if IS_FORWARDING_ADDR_OR_NIL hhdr then prev_in_index fuel st bi (j - int hhdr)
           else Ret (Some (hb_block (hdr_mem st hhdr)))
      else Ret None)"

fun prev_block_loop :: "nat \<Rightarrow> hdr_state \<Rightarrow> nat \<Rightarrow> int \<Rightarrow> nat outcome" where
  "prev_block_loop 0 st bi j = Stuck"
| "prev_block_loop (Suc fuel) st bi j =
     (if bi \<noteq> 0 then
        obind (prev_in_index (BOTTOM_SZ + 1) st bi j) (\<lambda>r.
          case r of Some b \<Rightarrow> Ret b
          | None \<Rightarrow> prev_block_loop fuel st (desc_link (bi_mem st bi)) (int BOTTOM_SZ - 1))
      else Ret 0)"

fun desc_position_loop :: "nat \<Rightarrow> hdr_state \<Rightarrow> nat \<Rightarrow> nat \<Rightarrow> nat outcome" where
  "desc_position_loop 0 st hi bi = Stuck"
| "desc_position_loop (Suc fuel) st hi bi =
     (if bi \<noteq> 0 \<and> bi_key (bi_mem st bi) > hi
      then desc_position_loop fuel st hi (desc_link (bi_mem st bi))
      else Ret bi)"

definition GC_prev_block :: "hdr_state \<Rightarrow> nat \<Rightarrow> nat outcome" where
  "GC_prev_block st h =
     obind (GET_BI st h) (\<lambda>bi.
       if bi = GC_all_nils st then
         obind (desc_position_loop BI_FUEL st (hi_of h) (GC_all_bottom_indices_end st)) (\<lambda>bi.
           prev_block_loop BI_FUEL st bi (int BOTTOM_SZ - 1))
       else prev_block_loop BI_FUEL st bi (int (lo_of h)))"

text \<open>
  \<open>GC_apply_to_all_blocks\<close>: the callback acts on its client data, it does not change the
  index.
\<close>

fun apply_in_index ::
    "nat \<Rightarrow> hdr_state \<Rightarrow> (nat \<Rightarrow> 'a \<Rightarrow> 'a) \<Rightarrow> nat \<Rightarrow> int \<Rightarrow> 'a \<Rightarrow> 'a outcome" where
  "apply_in_index 0 st fn bi j client_data = Stuck"
| "apply_in_index (Suc fuel) st fn bi j client_data =
     (if j \<ge> 0 then
        let hhdr = bi_index (bi_mem st bi) (nat j)
        in if IS_FORWARDING_ADDR_OR_NIL hhdr
           then apply_in_index fuel st fn bi (j - (if hhdr \<noteq> 0 then int hhdr else 1)) client_data
           else apply_in_index fuel st fn bi (j - 1)
                  (if \<not> HBLK_IS_FREE (hdr_mem st hhdr)
                   then fn (hb_block (hdr_mem st hhdr)) client_data else client_data)
      else Ret client_data)"

fun apply_to_all_loop ::
    "nat \<Rightarrow> hdr_state \<Rightarrow> (nat \<Rightarrow> 'a \<Rightarrow> 'a) \<Rightarrow> nat \<Rightarrow> 'a \<Rightarrow> 'a outcome" where
  "apply_to_all_loop 0 st fn bi client_data = Stuck"
| "apply_to_all_loop (Suc fuel) st fn bi client_data =
     (if bi \<noteq> 0 then
        obind (apply_in_index (BOTTOM_SZ + 1) st fn bi (int BOTTOM_SZ - 1) client_data)
          (\<lambda>cd. apply_to_all_loop fuel st fn (asc_link (bi_mem st bi)) cd)
      else Ret client_data)"

definition GC_apply_to_all_blocks ::
    "hdr_state \<Rightarrow> (nat \<Rightarrow> 'a \<Rightarrow> 'a) \<Rightarrow> 'a \<Rightarrow> 'a outcome" where
  "GC_apply_to_all_blocks st fn client_data =
     apply_to_all_loop BI_FUEL st fn (GC_all_bottom_indices st) client_data"

section \<open>What the walks return\<close>

text \<open>A block by its number \<open>n\<close> (address \<open>n * BLK\<close>): it starts an object or a free block.\<close>

definition starts_block :: "hdr_state \<Rightarrow> nat \<Rightarrow> bool" where
  "starts_block st n \<longleftrightarrow> HDR st (n * BLK) > MAX_JUMP"

definition block_in_use :: "hdr_state \<Rightarrow> nat \<Rightarrow> bool" where
  "block_in_use st n \<longleftrightarrow> starts_block st n \<and> \<not> HBLK_IS_FREE (hdr_mem st (HDR st (n * BLK)))"

text \<open>
  The headers describe the blocks they are installed for, and the entries of the index between
  the start of a block and its end (for a free block), or between an entry and the entry its
  count points to, start no block.
\<close>

definition hdrs_ok :: "hdr_state \<Rightarrow> bool" where
  "hdrs_ok st \<longleftrightarrow>
     (\<forall>n. starts_block st n \<longrightarrow> hb_block (hdr_mem st (HDR st (n * BLK))) = n * BLK)
     \<and> (\<forall>n. starts_block st n \<and> \<not> block_in_use st n \<longrightarrow>
          BLK \<le> hb_sz (hdr_mem st (HDR st (n * BLK)))
          \<and> (\<forall>m. n < m \<and> m < n + hb_sz (hdr_mem st (HDR st (n * BLK))) div BLK \<longrightarrow> \<not> starts_block st m))
     \<and> (\<forall>n m. \<not> starts_block st n \<and> n < m + HDR st (n * BLK) \<and> m \<le> n \<longrightarrow> \<not> starts_block st m)"

lemma HDR_by_index:
  assumes "ht_inv st bs" "b \<in> set bs" "j < BOTTOM_SZ"
  shows "HDR st ((key_of st b * BOTTOM_SZ + j) * BLK) = bi_index (bi_mem st b) j"
proof -
  have "hi_of ((key_of st b * BOTTOM_SZ + j) * BLK) = key_of st b"
    using assms(3) by (simp add: hi_of_def div_mult2_eq mult.commute[of BOTTOM_SZ] BLK_def)
  moreover have "lo_of ((key_of st b * BOTTOM_SZ + j) * BLK) = j"
    using assms(3) by (simp add: lo_of_def BLK_def)
  ultimately show ?thesis using HDR_found[OF assms(1,2)] by simp
qed

lemma starts_block_key:
  assumes "ht_inv st bs" "starts_block st n"
  shows "n div BOTTOM_SZ \<in> key_of st ` set bs"
proof (rule ccontr)
  assume "n div BOTTOM_SZ \<notin> key_of st ` set bs"
  moreover have "hi_of (n * BLK) = n div BOTTOM_SZ"
    by (simp add: hi_of_def div_mult2_eq mult.commute[of BOTTOM_SZ] BLK_def)
  ultimately have "HDR st (n * BLK) = 0"
    using HDR_absent[OF assms(1)] by (simp add: has_index_def)
  with assms(2) show False by (simp add: starts_block_def)
qed

definition wanted :: "hdr_state \<Rightarrow> bool \<Rightarrow> nat \<Rightarrow> bool" where
  "wanted st allow_free n \<longleftrightarrow> (if allow_free then starts_block st n else block_in_use st n)"

lemma wanted_starts: "wanted st af n \<Longrightarrow> starts_block st n"
  by (auto simp: wanted_def block_in_use_def split: if_splits)

text \<open>\<open>r\<close> is the first block satisfying \<open>P\<close> from number \<open>lo\<close> on, 0 if there is none.\<close>

definition next_spec :: "(nat \<Rightarrow> bool) \<Rightarrow> nat \<Rightarrow> nat \<Rightarrow> bool" where
  "next_spec P lo r \<longleftrightarrow>
     (\<exists>n \<ge> lo. P n \<and> r = n * BLK \<and> (\<forall>m. lo \<le> m \<and> m < n \<longrightarrow> \<not> P m))
     \<or> r = 0 \<and> (\<forall>m \<ge> lo. \<not> P m)"

definition idx_spec :: "(nat \<Rightarrow> bool) \<Rightarrow> nat \<Rightarrow> nat \<Rightarrow> nat option outcome \<Rightarrow> bool" where
  "idx_spec P lo hi r \<longleftrightarrow>
     (\<exists>x. r = Ret (Some x) \<and> next_spec P lo x) \<or> r = Ret None \<and> (\<forall>m. lo \<le> m \<longrightarrow> m < hi \<longrightarrow> \<not> P m)"

lemma next_spec_skip:
  assumes r: "next_spec P lo' r" and le: "lo \<le> lo'" and no: "\<And>m. lo \<le> m \<Longrightarrow> m < lo' \<Longrightarrow> \<not> P m"
  shows "next_spec P lo r"
proof (cases "r = 0 \<and> (\<forall>m \<ge> lo'. \<not> P m)")
  case True
  then have "\<not> P m" if "m \<ge> lo" for m using no[of m] that by (cases "m < lo'") auto
  with True show ?thesis by (auto simp: next_spec_def)
next
  case False
  then obtain n where n: "n \<ge> lo'" "P n" "r = n * BLK" "\<And>m. lo' \<le> m \<and> m < n \<Longrightarrow> \<not> P m"
    using r unfolding next_spec_def by blast
  have "\<not> P m" if "lo \<le> m \<and> m < n" for m using no[of m] n(4)[of m] that by (cases "m < lo'") auto
  then show ?thesis using n le unfolding next_spec_def by (intro disjI1 exI[of _ n]) simp
qed

lemma idx_spec_skip:
  assumes r: "idx_spec P lo' hi r" and le: "lo \<le> lo'" and no: "\<And>m. lo \<le> m \<Longrightarrow> m < lo' \<Longrightarrow> \<not> P m"
  shows "idx_spec P lo hi r"
proof (cases "r = Ret None \<and> (\<forall>m. lo' \<le> m \<longrightarrow> m < hi \<longrightarrow> \<not> P m)")
  case True
  then have "\<not> P m" if "lo \<le> m" "m < hi" for m using no[of m] that by (cases "m < lo'") auto
  with True show ?thesis by (auto simp: idx_spec_def)
next
  case False
  then obtain x where "r = Ret (Some x)" "next_spec P lo' x" using r unfolding idx_spec_def by blast
  then show ?thesis using next_spec_skip[OF _ le no] by (simp add: idx_spec_def)
qed

lemma next_spec_here: "P lo \<Longrightarrow> next_spec P lo (lo * BLK)"
  unfolding next_spec_def by (intro disjI1 exI[of _ lo]) auto

lemma next_in_index_ok:
  assumes ht: "ht_inv st bs" and ok: "hdrs_ok st" and b: "b \<in> set bs"
    and "BOTTOM_SZ - j < fuel"
  shows "idx_spec (wanted st af) (key_of st b * BOTTOM_SZ + j) ((key_of st b + 1) * BOTTOM_SZ)
           (next_in_index fuel st af b j)"
  using assms(4)
proof (induction fuel arbitrary: j)
  case (Suc fuel)
  let ?n = "key_of st b * BOTTOM_SZ + j" and ?h = "bi_index (bi_mem st b) j"
  show ?case
  proof (cases "j < BOTTOM_SZ")
    case False
    then show ?thesis by (auto simp: idx_spec_def)
  next
    case j: True
    have H: "HDR st (?n * BLK) = ?h" by (rule HDR_by_index[OF ht b j])
    have skip: "idx_spec (wanted st af) ?n ((key_of st b + 1) * BOTTOM_SZ) (next_in_index fuel st af b (j + d))"
      if "d > 0" and "\<And>m. ?n \<le> m \<Longrightarrow> m < ?n + d \<Longrightarrow> \<not> wanted st af m" for d
    proof -
      have "BOTTOM_SZ - (j + d) < fuel" using Suc.prems \<open>d > 0\<close> j by simp
      from Suc.IH[OF this] show ?thesis
        by (rule idx_spec_skip) (use that in \<open>simp_all add: add.assoc\<close>)
    qed
    consider (fwd) "?h \<le> MAX_JUMP" | (hit) "\<not> ?h \<le> MAX_JUMP" "wanted st af ?n"
      | (free) "\<not> ?h \<le> MAX_JUMP" "\<not> wanted st af ?n" by blast
    then show ?thesis
    proof cases
      case fwd
      then have no: "\<not> wanted st af ?n" using wanted_starts[of st af ?n] by (auto simp: starts_block_def H)
      have "\<not> wanted st af m" if "?n \<le> m" "m < ?n + 1" for m
      proof -
        have "m = ?n" using that by simp
        with no show ?thesis by simp
      qed
      then show ?thesis
        using fwd j skip[of 1] by (simp add: IS_FORWARDING_ADDR_OR_NIL_def Let_def)
    next
      case hit
      then have s: "starts_block st ?n" by (simp add: starts_block_def H)
      then have "hb_block (hdr_mem st ?h) = ?n * BLK"
        using ok unfolding hdrs_ok_def H[symmetric] by blast
      moreover have "af \<or> \<not> HBLK_IS_FREE (hdr_mem st ?h)"
        using hit H by (cases af) (simp_all add: wanted_def block_in_use_def)
      ultimately have "next_in_index (Suc fuel) st af b j = Ret (Some (?n * BLK))"
        using hit(1) j by (simp add: IS_FORWARDING_ADDR_OR_NIL_def Let_def)
      then show ?thesis
        using next_spec_here[of "wanted st af", OF hit(2)] by (simp only: idx_spec_def) blast
    next
      case free
      let ?d = "hb_sz (hdr_mem st ?h) div BLK"
      have s: "starts_block st ?n" using free H by (simp add: starts_block_def)
      then have f: "\<not> af" "HBLK_IS_FREE (hdr_mem st ?h)" "\<not> block_in_use st ?n"
        using free H by (auto simp: wanted_def block_in_use_def split: if_splits)
      then have f2: "BLK \<le> hb_sz (hdr_mem st ?h)" "\<forall>m. ?n < m \<and> m < ?n + ?d \<longrightarrow> \<not> starts_block st m"
        using ok s unfolding hdrs_ok_def H[symmetric] by blast+
      have "?d > 0" using f2(1) by (simp add: div_greater_zero_iff BLK_def)
      moreover have "\<not> wanted st af m" if "?n \<le> m" "m < ?n + ?d" for m
        using that f2(2)[rule_format, of m] f by (cases "m = ?n") (simp_all add: wanted_def block_in_use_def)
      ultimately show ?thesis
        using free f j skip[of ?d] by (simp add: IS_FORWARDING_ADDR_OR_NIL_def Let_def)
    qed
  qed
qed simp

text \<open>
  The outer loop: \<open>as\<close> are the index blocks already passed. Nothing that starts a block lies
  outside the ranges of the index blocks.
\<close>

lemma no_block_between:
  assumes ht: "ht_inv st (as @ cs)" and passed: "\<forall>a \<in> set as. (key_of st a + 1) * BOTTOM_SZ \<le> lo"
    and m: "lo \<le> m" "cs \<noteq> [] \<Longrightarrow> m < key_of st (hd cs) * BOTTOM_SZ"
  shows "\<not> starts_block st m"
proof
  assume "starts_block st m"
  then obtain b where b: "b \<in> set (as @ cs)" "key_of st b = m div BOTTOM_SZ"
    using starts_block_key[OF ht] by force
  have B: "BOTTOM_SZ > 0" by (simp add: gc_consts)
  have bm: "key_of st b * BOTTOM_SZ \<le> m" "m < (key_of st b + 1) * BOTTOM_SZ"
    unfolding b(2) using dividend_less_div_times[OF B, of m] by simp_all
  show False
  proof (cases "b \<in> set as")
    case True
    then show False using passed m(1) bm(2) by fastforce
  next
    case False
    then have c: "b \<in> set cs" "cs \<noteq> []" using b by auto
    have "sorted_wrt (<) (map (key_of st) cs)" using ht by (simp add: ht_inv_def sorted_wrt_append)
    then have "key_of st (hd cs) \<le> key_of st b" using c by (cases cs) auto
    then have "key_of st (hd cs) * BOTTOM_SZ \<le> m" using bm(1) le_trans mult_le_mono1 by blast
    then show False using m(2) c(2) by simp
  qed
qed

lemma next_block_loop_ok:
  assumes ht: "ht_inv st (as @ cs)" and ok: "hdrs_ok st" and "length cs < fuel"
    and "\<forall>a \<in> set as. (key_of st a + 1) * BOTTOM_SZ \<le> lo"
    and "cs \<noteq> [] \<Longrightarrow> lo = key_of st (hd cs) * BOTTOM_SZ + j \<or> j = 0 \<and> lo \<le> key_of st (hd cs) * BOTTOM_SZ"
    and "j < BOTTOM_SZ"
  shows "\<exists>r. next_block_loop fuel st af (if cs = [] then 0 else hd cs) j = Ret r \<and> next_spec (wanted st af) lo r"
  using assms
proof (induction cs arbitrary: as fuel j lo)
  case Nil
  then have "\<not> wanted st af m" if "lo \<le> m" for m
    using no_block_between[of st as "[]" lo m] that wanted_starts by auto
  then show ?case using Nil by (cases fuel) (auto simp: next_spec_def)
next
  case (Cons c cs)
  obtain f where f: "fuel = Suc f" using Cons.prems(3) by (cases fuel) auto
  have c: "c \<in> set (as @ c # cs)" "c \<noteq> 0" using Cons.prems(1) by (auto simp: ht_inv_def)
  let ?lo = "key_of st c * BOTTOM_SZ + j" and ?hi = "(key_of st c + 1) * BOTTOM_SZ"
  have "chain (\<lambda>b. asc_link (bi_mem st b)) (GC_all_bottom_indices st) (as @ c # cs) 0"
    using Cons.prems(1) by (simp add: ht_inv_def)
  then have asc: "asc_link (bi_mem st c) = (if cs = [] then 0 else hd cs)"
    by (rule chain_nxt_at)
  have skip: "lo \<le> ?lo" "\<And>m. lo \<le> m \<Longrightarrow> m < ?lo \<Longrightarrow> \<not> wanted st af m"
  proof -
    show "lo \<le> ?lo" using Cons.prems(5) by auto
    fix m assume m: "lo \<le> m" "m < ?lo"
    show "\<not> wanted st af m"
      using no_block_between[OF Cons.prems(1,4) m(1)] m Cons.prems(5) wanted_starts by auto
  qed
  have idx: "idx_spec (wanted st af) ?lo ?hi (next_in_index (BOTTOM_SZ + 1) st af c j)"
    by (rule next_in_index_ok[OF Cons.prems(1) ok c(1)]) simp
  show ?case
  proof (cases "\<exists>x. next_in_index (BOTTOM_SZ + 1) st af c j = Ret (Some x)")
    case True
    then obtain x where x: "next_in_index (BOTTOM_SZ + 1) st af c j = Ret (Some x)" by blast
    then have "next_spec (wanted st af) ?lo x" using idx by (auto simp: idx_spec_def)
    then have "next_spec (wanted st af) lo x" by (rule next_spec_skip) (use skip in auto)
    then show ?thesis using x f c(2) by simp
  next
    case False
    then have none: "next_in_index (BOTTOM_SZ + 1) st af c j = Ret None"
      and no: "\<And>m. ?lo \<le> m \<Longrightarrow> m < ?hi \<Longrightarrow> \<not> wanted st af m"
      using idx by (auto simp: idx_spec_def)
    have sorted: "\<forall>d \<in> set as. key_of st d < key_of st c" "\<forall>d \<in> set cs. key_of st c < key_of st d"
      using Cons.prems(1) by (auto simp: ht_inv_def sorted_wrt_append)
    have "\<exists>r. next_block_loop f st af (if cs = [] then 0 else hd cs) 0 = Ret r \<and> next_spec (wanted st af) ?hi r"
    proof (rule Cons.IH[of "as @ [c]"])
      show "\<forall>a \<in> set (as @ [c]). (key_of st a + 1) * BOTTOM_SZ \<le> ?hi"
        using sorted(1) by (auto simp del: mult_Suc intro!: mult_le_mono1)
      assume "cs \<noteq> []"
      then have "key_of st c + 1 \<le> key_of st (hd cs)" using sorted(2) by (simp add: Suc_leI)
      then show "?hi = key_of st (hd cs) * BOTTOM_SZ + 0 \<or> 0 = (0::nat) \<and> ?hi \<le> key_of st (hd cs) * BOTTOM_SZ"
        using mult_le_mono1 by blast
    qed (use Cons.prems f in \<open>auto simp: gc_consts\<close>)
    then obtain r where r: "next_block_loop f st af (if cs = [] then 0 else hd cs) 0 = Ret r"
      "next_spec (wanted st af) ?hi r" by blast
    have "lo \<le> ?hi" using skip(1) Cons.prems(6) by simp
    then have "next_spec (wanted st af) lo r"
    proof (rule next_spec_skip[OF r(2)])
      fix m assume "lo \<le> m" "m < ?hi"
      then show "\<not> wanted st af m" using no[of m] skip(2)[of m] by (cases "m < ?lo") auto
    qed
    then show ?thesis using none r f c(2) asc by (simp split del: if_split)
  qed
qed

lemma split_at_key:
  assumes ht: "ht_inv st bs"
  obtains as cs where "bs = as @ cs" and "\<forall>a \<in> set as. key_of st a < hi" and "\<forall>c \<in> set cs. hi \<le> key_of st c"
proof -
  have "filter (\<lambda>b. key_of st b < hi) bs @ filter (\<lambda>b. \<not> key_of st b < hi) bs = bs"
    using ht by (intro sorted_split_key) (simp add: ht_inv_def)
  then show thesis by (intro that[OF sym]) auto
qed

lemma bs_length: "ht_inv st bs \<Longrightarrow> length bs < BI_FUEL"
  using length_le_keys[of st bs bs] ht_inv_inj(1)[of st bs] by (simp add: BI_FUEL_def)

text \<open>
  C18: \<open>GC_next_block\<close> returns the first block at or after \<open>h\<close> that has a header (that is in use,
  when free blocks are not allowed), and null when there is none, whatever way the blocks are
  spread over the index.
\<close>

theorem GC_next_block_correct:
  assumes ht: "ht_inv st bs" and ok: "hdrs_ok st"
  shows "\<exists>r. GC_next_block st h allow_free = Ret r \<and> next_spec (wanted st allow_free) (h div BLK) r"
proof -
  obtain as cs where bs: "bs = as @ cs" and as: "\<forall>a \<in> set as. key_of st a < hi_of h"
    and cs: "\<forall>c \<in> set cs. hi_of h \<le> key_of st c"
    by (rule split_at_key[OF ht]) (rule that)
  have len: "length (as @ cs) < BI_FUEL" using bs_length[OF ht] bs by simp
  have passed: "\<forall>a \<in> set as. (key_of st a + 1) * BOTTOM_SZ \<le> h div BLK"
  proof
    fix a assume "a \<in> set as"
    then have "(key_of st a + 1) * BOTTOM_SZ \<le> hi_of h * BOTTOM_SZ" using as by (intro mult_le_mono1) auto
    then show "(key_of st a + 1) * BOTTOM_SZ \<le> h div BLK" using block_number_split[of h] by simp
  qed
  note loop = next_block_loop_ok[OF ht[unfolded bs] ok _ passed]
  have B: "0 < BOTTOM_SZ" by (simp add: gc_consts)
  show ?thesis
  proof (cases "has_index st bs h")
    case True
    then obtain b where b: "b \<in> set bs" "key_of st b = hi_of h" by (auto simp: has_index_def)
    then have bcs: "b \<in> set cs" using bs as by auto
    have "sorted_wrt (<) (map (key_of st) cs)" using ht bs by (simp add: ht_inv_def sorted_wrt_append)
    then have hd: "cs \<noteq> []" "hd cs = b" using bcs cs b(2) by (cases cs; fastforce)+
    have "b \<noteq> GC_all_nils st" using ht b(1) by (auto simp: ht_inv_def)
    then have "GC_next_block st h allow_free = next_block_loop BI_FUEL st allow_free b (lo_of h)"
      by (simp add: GC_next_block_def GET_BI_found[OF ht b])
    then show ?thesis
      using loop[of BI_FUEL "lo_of h" allow_free] hd len b(2) block_number_split[of h] by simp
  next
    case False
    have asc: "asc_position_loop BI_FUEL st (hi_of h) 0 (GC_all_bottom_indices st) =
        Ret (if as = [] then 0 else last as, if cs = [] then 0 else hd cs)"
      by (rule asc_position_loop_chain)
        (use ht bs len as cs in \<open>auto simp: ht_inv_def not_less\<close>)
    have "hi_of h \<notin> key_of st ` set bs" using False by (simp add: has_index_def)
    then have "GC_next_block st h allow_free =
        next_block_loop BI_FUEL st allow_free (if cs = [] then 0 else hd cs) 0"
      using asc by (simp add: GC_next_block_def GET_BI_absent[OF ht] split del: if_split)
    moreover have "h div BLK \<le> key_of st (hd cs) * BOTTOM_SZ" if "cs \<noteq> []"
    proof -
      have "hd cs \<in> set cs" using that by simp
      then have "key_of st (hd cs) \<noteq> hi_of h" using \<open>hi_of h \<notin> _\<close> bs by (metis Un_iff image_eqI set_append)
      then have "hi_of h + 1 \<le> key_of st (hd cs)" using cs \<open>hd cs \<in> set cs\<close> by (simp add: Suc_leI le_neq_implies_less)
      then have "(hi_of h + 1) * BOTTOM_SZ \<le> key_of st (hd cs) * BOTTOM_SZ" by (rule mult_le_mono1)
      moreover have "lo_of h < BOTTOM_SZ" by simp
      moreover have "(hi_of h + 1) * BOTTOM_SZ = hi_of h * BOTTOM_SZ + BOTTOM_SZ" by simp
      ultimately show ?thesis unfolding block_number_split[of h] by linarith
    qed
    ultimately show ?thesis
      using loop[of BI_FUEL 0 allow_free] len B by simp
  qed
qed

text \<open>\<open>r\<close> is the last block start up to number \<open>hi\<close>, 0 if there is none.\<close>

definition prev_spec :: "(nat \<Rightarrow> bool) \<Rightarrow> int \<Rightarrow> nat \<Rightarrow> bool" where
  "prev_spec P hi r \<longleftrightarrow>
     (\<exists>n. int n \<le> hi \<and> P n \<and> r = n * BLK \<and> (\<forall>m. n < m \<and> int m \<le> hi \<longrightarrow> \<not> P m))
     \<or> r = 0 \<and> (\<forall>m. int m \<le> hi \<longrightarrow> \<not> P m)"

lemma prev_spec_skip:
  assumes r: "prev_spec P hi' r" and le: "hi' \<le> hi" and no: "\<And>m. hi' < int m \<Longrightarrow> int m \<le> hi \<Longrightarrow> \<not> P m"
  shows "prev_spec P hi r"
proof (cases "r = 0 \<and> (\<forall>m. int m \<le> hi' \<longrightarrow> \<not> P m)")
  case True
  then have "\<not> P m" if "int m \<le> hi" for m using no[of m] that by (cases "int m \<le> hi'") auto
  with True show ?thesis by (auto simp: prev_spec_def)
next
  case False
  then obtain n where n: "int n \<le> hi'" "P n" "r = n * BLK" "\<And>m. n < m \<and> int m \<le> hi' \<Longrightarrow> \<not> P m"
    using r unfolding prev_spec_def by blast
  have "\<not> P m" if "n < m \<and> int m \<le> hi" for m using no[of m] n(4)[of m] that by (cases "int m \<le> hi'") auto
  then show ?thesis using n le unfolding prev_spec_def by (intro disjI1 exI[of _ n]) simp
qed

definition pidx_spec :: "(nat \<Rightarrow> bool) \<Rightarrow> nat \<Rightarrow> int \<Rightarrow> nat option outcome \<Rightarrow> bool" where
  "pidx_spec P lo hi r \<longleftrightarrow>
     (\<exists>x. r = Ret (Some x) \<and> prev_spec P hi x) \<or> r = Ret None \<and> (\<forall>m. lo \<le> m \<longrightarrow> int m \<le> hi \<longrightarrow> \<not> P m)"

lemma pidx_spec_skip:
  assumes r: "pidx_spec P lo hi' r" and le: "hi' \<le> hi" and no: "\<And>m. hi' < int m \<Longrightarrow> int m \<le> hi \<Longrightarrow> \<not> P m"
  shows "pidx_spec P lo hi r"
proof (cases "r = Ret None \<and> (\<forall>m. lo \<le> m \<longrightarrow> int m \<le> hi' \<longrightarrow> \<not> P m)")
  case True
  then have "\<not> P m" if "lo \<le> m" "int m \<le> hi" for m using no[of m] that by (cases "int m \<le> hi'") auto
  with True show ?thesis by (auto simp: pidx_spec_def)
next
  case False
  then obtain x where "r = Ret (Some x)" "prev_spec P hi' x" using r unfolding pidx_spec_def by blast
  then show ?thesis using prev_spec_skip[OF _ le no] by (simp add: pidx_spec_def)
qed

lemma hdrs_ok_jump:
  assumes "hdrs_ok st" "\<not> starts_block st n" "n < m + HDR st (n * BLK)" "m \<le> n"
  shows "\<not> starts_block st m"
  using assms unfolding hdrs_ok_def by blast

lemma prev_in_index_ok:
  assumes ht: "ht_inv st bs" and ok: "hdrs_ok st" and b: "b \<in> set bs"
    and "nat (j + 1) < fuel" "j < int BOTTOM_SZ"
  shows "pidx_spec (starts_block st) (key_of st b * BOTTOM_SZ) (int (key_of st b * BOTTOM_SZ) + j)
           (prev_in_index fuel st b j)"
  using assms(4,5)
proof (induction fuel arbitrary: j)
  case (Suc fuel)
  show ?case
  proof (cases "j \<ge> 0")
    case False
    then have "\<not> int m \<le> int (key_of st b * BOTTOM_SZ) + j" if "key_of st b * BOTTOM_SZ \<le> m" for m
      using that by linarith
    then show ?thesis using False by (auto simp: pidx_spec_def simp del: of_nat_mult)
  next
    case j: True
    let ?n = "key_of st b * BOTTOM_SZ + nat j" and ?h = "bi_index (bi_mem st b) (nat j)"
    have n: "int (key_of st b * BOTTOM_SZ) + j = int ?n" using j by simp
    have H: "HDR st (?n * BLK) = ?h" by (rule HDR_by_index[OF ht b]) (use j Suc.prems in simp)
    show ?thesis
    proof (cases "?h \<le> MAX_JUMP")
      case True
      define d where "d = (if ?h = 0 then 1 else int ?h)"
      have d: "d > 0" by (simp add: d_def)
      have s: "\<not> starts_block st ?n" using True H by (simp add: starts_block_def)
      have no: "\<not> starts_block st m" if "int ?n - d < int m" "int m \<le> int ?n" for m
      proof (cases "?h = 0")
        case True
        then have "d = 1" by (simp add: d_def)
        then have "int m = int ?n" using that by linarith
        then have "m = ?n" by (simp only: of_nat_eq_iff)
        with s show ?thesis by simp
      next
        case False
        then have "d = int ?h" by (simp add: d_def)
        then have "?n < m + HDR st (?n * BLK)" "m \<le> ?n" using that unfolding H by linarith+
        then show ?thesis by (rule hdrs_ok_jump[OF ok s])
      qed
      have step: "prev_in_index (Suc fuel) st b j = prev_in_index fuel st b (j - d)"
        using True j by (simp add: Let_def d_def IS_FORWARDING_ADDR_OR_NIL_def)
      have "pidx_spec (starts_block st) (key_of st b * BOTTOM_SZ) (int (key_of st b * BOTTOM_SZ) + (j - d))
          (prev_in_index fuel st b (j - d))"
        by (rule Suc.IH) (use Suc.prems d j in auto)
      then show ?thesis unfolding step n
        by (rule pidx_spec_skip) (use no d n in auto)
    next
      case False
      then have s: "starts_block st ?n" by (simp add: starts_block_def H)
      then have "hb_block (hdr_mem st ?h) = ?n * BLK" using ok unfolding hdrs_ok_def H[symmetric] by blast
      then have "prev_in_index (Suc fuel) st b j = Ret (Some (?n * BLK))"
        using False j by (auto simp: Let_def IS_FORWARDING_ADDR_OR_NIL_def)
      moreover have "prev_spec (starts_block st) (int ?n) (?n * BLK)"
        unfolding prev_spec_def of_nat_le_iff using s by (intro disjI1 exI[of _ ?n]) auto
      ultimately show ?thesis unfolding n pidx_spec_def by blast
    qed
  qed
qed simp

lemma no_block_between_desc:
  assumes ht: "ht_inv st (cs @ as)" and passed: "\<forall>a \<in> set as. hi < int (key_of st a * BOTTOM_SZ)"
    and m: "int m \<le> hi" "cs \<noteq> [] \<Longrightarrow> (key_of st (last cs) + 1) * BOTTOM_SZ \<le> m"
  shows "\<not> starts_block st m"
proof
  assume "starts_block st m"
  then obtain b where b: "b \<in> set (cs @ as)" "key_of st b = m div BOTTOM_SZ"
    using starts_block_key[OF ht] by force
  have B: "BOTTOM_SZ > 0" by (simp add: gc_consts)
  have bm: "key_of st b * BOTTOM_SZ \<le> m" "m < (key_of st b + 1) * BOTTOM_SZ"
    unfolding b(2) using dividend_less_div_times[OF B, of m] by simp_all
  show False
  proof (cases "b \<in> set as")
    case True
    then have "hi < int (key_of st b * BOTTOM_SZ)" using passed by blast
    then show False using m(1) bm(1) by linarith
  next
    case False
    then have c: "b \<in> set cs" "cs \<noteq> []" using b by auto
    have "sorted_wrt (<) (map (key_of st) cs)" using ht by (simp add: ht_inv_def sorted_wrt_append)
    then have "key_of st b \<le> key_of st (last cs)"
      using c by (cases cs rule: rev_cases) (auto simp: sorted_wrt_append less_imp_le)
    then have "(key_of st b + 1) * BOTTOM_SZ \<le> (key_of st (last cs) + 1) * BOTTOM_SZ" by (intro mult_le_mono1) simp
    then show False using m(2)[OF c(2)] bm(2) by linarith
  qed
qed

lemma prev_block_loop_ok:
  assumes ht: "ht_inv st (cs @ as)" and ok: "hdrs_ok st" and "length cs < fuel"
    and "\<forall>a \<in> set as. hi < int (key_of st a * BOTTOM_SZ)"
    and "cs \<noteq> [] \<Longrightarrow> hi = int (key_of st (last cs) * BOTTOM_SZ) + j
           \<or> j = int BOTTOM_SZ - 1 \<and> int (key_of st (last cs) * BOTTOM_SZ) + j \<le> hi"
    and "0 \<le> j" "j < int BOTTOM_SZ"
  shows "\<exists>r. prev_block_loop fuel st (if cs = [] then 0 else last cs) j = Ret r \<and> prev_spec (starts_block st) hi r"
  using assms
proof (induction cs arbitrary: as fuel j hi rule: rev_induct)
  case Nil
  then have "\<not> starts_block st m" if "int m \<le> hi" for m
    using no_block_between_desc[of st "[]" as hi m] that by auto
  then show ?case using Nil by (cases fuel) (auto simp: prev_spec_def)
next
  case (snoc c cs)
  obtain f where f: "fuel = Suc f" using snoc.prems(3) by (cases fuel) auto
  have c: "c \<in> set ((cs @ [c]) @ as)" "c \<noteq> 0" using snoc.prems(1) by (auto simp: ht_inv_def)
  let ?lo = "key_of st c * BOTTOM_SZ"
  have "chain (\<lambda>b. desc_link (bi_mem st b)) (GC_all_bottom_indices_end st) (rev as @ c # rev cs) 0"
    using snoc.prems(1) by (simp add: ht_inv_def)
  then have desc: "desc_link (bi_mem st c) = (if cs = [] then 0 else last cs)"
    using chain_nxt_at by (fastforce simp: hd_rev)
  have skip: "int ?lo + j \<le> hi" "\<And>m. int ?lo + j < int m \<Longrightarrow> int m \<le> hi \<Longrightarrow> \<not> starts_block st m"
  proof -
    show "int ?lo + j \<le> hi" using snoc.prems(5) by auto
    fix m assume m: "int ?lo + j < int m" "int m \<le> hi"
    then have "j = int BOTTOM_SZ - 1" using snoc.prems(5) by auto
    then have "?lo + BOTTOM_SZ \<le> m" using m(1) by linarith
    then have "(key_of st c + 1) * BOTTOM_SZ \<le> m" by simp
    then show "\<not> starts_block st m"
      using no_block_between_desc[OF snoc.prems(1,4) m(2)] by auto
  qed
  have idx: "pidx_spec (starts_block st) ?lo (int ?lo + j) (prev_in_index (BOTTOM_SZ + 1) st c j)"
    by (rule prev_in_index_ok[OF snoc.prems(1) ok c(1)]) (use snoc.prems(6,7) in auto)
  show ?case
  proof (cases "\<exists>x. prev_in_index (BOTTOM_SZ + 1) st c j = Ret (Some x)")
    case True
    then obtain x where x: "prev_in_index (BOTTOM_SZ + 1) st c j = Ret (Some x)" by blast
    then have "prev_spec (starts_block st) (int ?lo + j) x" using idx by (auto simp: pidx_spec_def)
    then have "prev_spec (starts_block st) hi x" by (rule prev_spec_skip) (use skip in auto)
    then show ?thesis using x f c(2) by simp
  next
    case False
    then have none: "prev_in_index (BOTTOM_SZ + 1) st c j = Ret None"
      and no: "\<And>m. ?lo \<le> m \<Longrightarrow> int m \<le> int ?lo + j \<Longrightarrow> \<not> starts_block st m"
      using idx by (auto simp: pidx_spec_def)
    have sorted: "\<forall>d \<in> set as. key_of st c < key_of st d" "\<forall>d \<in> set cs. key_of st d < key_of st c"
      using snoc.prems(1) by (auto simp: ht_inv_def sorted_wrt_append)
    have "\<exists>r. prev_block_loop f st (if cs = [] then 0 else last cs) (int BOTTOM_SZ - 1) = Ret r
        \<and> prev_spec (starts_block st) (int ?lo - 1) r"
    proof (rule snoc.IH[of "c # as"])
      show "\<forall>a \<in> set (c # as). int ?lo - 1 < int (key_of st a * BOTTOM_SZ)"
      proof
        fix a assume "a \<in> set (c # as)"
        then have "?lo \<le> key_of st a * BOTTOM_SZ" using sorted(1) by (intro mult_le_mono1) auto
        then show "int ?lo - 1 < int (key_of st a * BOTTOM_SZ)" by linarith
      qed
      assume "cs \<noteq> []"
      then have "key_of st (last cs) + 1 \<le> key_of st c" using sorted(2) by (simp add: Suc_leI)
      then have "(key_of st (last cs) + 1) * BOTTOM_SZ \<le> ?lo" by (rule mult_le_mono1)
      then have "int (key_of st (last cs) * BOTTOM_SZ) + (int BOTTOM_SZ - 1) \<le> int ?lo - 1"
        by (simp add: algebra_simps flip: of_nat_mult of_nat_add)
      then show "int ?lo - 1 = int (key_of st (last cs) * BOTTOM_SZ) + (int BOTTOM_SZ - 1)
          \<or> int BOTTOM_SZ - 1 = int BOTTOM_SZ - 1 \<and> int (key_of st (last cs) * BOTTOM_SZ) + (int BOTTOM_SZ - 1) \<le> int ?lo - 1"
        by blast
    qed (use snoc.prems f in \<open>auto simp: gc_consts\<close>)
    then obtain r where r: "prev_block_loop f st (if cs = [] then 0 else last cs) (int BOTTOM_SZ - 1) = Ret r"
      "prev_spec (starts_block st) (int ?lo - 1) r" by blast
    have "int ?lo - 1 \<le> hi" using skip(1) snoc.prems(6) by linarith
    then have "prev_spec (starts_block st) hi r"
    proof (rule prev_spec_skip[OF r(2)])
      fix m assume "int ?lo - 1 < int m" "int m \<le> hi"
      then show "\<not> starts_block st m" using no[of m] skip(2)[of m] by (cases "int m \<le> int ?lo + j") linarith+
    qed
    then show ?thesis using none r f c(2) desc by (simp split del: if_split)
  qed
qed

lemma desc_position_loop_chain:
  assumes "chain (\<lambda>b. desc_link (bi_mem st b)) p (rev as @ rev cs) 0" "length (as @ cs) < fuel"
    and "\<forall>b \<in> set as. hi < key_of st b" "cs \<noteq> [] \<Longrightarrow> \<not> hi < key_of st (last cs)"
  shows "desc_position_loop fuel st hi p = Ret (if cs = [] then 0 else last cs)"
  using assms
proof (induction as arbitrary: p fuel rule: rev_induct)
  case Nil
  then show ?case by (cases fuel; cases cs rule: rev_cases) auto
next
  case (snoc a as)
  then show ?case by (cases fuel) auto
qed

lemma GC_prev_block_spec:
  assumes ht: "ht_inv st bs" and ok: "hdrs_ok st"
  shows "\<exists>r. GC_prev_block st h = Ret r \<and> prev_spec (starts_block st) (int (h div BLK)) r"
proof -
  obtain cs as where bs: "bs = cs @ as" and cs: "\<forall>c \<in> set cs. key_of st c < hi_of h + 1"
    and as: "\<forall>a \<in> set as. hi_of h + 1 \<le> key_of st a"
    by (rule split_at_key[OF ht]) (rule that)
  have len: "length (as @ cs) < BI_FUEL" "length cs < BI_FUEL" using bs_length[OF ht] bs by simp_all
  have lo: "lo_of h < BOTTOM_SZ" by simp
  have passed: "\<forall>a \<in> set as. int (h div BLK) < int (key_of st a * BOTTOM_SZ)"
  proof
    fix a assume "a \<in> set as"
    then have "(hi_of h + 1) * BOTTOM_SZ \<le> key_of st a * BOTTOM_SZ" using as by (intro mult_le_mono1) auto
    moreover have "(hi_of h + 1) * BOTTOM_SZ = hi_of h * BOTTOM_SZ + BOTTOM_SZ" by simp
    ultimately have "h div BLK < key_of st a * BOTTOM_SZ" unfolding block_number_split[of h] using lo by linarith
    then show "int (h div BLK) < int (key_of st a * BOTTOM_SZ)" by (simp only: of_nat_less_iff)
  qed
  note loop = prev_block_loop_ok[OF ht[unfolded bs] ok len(2) passed]
  have B: "0 < BOTTOM_SZ" by (simp add: gc_consts)
  show ?thesis
  proof (cases "has_index st bs h")
    case True
    then obtain b where b: "b \<in> set bs" "key_of st b = hi_of h" by (auto simp: has_index_def)
    then have bcs: "b \<in> set cs" using bs as by auto
    have "sorted_wrt (<) (map (key_of st) cs)" using ht bs by (simp add: ht_inv_def sorted_wrt_append)
    then have last: "cs \<noteq> []" "last cs = b"
      using bcs cs b(2) by (cases cs rule: rev_cases; fastforce simp: sorted_wrt_append)+
    have "b \<noteq> GC_all_nils st" using ht b(1) by (auto simp: ht_inv_def)
    then have "GC_prev_block st h = prev_block_loop BI_FUEL st b (int (lo_of h))"
      by (simp add: GC_prev_block_def GET_BI_found[OF ht b])
    moreover have "int (h div BLK) = int (key_of st b * BOTTOM_SZ) + int (lo_of h)"
      unfolding block_number_split[of h] b(2) by simp
    ultimately show ?thesis
      using loop[of "int (lo_of h)"] last lo by simp
  next
    case False
    then have absent: "hi_of h \<notin> key_of st ` set bs" by (simp add: has_index_def)
    then have less: "key_of st c < hi_of h" if "c \<in> set cs" for c
      using cs that bs by (metis Suc_eq_plus1 Un_iff image_eqI less_SucE set_append)
    have "desc_position_loop BI_FUEL st (hi_of h) (GC_all_bottom_indices_end st) = Ret (if cs = [] then 0 else last cs)"
    proof (rule desc_position_loop_chain)
      show "cs \<noteq> [] \<Longrightarrow> \<not> hi_of h < key_of st (last cs)" using less[of "last cs"] by auto
    qed (use ht bs len as in \<open>auto simp: ht_inv_def\<close>)
    then have "GC_prev_block st h = prev_block_loop BI_FUEL st (if cs = [] then 0 else last cs) (int BOTTOM_SZ - 1)"
      by (simp add: GC_prev_block_def GET_BI_absent[OF ht absent] split del: if_split)
    moreover have "int (key_of st (last cs) * BOTTOM_SZ) + (int BOTTOM_SZ - 1) \<le> int (h div BLK)" if "cs \<noteq> []"
    proof -
      have "(key_of st (last cs) + 1) * BOTTOM_SZ \<le> hi_of h * BOTTOM_SZ"
        using less[of "last cs"] that by (intro mult_le_mono1) simp
      then have "key_of st (last cs) * BOTTOM_SZ + BOTTOM_SZ \<le> h div BLK"
        unfolding block_number_split[of h] by simp
      then show ?thesis by linarith
    qed
    ultimately show ?thesis
      using loop[of "int BOTTOM_SZ - 1"] B by simp
  qed
qed

text \<open>
  C19: \<open>GC_prev_block\<close> returns the last block at or before \<open>h\<close> that has a header, following the
  forwarding counts backwards over large objects, and null when there is none.
\<close>

theorem GC_prev_block_correct:
  assumes ht: "ht_inv st bs" and ok: "hdrs_ok st"
  shows "\<exists>r. GC_prev_block st h = Ret r \<and> prev_spec (starts_block st) (int (h div BLK)) r"
  by (rule GC_prev_block_spec[OF assms])

section \<open>Visiting all blocks\<close>

text \<open>The blocks in use with numbers from \<open>lo\<close> up to \<open>hi\<close> (exclusive), last one first.\<close>

definition blocks_desc :: "hdr_state \<Rightarrow> nat \<Rightarrow> nat \<Rightarrow> nat list" where
  "blocks_desc st lo hi = map (\<lambda>n. n * BLK) (rev (filter (block_in_use st) [lo ..< hi]))"

lemma blocks_desc_skip:
  assumes "lo \<le> a" "a \<le> b" "\<And>m. a \<le> m \<Longrightarrow> m < b \<Longrightarrow> \<not> block_in_use st m"
  shows "blocks_desc st lo b = blocks_desc st lo a"
proof -
  have "[lo ..< b] = [lo ..< a] @ [a ..< b]" using assms(1,2) by (metis le_Suc_ex upt_add_eq_append)
  moreover have "filter (block_in_use st) [a ..< b] = []" using assms(3) by (simp add: filter_empty_conv)
  ultimately show ?thesis by (simp add: blocks_desc_def)
qed

lemma apply_in_index_ok:
  assumes ht: "ht_inv st bs" and ok: "hdrs_ok st" and b: "b \<in> set bs"
    and "nat (j + 1) < fuel" "j < int BOTTOM_SZ"
  shows "apply_in_index fuel st fn b j cd =
     Ret (fold fn (blocks_desc st (key_of st b * BOTTOM_SZ) (key_of st b * BOTTOM_SZ + nat (j + 1))) cd)"
  using assms(4,5)
proof (induction fuel arbitrary: j cd)
  case (Suc fuel)
  let ?lo = "key_of st b * BOTTOM_SZ"
  show ?case
  proof (cases "j \<ge> 0")
    case False
    then show ?thesis by (simp add: blocks_desc_def)
  next
    case j: True
    let ?n = "?lo + nat j" and ?h = "bi_index (bi_mem st b) (nat j)"
    have n: "?lo + nat (j + 1) = Suc ?n" using j by (simp add: nat_add_distrib)
    have H: "HDR st (?n * BLK) = ?h" by (rule HDR_by_index[OF ht b]) (use j Suc.prems in simp)
    show ?thesis
    proof (cases "?h \<le> MAX_JUMP")
      case True
      define d where "d = (if ?h \<noteq> 0 then int ?h else 1)"
      have d: "d > 0" by (simp add: d_def)
      have s: "\<not> starts_block st ?n" using True H by (simp add: starts_block_def)
      have no: "\<not> block_in_use st m" if "?lo + nat (j - d + 1) \<le> m" "m < Suc ?n" for m
      proof (cases "?h = 0")
        case True
        then have "d = 1" by (simp add: d_def)
        then have "m = ?n" using that j by simp
        with s show ?thesis by (simp add: block_in_use_def)
      next
        case False
        then have "d = int ?h" by (simp add: d_def)
        then have "?n < m + HDR st (?n * BLK)" using that j unfolding H by linarith
        then show ?thesis using hdrs_ok_jump[OF ok s, of m] that(2) by (simp add: block_in_use_def)
      qed
      have "apply_in_index (Suc fuel) st fn b j cd = apply_in_index fuel st fn b (j - d) cd"
        using True j by (simp add: Let_def d_def IS_FORWARDING_ADDR_OR_NIL_def)
      also have "\<dots> = Ret (fold fn (blocks_desc st ?lo (?lo + nat (j - d + 1))) cd)"
        by (rule Suc.IH) (use Suc.prems d j in auto)
      also have "blocks_desc st ?lo (?lo + nat (j - d + 1)) = blocks_desc st ?lo (Suc ?n)"
        by (rule blocks_desc_skip[symmetric]) (use no d j in auto)
      finally show ?thesis unfolding n .
    next
      case False
      then have s: "starts_block st ?n" by (simp add: starts_block_def H)
      then have blk: "hb_block (hdr_mem st ?h) = ?n * BLK" using ok unfolding hdrs_ok_def H[symmetric] by blast
      let ?cd = "if \<not> HBLK_IS_FREE (hdr_mem st ?h) then fn (?n * BLK) cd else cd"
      have "apply_in_index (Suc fuel) st fn b j cd = apply_in_index fuel st fn b (j - 1) ?cd"
        using False j blk by (simp add: Let_def IS_FORWARDING_ADDR_OR_NIL_def)
      also have "\<dots> = Ret (fold fn (blocks_desc st ?lo (?lo + nat (j - 1 + 1))) ?cd)"
        by (rule Suc.IH) (use Suc.prems j in auto)
      finally show ?thesis
        unfolding n using s H by (simp add: blocks_desc_def block_in_use_def)
    qed
  qed
qed simp

definition all_blocks :: "hdr_state \<Rightarrow> nat list \<Rightarrow> nat list" where
  "all_blocks st bs =
     concat (map (\<lambda>b. blocks_desc st (key_of st b * BOTTOM_SZ) ((key_of st b + 1) * BOTTOM_SZ)) bs)"

lemma apply_to_all_loop_ok:
  assumes ht: "ht_inv st bs" and ok: "hdrs_ok st"
    and "chain (\<lambda>b. asc_link (bi_mem st b)) p cs 0" "set cs \<subseteq> set bs" "length cs < fuel"
  shows "apply_to_all_loop fuel st fn p cd = Ret (fold fn (all_blocks st cs) cd)"
  using assms(3-5)
proof (induction cs arbitrary: p fuel cd)
  case Nil
  then show ?case by (cases fuel) (auto simp: all_blocks_def)
next
  case (Cons c cs)
  then obtain f where f: "fuel = Suc f" by (cases fuel) auto
  have "apply_in_index (BOTTOM_SZ + 1) st fn c (int BOTTOM_SZ - 1) cd =
      Ret (fold fn (blocks_desc st (key_of st c * BOTTOM_SZ) (key_of st c * BOTTOM_SZ + nat (int BOTTOM_SZ - 1 + 1))) cd)"
    by (rule apply_in_index_ok[OF ht ok]) (use Cons.prems in auto)
  then show ?case using Cons f by (simp add: all_blocks_def add.commute)
qed

lemma set_blocks_desc: "set (blocks_desc st lo hi) = {n * BLK |n. lo \<le> n \<and> n < hi \<and> block_in_use st n}"
  by (auto simp: blocks_desc_def)

lemma all_blocks_set:
  assumes ht: "ht_inv st bs"
  shows "set (all_blocks st bs) = {n * BLK |n. block_in_use st n}"
proof -
  have B: "BOTTOM_SZ > 0" by (simp add: gc_consts)
  have "\<exists>b \<in> set bs. key_of st b * BOTTOM_SZ \<le> n \<and> n < (key_of st b + 1) * BOTTOM_SZ" if "block_in_use st n" for n
  proof -
    obtain b where "b \<in> set bs" "key_of st b = n div BOTTOM_SZ"
      using starts_block_key[OF ht, of n] \<open>block_in_use st n\<close> by (auto simp: block_in_use_def)
    then show ?thesis using dividend_less_div_times[OF B, of n] by (intro bexI[of _ b]) simp_all
  qed
  then show ?thesis unfolding all_blocks_def by (auto simp: set_blocks_desc; blast)
qed

lemma distinct_all_blocks:
  assumes "sorted_wrt (<) (map (key_of st) bs)"
  shows "distinct (all_blocks st bs)"
  using assms
proof (induction bs)
  case (Cons b bs)
  have "set (blocks_desc st (key_of st b * BOTTOM_SZ) ((key_of st b + 1) * BOTTOM_SZ)) \<inter>
      set (blocks_desc st (key_of st c * BOTTOM_SZ) ((key_of st c + 1) * BOTTOM_SZ)) = {}" if "c \<in> set bs" for c
  proof -
    have "(key_of st b + 1) * BOTTOM_SZ \<le> key_of st c * BOTTOM_SZ"
      using Cons.prems that by (intro mult_le_mono1) auto
    then show ?thesis by (auto simp: set_blocks_desc BLK_def)
  qed
  moreover have "distinct (blocks_desc st lo hi)" for lo hi
    by (auto simp: blocks_desc_def distinct_map inj_on_def BLK_def)
  ultimately show ?case using Cons by (auto simp: all_blocks_def)
qed (simp add: all_blocks_def)

text \<open>
  C20: \<open>GC_apply_to_all_blocks\<close> terminates and applies the callback to every block that is in
  use exactly once, and to nothing else.
\<close>

theorem GC_apply_to_all_blocks_correct:
  assumes ht: "ht_inv st bs" and ok: "hdrs_ok st"
  shows "\<exists>xs. GC_apply_to_all_blocks st fn client_data = Ret (fold fn xs client_data)
     \<and> distinct xs \<and> set xs = {n * BLK |n. block_in_use st n}"
proof (intro exI conjI)
  show "GC_apply_to_all_blocks st fn client_data = Ret (fold fn (all_blocks st bs) client_data)"
    unfolding GC_apply_to_all_blocks_def
    by (rule apply_to_all_loop_ok[OF ht ok]) (use ht bs_length[OF ht] in \<open>simp_all add: ht_inv_def\<close>)
  show "distinct (all_blocks st bs)" using ht by (intro distinct_all_blocks) (simp add: ht_inv_def)
  show "set (all_blocks st bs) = {n * BLK |n. block_in_use st n}" by (rule all_blocks_set[OF ht])
qed

section \<open>The example\<close>

lemma hdr_ex_hdrs: "hdr_mem hdr_ex 200000 = hdr_of 20480 8192 0" "hdr_mem hdr_ex 200200 = hdr_of 32768 8192 FREE_BLK"
  by (simp_all add: hdr_ex_def)

lemma hdr_ex_starts: "starts_block hdr_ex n \<longleftrightarrow> n = 5 \<or> n = 8" "block_in_use hdr_ex n \<longleftrightarrow> n = 5"
proof -
  show s: "starts_block hdr_ex n \<longleftrightarrow> n = 5 \<or> n = 8" for n
    unfolding starts_block_def hdr_ex_HDR by (simp add: gc_consts)
  have "HBLK_IS_FREE (hdr_of b sz 0) = False" "HBLK_IS_FREE (hdr_of b sz FREE_BLK) = True" for b sz
    by (simp_all add: HBLK_IS_FREE_def hdr_of_def FREE_BLK_def)
  then show "block_in_use hdr_ex n \<longleftrightarrow> n = 5"
    unfolding block_in_use_def s
    by (cases "n = 5"; cases "n = 8") (simp_all add: hdr_ex_HDR hdr_ex_hdrs BLK_def)
qed

lemma hdr_ex_ok: "hdrs_ok hdr_ex"
  unfolding hdrs_ok_def hdr_ex_starts
proof (intro conjI allI impI)
  fix n :: nat assume "n = 5 \<or> n = 8"
  then show "hb_block (hdr_mem hdr_ex (HDR hdr_ex (n * BLK))) = n * BLK"
    by (elim disjE) (simp_all add: hdr_ex_HDR hdr_ex_hdrs hdr_of_def BLK_def)
next
  fix n :: nat assume "(n = 5 \<or> n = 8) \<and> n \<noteq> 5"
  then have n: "n = 8" by blast
  have sz: "hb_sz (hdr_mem hdr_ex (HDR hdr_ex (n * BLK))) = 2 * BLK" "0 < BLK"
    unfolding n by (simp_all add: hdr_ex_HDR hdr_ex_hdrs hdr_of_def BLK_def)
  show "BLK \<le> hb_sz (hdr_mem hdr_ex (HDR hdr_ex (n * BLK)))" unfolding sz by simp
  fix m assume m: "n < m \<and> m < n + hb_sz (hdr_mem hdr_ex (HDR hdr_ex (n * BLK))) div BLK"
  then show "\<not> (m = 5 \<or> m = 8)" unfolding sz(1) using n by linarith
next
  fix n m :: nat assume nm: "\<not> (n = 5 \<or> n = 8) \<and> n < m + HDR hdr_ex (n * BLK) \<and> m \<le> n"
  have "n * BLK div 4096 = n" by (simp add: BLK_def)
  then have "n = 6 \<and> m = 6" using nm unfolding hdr_ex_HDR by (simp split: if_splits)
  then show "\<not> (m = 5 \<or> m = 8)" by simp
qed

theorem GC_next_block_correct_witness:
  "GC_next_block hdr_ex 24576 True = Ret 32768 \<and> GC_next_block hdr_ex 24576 False = Ret 0"
proof -
  obtain r s where r: "GC_next_block hdr_ex 24576 True = Ret r" "next_spec (wanted hdr_ex True) (24576 div BLK) r"
    and s: "GC_next_block hdr_ex 24576 False = Ret s" "next_spec (wanted hdr_ex False) (24576 div BLK) s"
    using GC_next_block_correct[OF hdr_ex_ht hdr_ex_ok] by metis
  have "r = 32768" using r(2) by (auto simp: next_spec_def wanted_def hdr_ex_starts BLK_def dest: spec[of _ 8])
  moreover have "s = 0" using s(2) by (auto simp: next_spec_def wanted_def hdr_ex_starts BLK_def)
  ultimately show ?thesis using r s by simp
qed

theorem GC_prev_block_correct_witness:
  "GC_prev_block hdr_ex 28672 = Ret 20480"
proof -
  obtain r where r: "GC_prev_block hdr_ex 28672 = Ret r" "prev_spec (starts_block hdr_ex) (int (28672 div BLK)) r"
    using GC_prev_block_correct[OF hdr_ex_ht hdr_ex_ok] by blast
  have "r = 20480" using r(2) by (auto simp: prev_spec_def hdr_ex_starts BLK_def dest: spec[of _ 5])
  then show ?thesis using r by simp
qed

theorem GC_apply_to_all_blocks_correct_witness:
  "GC_apply_to_all_blocks hdr_ex (#) [] = Ret [20480]"
proof -
  obtain xs where xs: "GC_apply_to_all_blocks hdr_ex (#) [] = Ret (fold (#) xs [])" "distinct xs"
    "set xs = {n * BLK |n. block_in_use hdr_ex n}"
    using GC_apply_to_all_blocks_correct[OF hdr_ex_ht hdr_ex_ok, of "(#)" "[]"] by blast
  have "set xs = {20480}" unfolding xs(3) by (auto simp: hdr_ex_starts BLK_def)
  moreover from this have "length xs = 1" using xs(2) distinct_card by fastforce
  ultimately have "xs = [20480]" by (cases xs) auto
  then show ?thesis using xs(1) by simp
qed

end
