(* ===== verification/Black_List.thy ===== *)
theory Black_List
  imports Header_Table
begin

text \<open>
  The black lists of \<^verbatim>\<open>blacklst.c\<close>: hash tables of the heap blocks that false pointers refer
  to, one pair (current and previous collection) for pointers to the beginning of an object
  and one for arbitrary interior pointers, and the query the block allocator asks them.
\<close>

section \<open>State\<close>

definition LOG_PHT_ENTRIES :: nat where [gc_consts]: "LOG_PHT_ENTRIES = 18"
definition PHT_ENTRIES :: nat where [gc_consts]: "PHT_ENTRIES = 2 ^ LOG_PHT_ENTRIES"
definition PHT_SIZE :: nat where [gc_consts]:
  "PHT_SIZE = (if PHT_ENTRIES > 64 then PHT_ENTRIES div 64 else 1)"

type_synonym page_hash_table = "nat \<Rightarrow> 64 word"

text \<open>The tables are reached through pointers, which \<open>GC_promote_black_lists\<close> exchanges.\<close>

record bl_state =
  bl_mem :: "nat \<Rightarrow> page_hash_table"
  GC_old_normal_bl :: nat
  GC_incomplete_normal_bl :: nat
  GC_old_stack_bl :: nat
  GC_incomplete_stack_bl :: nat
  GC_black_list_spacing :: nat
  GC_all_interior_pointers :: bool
  GC_modws_valid_offsets :: "nat \<Rightarrow> bool"
  GC_heap_sects :: "(nat \<times> nat) list"   \<comment> \<open>\<open>hs_start\<close> and \<open>hs_bytes\<close>\<close>
  GC_heapsize :: nat
  bl_hdrs :: hdr_state

definition PHT_HASH :: "nat \<Rightarrow> nat" where
  "PHT_HASH p = p div BLK mod PHT_ENTRIES"

definition get_pht_entry_from_index :: "page_hash_table \<Rightarrow> nat \<Rightarrow> bool" where
  "get_pht_entry_from_index bl index = array_bit bl index"

definition set_pht_entry_from_index :: "page_hash_table \<Rightarrow> nat \<Rightarrow> page_hash_table" where
  "set_pht_entry_from_index bl index = array_set_bit bl index"

section \<open>Operations\<close>

definition zeroed :: "page_hash_table \<Rightarrow> page_hash_table" where
  "zeroed bl = (\<lambda>i. if i < PHT_SIZE then 0 else bl i)"

definition GC_clear_bl :: "bl_state \<Rightarrow> nat \<Rightarrow> bl_state" where
  "GC_clear_bl st bl = st\<lparr>bl_mem := (bl_mem st)(bl := zeroed (bl_mem st bl))\<rparr>"

definition GC_copy_bl :: "bl_state \<Rightarrow> nat \<Rightarrow> nat \<Rightarrow> bl_state" where
  "GC_copy_bl st old dest =
     st\<lparr>bl_mem := (bl_mem st)(dest := (\<lambda>i. if i < PHT_SIZE then bl_mem st old i else bl_mem st dest i))\<rparr>"

definition bl_alloc :: "bl_state \<Rightarrow> nat \<times> bl_state" where
  "bl_alloc st = (case GC_scratch_alloc (bl_hdrs st) (PHT_SIZE * 8) of (r, h) \<Rightarrow> (r, st\<lparr>bl_hdrs := h\<rparr>))"

definition GC_bl_init_no_interiors :: "bl_state \<Rightarrow> bl_state outcome" where
  "GC_bl_init_no_interiors st =
     (if GC_incomplete_normal_bl st = 0 then
        case bl_alloc st of (a, st) \<Rightarrow>
        let st = st\<lparr>GC_old_normal_bl := a\<rparr>
        in case bl_alloc st of (b, st) \<Rightarrow>
        let st = st\<lparr>GC_incomplete_normal_bl := b\<rparr>
        in if a = 0 \<or> b = 0 then Abort ''Insufficient memory for black list''
           else Ret (GC_clear_bl (GC_clear_bl st a) b)
      else Ret st)"

definition GC_bl_init :: "bl_state \<Rightarrow> bl_state outcome" where
  "GC_bl_init st =
     (let st = st\<lparr>GC_black_list_spacing := 16 * BLK\<rparr>
      in obind (if \<not> GC_all_interior_pointers st then GC_bl_init_no_interiors st else Ret st) (\<lambda>st.
           case bl_alloc st of (a, st) \<Rightarrow>
           let st = st\<lparr>GC_old_stack_bl := a\<rparr>
           in case bl_alloc st of (b, st) \<Rightarrow>
           let st = st\<lparr>GC_incomplete_stack_bl := b\<rparr>
           in if a = 0 \<or> b = 0 then Abort ''Insufficient memory for black list''
              else Ret (GC_clear_bl (GC_clear_bl st a) b)))"

text \<open>
  \<open>for (h = start; h < endp1; h++)\<close>. The distance from \<open>start\<close> to \<open>endp1\<close>, which is computed modulo
  \<open>2 ^ 64\<close>, is a multiple of the block size, so \<open>h\<close> stops at \<open>endp1\<close> and does not wrap around itself.
\<close>

function number_listed_loop :: "bl_state \<Rightarrow> nat \<Rightarrow> nat \<Rightarrow> nat \<Rightarrow> nat" where
  "number_listed_loop st h endp1 result =
     (if h < endp1 then
        number_listed_loop st (h + BLK) endp1
          (if get_pht_entry_from_index (bl_mem st (GC_old_stack_bl st)) (PHT_HASH h)
           then result + 1 else result)
      else result)"
  by pat_completeness auto
termination
  by (relation "measure (\<lambda>(st, h, e, r). e - h)") (auto simp: gc_consts)

declare number_listed_loop.simps [simp del]

definition GC_number_stack_black_listed :: "bl_state \<Rightarrow> nat \<Rightarrow> nat \<Rightarrow> nat" where
  "GC_number_stack_black_listed st start endp1 = number_listed_loop st start endp1 0"

definition compute_total_stack_black_listed :: "bl_state \<Rightarrow> nat" where
  "compute_total_stack_black_listed st =
     fold (\<lambda>(start, bytes) total.
             (total + GC_number_stack_black_listed st start ((start + bytes div BLK * BLK) mod 2 ^ 64)) mod 2 ^ 64)
       (GC_heap_sects st) 0 * BLK mod 2 ^ 64"

text \<open>\<open>GC_promote_black_lists\<close>: exchange the tables, then adjust the spacing estimate.\<close>

definition promote_tables :: "bl_state \<Rightarrow> bl_state" where
  "promote_tables st =
     (let very_old_normal_bl = GC_old_normal_bl st;
          very_old_stack_bl = GC_old_stack_bl st;
          st = st\<lparr>GC_old_normal_bl := GC_incomplete_normal_bl st\<rparr>;
          st = st\<lparr>GC_old_stack_bl := GC_incomplete_stack_bl st\<rparr>;
          st = (if \<not> GC_all_interior_pointers st then GC_clear_bl st very_old_normal_bl else st);
          st = GC_clear_bl st very_old_stack_bl;
          st = st\<lparr>GC_incomplete_normal_bl := very_old_normal_bl\<rparr>
      in st\<lparr>GC_incomplete_stack_bl := very_old_stack_bl\<rparr>)"

definition update_black_list_spacing :: "bl_state \<Rightarrow> bl_state" where
  "update_black_list_spacing st =
     (let total_stack_black_listed = compute_total_stack_black_listed st;
          st = (if total_stack_black_listed \<noteq> 0
                then st\<lparr>GC_black_list_spacing := BLK * (GC_heapsize st div total_stack_black_listed)\<rparr>
                else st);
          st = (if GC_black_list_spacing st < 3 * BLK then st\<lparr>GC_black_list_spacing := 3 * BLK\<rparr> else st)
      in if GC_black_list_spacing st > 2048 * BLK then st\<lparr>GC_black_list_spacing := 2048 * BLK\<rparr> else st)"

definition GC_promote_black_lists :: "bl_state \<Rightarrow> bl_state" where
  "GC_promote_black_lists st = update_black_list_spacing (promote_tables st)"

definition GC_unpromote_black_lists :: "bl_state \<Rightarrow> bl_state" where
  "GC_unpromote_black_lists st =
     (let st = (if \<not> GC_all_interior_pointers st
                then GC_copy_bl st (GC_old_normal_bl st) (GC_incomplete_normal_bl st) else st)
      in GC_copy_bl st (GC_old_stack_bl st) (GC_incomplete_stack_bl st))"

definition backlist_set_pht_entry_from_index :: "bl_state \<Rightarrow> nat \<Rightarrow> nat \<Rightarrow> bl_state" where
  "backlist_set_pht_entry_from_index st bl index =
     st\<lparr>bl_mem := (bl_mem st)(bl := set_pht_entry_from_index (bl_mem st bl) index)\<rparr>"

definition GC_add_to_black_list_normal :: "bl_state \<Rightarrow> nat \<Rightarrow> bl_state outcome" where
  "GC_add_to_black_list_normal st p =
     (if GC_modws_valid_offsets st (p mod 8) then
        obind (GC_find_header (bl_hdrs st) p) (\<lambda>hhdr.
          if hhdr = 0 \<or> get_pht_entry_from_index (bl_mem st (GC_old_normal_bl st)) (PHT_HASH p)
          then Ret (backlist_set_pht_entry_from_index st (GC_incomplete_normal_bl st) (PHT_HASH p))
          else Ret st)
      else Ret st)"

definition GC_add_to_black_list_stack :: "bl_state \<Rightarrow> nat \<Rightarrow> bl_state outcome" where
  "GC_add_to_black_list_stack st p =
     obind (GC_find_header (bl_hdrs st) p) (\<lambda>hhdr.
       if hhdr = 0 \<or> get_pht_entry_from_index (bl_mem st (GC_old_stack_bl st)) (PHT_HASH p)
       then Ret (backlist_set_pht_entry_from_index st (GC_incomplete_stack_bl st) (PHT_HASH p))
       else Ret st)"

text \<open>The loop of \<open>GC_is_black_listed\<close>; whole words of zero bits are skipped at once.\<close>

function is_black_listed_loop :: "bl_state \<Rightarrow> nat \<Rightarrow> nat \<Rightarrow> nat \<Rightarrow> nat \<Rightarrow> nat" where
  "is_black_listed_loop st h nblocks i index =
     (if bl_mem st (GC_old_stack_bl st) (index div 64) = 0
         \<and> bl_mem st (GC_incomplete_stack_bl st) (index div 64) = 0 then
        let i = i + (64 - index mod 64)
        in if i \<ge> nblocks then 0
           else is_black_listed_loop st h nblocks i (PHT_HASH (h + i * BLK))
      else if get_pht_entry_from_index (bl_mem st (GC_old_stack_bl st)) index
              \<or> get_pht_entry_from_index (bl_mem st (GC_incomplete_stack_bl st)) index then
        h + (i + 1) * BLK
      else
        let i = i + 1
        in if i \<ge> nblocks then 0
           else is_black_listed_loop st h nblocks i (PHT_HASH (h + i * BLK)))"
  by pat_completeness auto
termination
proof (relation "measure (\<lambda>(st, h, n, i, index). n - i)", goal_cases)
  case (2 st h nblocks i index x)
  have "index mod 64 < 64" by simp
  with 2 show ?case by (simp del: mod_less_divisor)
qed auto

declare is_black_listed_loop.simps [simp del]

definition GC_is_black_listed :: "bl_state \<Rightarrow> nat \<Rightarrow> nat \<Rightarrow> nat" where
  "GC_is_black_listed st h len =
     (if \<not> GC_all_interior_pointers st
         \<and> (get_pht_entry_from_index (bl_mem st (GC_old_normal_bl st)) (PHT_HASH h)
            \<or> get_pht_entry_from_index (bl_mem st (GC_incomplete_normal_bl st)) (PHT_HASH h))
      then h + BLK
      else is_black_listed_loop st h (len div BLK) 0 (PHT_HASH h))"

section \<open>The query\<close>

definition stack_listed :: "bl_state \<Rightarrow> nat \<Rightarrow> bool" where
  "stack_listed st p \<longleftrightarrow> get_pht_entry_from_index (bl_mem st (GC_old_stack_bl st)) (PHT_HASH p)
     \<or> get_pht_entry_from_index (bl_mem st (GC_incomplete_stack_bl st)) (PHT_HASH p)"

definition normal_listed :: "bl_state \<Rightarrow> nat \<Rightarrow> bool" where
  "normal_listed st p \<longleftrightarrow> get_pht_entry_from_index (bl_mem st (GC_old_normal_bl st)) (PHT_HASH p)
     \<or> get_pht_entry_from_index (bl_mem st (GC_incomplete_normal_bl st)) (PHT_HASH p)"

text \<open>The reference: scan the blocks one by one.\<close>

definition first_listed :: "bl_state \<Rightarrow> nat \<Rightarrow> nat \<Rightarrow> nat \<Rightarrow> nat" where
  "first_listed st h i n =
     (case find (\<lambda>k. stack_listed st (h + k * BLK)) [i ..< n] of
        Some k \<Rightarrow> h + (k + 1) * BLK | None \<Rightarrow> 0)"

lemma first_listed_skip:
  assumes "i \<le> j" "\<And>k. i \<le> k \<Longrightarrow> k < j \<Longrightarrow> k < n \<Longrightarrow> \<not> stack_listed st (h + k * BLK)"
  shows "first_listed st h i n = (if n \<le> j then 0 else first_listed st h j n)"
proof -
  have app: "find P (xs @ ys) = find P ys" if "\<forall>x \<in> set xs. \<not> P x" for P :: "nat \<Rightarrow> bool" and xs ys
    using that by (induction xs) auto
  have skip: "find P ([i ..< m] @ ys) = find P ys" if "\<And>k. i \<le> k \<Longrightarrow> k < m \<Longrightarrow> \<not> P k" for P :: "nat \<Rightarrow> bool" and m ys
    by (rule app) (use that in auto)
  show ?thesis
  proof (cases "n \<le> j")
    case True
    then show ?thesis using skip[of n "\<lambda>k. stack_listed st (h + k * BLK)" "[]"] assms(2)
      by (simp add: first_listed_def)
  next
    case False
    then have "[i ..< n] = [i ..< j] @ [j ..< n]" using assms(1) by (metis le_Suc_ex linear upt_add_eq_append)
    then show ?thesis using False skip[of j "\<lambda>k. stack_listed st (h + k * BLK)" "[j ..< n]"] assms(2)
      by (simp add: first_listed_def)
  qed
qed

lemma PHT_HASH_same_word:
  assumes "d < 64 - PHT_HASH p mod 64"
  shows "PHT_HASH (p + d * BLK) div 64 = PHT_HASH p div 64"
proof -
  have B: "(p + d * BLK) div BLK = p div BLK + d" by (simp add: BLK_def)
  let ?x = "PHT_HASH p"
  have x: "?x < 262144" by (simp add: PHT_HASH_def gc_consts)
  have decomp: "?x = ?x div 64 * 64 + ?x mod 64" "?x mod 64 < 64" by simp_all
  have "?x div 64 < 4096" using x by (simp add: less_mult_imp_div_less)
  then have lt: "?x + d < 262144" using assms decomp by linarith
  have "PHT_HASH (p + d * BLK) = (?x + d) mod 262144"
    unfolding PHT_HASH_def B by (simp add: gc_consts mod_add_left_eq)
  then have eq: "PHT_HASH (p + d * BLK) = ?x div 64 * 64 + (?x mod 64 + d)"
    using lt decomp by simp
  have "?x mod 64 + d < 64" using assms by linarith
  then have "(?x div 64 * 64 + (?x mod 64 + d)) div 64 = ?x div 64" by (subst div_mult_self3) simp_all
  then show ?thesis unfolding eq .
qed

lemma is_black_listed_loop_correct:
  assumes "index = PHT_HASH (h + i * BLK)" "i < n" "n = max 1 nb"
  shows "is_black_listed_loop st h nb i index = first_listed st h i n"
  using assms
proof (induction st h nb i index rule: is_black_listed_loop.induct)
  case (1 st h nb i index)
  have n: "n = max 1 nb" "i < n" and idx: "index = PHT_HASH (h + i * BLK)" using "1.prems" by auto
  let ?zero = "bl_mem st (GC_old_stack_bl st) (index div 64) = 0
         \<and> bl_mem st (GC_incomplete_stack_bl st) (index div 64) = 0"
  have here: "stack_listed st (h + i * BLK) \<longleftrightarrow> get_pht_entry_from_index (bl_mem st (GC_old_stack_bl st)) index
              \<or> get_pht_entry_from_index (bl_mem st (GC_incomplete_stack_bl st)) index"
    by (simp add: stack_listed_def idx)
  consider (easy) ?zero | (hit) "\<not> ?zero" "stack_listed st (h + i * BLK)"
    | (miss) "\<not> ?zero" "\<not> stack_listed st (h + i * BLK)" by blast
  then show ?case
  proof cases
    case easy
    let ?j = "i + (64 - index mod 64)"
    have no: "\<not> stack_listed st (h + k * BLK)" if "i \<le> k" "k < ?j" for k
    proof -
      have "k - i < 64 - PHT_HASH (h + i * BLK) mod 64" using that idx by simp
      then have "PHT_HASH (h + i * BLK + (k - i) * BLK) div 64 = index div 64"
        unfolding idx by (rule PHT_HASH_same_word)
      moreover have "h + i * BLK + (k - i) * BLK = h + k * BLK"
        using that(1) by (simp add: diff_mult_distrib)
      ultimately show ?thesis
        using easy by (simp add: stack_listed_def get_pht_entry_from_index_def array_word_zero)
    qed
    then have "first_listed st h i n = (if n \<le> ?j then 0 else first_listed st h ?j n)"
      by (intro first_listed_skip) auto
    moreover have "n \<le> ?j \<longleftrightarrow> nb \<le> ?j" using n by auto
    ultimately show ?thesis
      using easy "1.IH"(1)[OF easy refl] n by (subst is_black_listed_loop.simps) (auto simp: Let_def)
  next
    case hit
    then have "first_listed st h i n = h + (i + 1) * BLK"
      using n(2) by (simp add: first_listed_def upt_conv_Cons)
    then show ?thesis using hit here by (subst is_black_listed_loop.simps) auto
  next
    case miss
    have "first_listed st h i n = (if n \<le> i + 1 then 0 else first_listed st h (i + 1) n)"
      by (intro first_listed_skip) (use miss(2) in \<open>auto simp: less_Suc_eq\<close>)
    moreover have "n \<le> i + 1 \<longleftrightarrow> nb \<le> i + 1" using n by auto
    ultimately show ?thesis
      using miss here "1.IH"(2)[OF miss(1) _ refl] n by (subst is_black_listed_loop.simps) (auto simp: Let_def)
  qed
qed

lemma GC_is_black_listed_spec:
  "GC_is_black_listed st h len =
     (if \<not> GC_all_interior_pointers st \<and> normal_listed st h then h + BLK
      else first_listed st h 0 (max 1 (len div BLK)))"
proof -
  have "is_black_listed_loop st h (len div BLK) 0 (PHT_HASH h) = first_listed st h 0 (max 1 (len div BLK))"
    by (rule is_black_listed_loop_correct) simp_all
  then show ?thesis by (simp add: GC_is_black_listed_def normal_listed_def)
qed

text \<open>
  C21: \<open>GC_is_black_listed\<close> returns the block after \<open>h\<close> when \<open>h\<close> itself is black listed for
  pointers to the beginning of objects (and interior pointers are not all recognised);
  otherwise the block after the first one of the range that is on a stack black list, and null
  when there is none: skipping a word of 64 zero bits at once changes nothing.
\<close>

theorem GC_is_black_listed_correct:
  "GC_is_black_listed st h len =
     (if \<not> GC_all_interior_pointers st \<and> normal_listed st h then h + BLK
      else first_listed st h 0 (max 1 (len div BLK)))"
  by (rule GC_is_black_listed_spec)

section \<open>Recording and promoting\<close>

definition bl_inv :: "bl_state \<Rightarrow> bool" where
  "bl_inv st \<longleftrightarrow>
     distinct [GC_old_normal_bl st, GC_incomplete_normal_bl st, GC_old_stack_bl st, GC_incomplete_stack_bl st]
     \<or> GC_all_interior_pointers st \<and> GC_old_normal_bl st = 0 \<and> GC_incomplete_normal_bl st = 0
       \<and> distinct [0, GC_old_stack_bl st, GC_incomplete_stack_bl st]"

lemma PHT_HASH_word: "PHT_HASH p div 64 < PHT_SIZE"
proof -
  have "PHT_HASH p < 262144" by (simp add: PHT_HASH_def gc_consts)
  then show ?thesis by (simp add: gc_consts less_mult_imp_div_less)
qed

lemma cleared_not_listed:
  "\<not> get_pht_entry_from_index (zeroed f) (PHT_HASH p)"
  by (simp add: zeroed_def get_pht_entry_from_index_def array_word_zero PHT_HASH_word)

lemma listed_cong:
  "bl' (PHT_HASH p div 64) = bl (PHT_HASH p div 64) \<Longrightarrow>
     get_pht_entry_from_index bl' (PHT_HASH p) = get_pht_entry_from_index bl (PHT_HASH p)"
  by (simp add: get_pht_entry_from_index_def array_bit_iff)

lemma update_spacing_fields:
  "bl_mem (update_black_list_spacing st) = bl_mem st"
  "GC_old_normal_bl (update_black_list_spacing st) = GC_old_normal_bl st"
  "GC_incomplete_normal_bl (update_black_list_spacing st) = GC_incomplete_normal_bl st"
  "GC_old_stack_bl (update_black_list_spacing st) = GC_old_stack_bl st"
  "GC_incomplete_stack_bl (update_black_list_spacing st) = GC_incomplete_stack_bl st"
  "GC_all_interior_pointers (update_black_list_spacing st) = GC_all_interior_pointers st"
  "3 * BLK \<le> GC_black_list_spacing (update_black_list_spacing st)"
  "GC_black_list_spacing (update_black_list_spacing st) \<le> 2048 * BLK"
  unfolding update_black_list_spacing_def by (simp_all add: Let_def BLK_def)

lemma clear_bl_same:
  "GC_old_normal_bl (GC_clear_bl st a) = GC_old_normal_bl st"
  "GC_incomplete_normal_bl (GC_clear_bl st a) = GC_incomplete_normal_bl st"
  "GC_old_stack_bl (GC_clear_bl st a) = GC_old_stack_bl st"
  "GC_incomplete_stack_bl (GC_clear_bl st a) = GC_incomplete_stack_bl st"
  "GC_all_interior_pointers (GC_clear_bl st a) = GC_all_interior_pointers st"
  "GC_black_list_spacing (GC_clear_bl st a) = GC_black_list_spacing st"
  "bl_hdrs (GC_clear_bl st a) = bl_hdrs st"
  "bl_mem (GC_clear_bl st a) = (bl_mem st)(a := zeroed (bl_mem st a))"
  by (simp_all add: GC_clear_bl_def)

lemma promote_fields:
  "GC_old_normal_bl (GC_promote_black_lists st) = GC_incomplete_normal_bl st"
  "GC_incomplete_normal_bl (GC_promote_black_lists st) = GC_old_normal_bl st"
  "GC_old_stack_bl (GC_promote_black_lists st) = GC_incomplete_stack_bl st"
  "GC_incomplete_stack_bl (GC_promote_black_lists st) = GC_old_stack_bl st"
  "GC_all_interior_pointers (GC_promote_black_lists st) = GC_all_interior_pointers st"
  "bl_mem (GC_promote_black_lists st) = (let m = (if GC_all_interior_pointers st then bl_mem st
       else (bl_mem st)(GC_old_normal_bl st := zeroed (bl_mem st (GC_old_normal_bl st))))
     in m(GC_old_stack_bl st := zeroed (m (GC_old_stack_bl st))))"
  unfolding GC_promote_black_lists_def update_spacing_fields promote_tables_def Let_def
  by (cases "GC_all_interior_pointers st"; (simp add: clear_bl_same; fail))+

text \<open>
  C23: \<open>GC_promote_black_lists\<close> exchanges the tables: those filled in this cycle become the old ones
  with their contents, and the previous old ones become the current ones, emptied (the normal ones
  only when they are in use). So a block is black listed afterwards exactly if it was recorded in the
  cycle that ends; the spacing estimate ends up between 3 blocks and \<open>MAXHINCR\<close> blocks.
\<close>

theorem GC_promote_black_lists_correct:
  assumes inv: "bl_inv st"
  shows "let st' = GC_promote_black_lists st in bl_inv st'
     \<and> GC_old_stack_bl st' = GC_incomplete_stack_bl st \<and> GC_incomplete_stack_bl st' = GC_old_stack_bl st
     \<and> GC_old_normal_bl st' = GC_incomplete_normal_bl st \<and> GC_incomplete_normal_bl st' = GC_old_normal_bl st
     \<and> bl_mem st' (GC_old_stack_bl st') = bl_mem st (GC_incomplete_stack_bl st)
     \<and> (\<forall>p. \<not> get_pht_entry_from_index (bl_mem st' (GC_incomplete_stack_bl st')) (PHT_HASH p))
     \<and> (\<forall>p. stack_listed st' p \<longleftrightarrow> get_pht_entry_from_index (bl_mem st (GC_incomplete_stack_bl st)) (PHT_HASH p))
     \<and> (\<not> GC_all_interior_pointers st \<longrightarrow>
          bl_mem st' (GC_old_normal_bl st') = bl_mem st (GC_incomplete_normal_bl st)
          \<and> (\<forall>p. \<not> get_pht_entry_from_index (bl_mem st' (GC_incomplete_normal_bl st')) (PHT_HASH p))
          \<and> (\<forall>p. normal_listed st' p \<longleftrightarrow> get_pht_entry_from_index (bl_mem st (GC_incomplete_normal_bl st)) (PHT_HASH p)))
     \<and> 3 * BLK \<le> GC_black_list_spacing st' \<and> GC_black_list_spacing st' \<le> 2048 * BLK"
proof -
  define st' where "st' = GC_promote_black_lists st"
  note f = promote_fields[of st, folded st'_def]
  have "bl_inv st'" using inv by (auto simp: bl_inv_def f)
  moreover have old: "bl_mem st' (GC_incomplete_stack_bl st) = bl_mem st (GC_incomplete_stack_bl st)"
    and new: "\<not> get_pht_entry_from_index (bl_mem st' (GC_old_stack_bl st)) (PHT_HASH p)" for p
    using inv by (auto simp: bl_inv_def f Let_def cleared_not_listed)
  moreover have "bl_mem st' (GC_incomplete_normal_bl st) = bl_mem st (GC_incomplete_normal_bl st)"
    and "\<not> get_pht_entry_from_index (bl_mem st' (GC_old_normal_bl st)) (PHT_HASH p)"
    if "\<not> GC_all_interior_pointers st" for p
    using inv that by (auto simp: bl_inv_def f Let_def cleared_not_listed)
  moreover have "3 * BLK \<le> GC_black_list_spacing st'" "GC_black_list_spacing st' \<le> 2048 * BLK"
    by (simp_all add: st'_def GC_promote_black_lists_def update_spacing_fields)
  ultimately show ?thesis unfolding st'_def[symmetric] Let_def f stack_listed_def normal_listed_def by simp
qed

lemma bl_put_listed:
  "get_pht_entry_from_index (set_pht_entry_from_index bl i) j \<longleftrightarrow> i = j \<or> get_pht_entry_from_index bl j"
  by (simp add: get_pht_entry_from_index_def set_pht_entry_from_index_def array_bit_set)

text \<open>
  C22: a block that a false pointer from the stack refers to (the collector has no header for
  it) is kept from the allocator from then on: every range containing the block is reported
  as black listed, and still after the lists were promoted once.
\<close>

theorem GC_add_to_black_list_stack_remembered:
  assumes inv: "bl_inv st" and ht: "ht_inv (bl_hdrs st) bs" and none: "HDR (bl_hdrs st) p = 0"
    and range: "h \<le> p" "p div BLK < h div BLK + len div BLK"
  shows "\<exists>st'. GC_add_to_black_list_stack st p = Ret st' \<and> bl_inv st'
     \<and> GC_is_black_listed st' h len \<noteq> 0 \<and> GC_is_black_listed (GC_promote_black_lists st') h len \<noteq> 0"
proof -
  let ?st = "backlist_set_pht_entry_from_index st (GC_incomplete_stack_bl st) (PHT_HASH p)"
  have add: "GC_add_to_black_list_stack st p = Ret ?st"
    using GC_find_header_HDR[OF ht, of p] none by (simp add: GC_add_to_black_list_stack_def)
  have inv': "bl_inv ?st" using inv by (simp add: bl_inv_def backlist_set_pht_entry_from_index_def)
  have inc: "get_pht_entry_from_index (bl_mem ?st (GC_incomplete_stack_bl ?st)) (PHT_HASH p)"
    by (simp add: backlist_set_pht_entry_from_index_def bl_put_listed)
  define k where "k = p div BLK - h div BLK"
  have k: "h div BLK + k = p div BLK" "k < len div BLK"
    using range div_le_mono[OF range(1), of BLK] by (simp_all add: k_def)
  have hash: "PHT_HASH (h + k * BLK) = PHT_HASH p"
    using k(1) by (simp add: PHT_HASH_def BLK_def add.commute)
  have hit: "GC_is_black_listed s h len \<noteq> 0" if "stack_listed s p" for s
  proof -
    have "stack_listed s (h + k * BLK)" using that hash by (simp add: stack_listed_def)
    then have "find (\<lambda>k. stack_listed s (h + k * BLK)) [0 ..< max 1 (len div BLK)] \<noteq> None"
      unfolding find_None_iff using k(2) by auto
    then have "first_listed s h 0 (max 1 (len div BLK)) \<noteq> 0"
      by (auto simp: first_listed_def BLK_def)
    then show ?thesis
      using is_black_listed_loop_correct[of "PHT_HASH h" h 0 "max 1 (len div BLK)" "len div BLK" s]
      by (simp add: GC_is_black_listed_def BLK_def)
  qed
  have "stack_listed ?st p" using inc by (simp add: stack_listed_def)
  moreover have "stack_listed (GC_promote_black_lists ?st) p"
    using inc inv' by (auto simp: bl_inv_def stack_listed_def promote_fields Let_def)
  ultimately show ?thesis using add inv' hit by blast
qed

section \<open>Counting\<close>

lemma number_listed_loop_correct:
  assumes "BLK dvd h"
  shows "number_listed_loop st h e r =
     r + card {b. h div BLK \<le> b \<and> b * BLK < e \<and> get_pht_entry_from_index (bl_mem st (GC_old_stack_bl st)) (PHT_HASH (b * BLK))}"
  using assms
proof (induction st h e r rule: number_listed_loop.induct)
  case (1 st h e r)
  let ?l = "\<lambda>b. get_pht_entry_from_index (bl_mem st (GC_old_stack_bl st)) (PHT_HASH (b * BLK))"
  let ?S = "\<lambda>h. {b. h div BLK \<le> b \<and> b * BLK < e \<and> ?l b}"
  have h: "h div BLK * BLK = h" using "1.prems" by simp
  have fin: "finite (?S h)" for h
    by (rule finite_subset[of _ "{..e}"]) (auto simp: BLK_def)
  show ?case
  proof (cases "h < e")
    case False
    have "?S h = {}"
    proof -
      have "\<not> b * BLK < e" if "h div BLK \<le> b" for b
        using that h False by (metis le_trans mult_le_mono1 not_le)
      then show ?thesis by auto
    qed
    then show ?thesis unfolding \<open>?S h = {}\<close> using False by (subst number_listed_loop.simps) simp
  next
    case True
    have suc: "(h + BLK) div BLK = h div BLK + 1" by (simp add: BLK_def)
    have S: "?S h = (if ?l (h div BLK) then insert (h div BLK) (?S (h + BLK)) else ?S (h + BLK))"
      unfolding suc using True h by (auto simp: Suc_le_eq) (metis le_neq_implies_less)+
    have notin: "h div BLK \<notin> ?S (h + BLK)" unfolding suc by simp
    have "card (?S h) = (if ?l (h div BLK) then 1 else 0) + card (?S (h + BLK))"
      unfolding S using card_insert_disjoint[OF fin notin] by simp
    moreover have "BLK dvd h + BLK" using "1.prems" by simp
    ultimately show ?thesis
      using "1.IH"[OF True] True by (subst number_listed_loop.simps) (simp add: h)
  qed
qed

text \<open>
  C24: when the heap sections begin at block boundaries, end below the end of the address space and
  are together smaller than it, the number of black listed bytes is the block size times the number of
  their blocks whose bucket is set in the old stack black list \<open>GC_old_stack_bl\<close>. (The comment above
  \<open>GC_number_stack_black_listed\<close> names \<open>GC_incomplete_stack_bl\<close> instead.)
\<close>

theorem compute_total_stack_black_listed_correct:
  assumes sects: "\<forall>(start, bytes) \<in> set (GC_heap_sects st). BLK dvd start \<and> start + bytes < 2 ^ 64"
    and total: "sum_list (map snd (GC_heap_sects st)) < 2 ^ 64"
  shows "compute_total_stack_black_listed st =
     (\<Sum>(start, bytes) \<leftarrow> GC_heap_sects st.
        card {b. start div BLK \<le> b \<and> b < start div BLK + bytes div BLK
                 \<and> get_pht_entry_from_index (bl_mem st (GC_old_stack_bl st)) (PHT_HASH (b * BLK))}) * BLK"
proof -
  let ?l = "\<lambda>b. get_pht_entry_from_index (bl_mem st (GC_old_stack_bl st)) (PHT_HASH (b * BLK))"
  define c where "c = (\<lambda>(s, n). card {b. s div BLK \<le> b \<and> b < s div BLK + n div BLK \<and> ?l b})"
  have one: "GC_number_stack_black_listed st s ((s + n div BLK * BLK) mod 2 ^ 64) = c (s, n)"
    if s: "BLK dvd s" "s + n < 2 ^ 64" for s n
  proof -
    have "s + n div BLK * BLK < 2 ^ 64" using s(2) div_times_less_eq_dividend[of n BLK] by linarith
    then have e: "(s + n div BLK * BLK) mod 2 ^ 64 = s + n div BLK * BLK" by simp
    obtain k where k: "s = BLK * k" using s(1) by (elim dvdE)
    then have "b * BLK < s + n div BLK * BLK \<longleftrightarrow> b < s div BLK + n div BLK" for b
      by (simp add: BLK_def) linarith
    then show ?thesis unfolding e
      using number_listed_loop_correct[OF s(1)] by (simp add: GC_number_stack_black_listed_def c_def)
  qed
  have le: "c (s, n) * BLK \<le> n" for s n
  proof -
    have "c (s, n) \<le> card {s div BLK ..< s div BLK + n div BLK}"
      unfolding c_def split by (rule card_mono) auto
    then have "c (s, n) * BLK \<le> n div BLK * BLK" by simp
    then show ?thesis using div_times_less_eq_dividend[of n BLK] by linarith
  qed
  have fold: "fold (\<lambda>(s, n) t. (t + GC_number_stack_black_listed st s ((s + n div BLK * BLK) mod 2 ^ 64)) mod 2 ^ 64) xs t =
      t + sum_list (map c xs) \<and> (t + sum_list (map c xs)) * BLK < 2 ^ 64"
    if "\<forall>(s, n) \<in> set xs. BLK dvd s \<and> s + n < 2 ^ 64" "t * BLK + sum_list (map snd xs) < 2 ^ 64" for xs t
    using that
  proof (induction xs arbitrary: t)
    case (Cons x xs)
    obtain s n where x: "x = (s, n)" by fastforce
    have t: "(t + c (s, n)) * BLK + sum_list (map snd xs) < 2 ^ 64"
      using Cons.prems(2) le[of s n] by (simp add: x add_mult_distrib)
    have "t + c (s, n) \<le> (t + c (s, n)) * BLK" by (simp add: BLK_def)
    then have "t + c (s, n) < 2 ^ 64" using t by linarith
    then have "(t + c (s, n)) mod 2 ^ 64 = t + c (s, n)" by simp
    then show ?case using Cons.IH[of "t + c (s, n)"] Cons.prems(1) t one[of s n] by (simp add: x add.assoc)
  qed simp
  from fold[OF sects, of 0] total show ?thesis
    unfolding compute_total_stack_black_listed_def by (simp add: c_def)
qed

section \<open>Initialisation\<close>

lemma sizeof_pht: "ROUNDUP_GRANULE_SIZE (PHT_SIZE * 8) = 32768"
  by (simp add: ROUNDUP_GRANULE_SIZE_small gc_consts)

lemma bl_alloc_fresh:
  assumes mem: "mem_inv L (bl_hdrs st) U" and alloc: "bl_alloc st = (r, st')" and r: "r \<noteq> 0"
  shows "r \<notin> U \<and> mem_inv L (bl_hdrs st') (U \<union> {r ..< r + 32768})"
proof -
  obtain h where h: "GC_scratch_alloc (bl_hdrs st) (PHT_SIZE * 8) = (r, h)" "st' = st\<lparr>bl_hdrs := h\<rparr>"
    using alloc by (auto simp: bl_alloc_def split: prod.splits)
  then have "fresh_or_null L U 32768 r h"
    using scratch_alloc_step(2)[OF mem _ _ h(1)] mem_inv_L[OF mem] by (simp add: sizeof_pht BLK_def)
  then show ?thesis using h r by (auto simp: fresh_or_null_def disjoint_iff)
qed

lemma bl_alloc_room:
  assumes mem: "mem_inv L (bl_hdrs st) U" and alloc: "bl_alloc st = (r, st')"
    and room: "n + 32768 \<le> scratch_room (bl_hdrs st)"
  shows "r \<noteq> 0 \<and> n \<le> scratch_room (bl_hdrs st')"
proof -
  obtain h where h: "GC_scratch_alloc (bl_hdrs st) (PHT_SIZE * 8) = (r, h)" "st' = st\<lparr>bl_hdrs := h\<rparr>"
    using alloc by (auto simp: bl_alloc_def split: prod.splits)
  then show ?thesis using scratch_alloc_room[OF mem _ _ h(1)] room by (simp add: sizeof_pht)
qed

lemma bl_alloc_same: "bl_alloc st = (r, st') \<Longrightarrow> \<exists>h. st' = st\<lparr>bl_hdrs := h\<rparr>"
  by (auto simp: bl_alloc_def split: prod.splits)

lemma bl_alloc_two:
  assumes mem: "mem_inv L (bl_hdrs st) U" and a: "bl_alloc st = (a, st1)" "a \<noteq> 0"
    and b: "bl_alloc st1' = (b, st2)" "b \<noteq> 0" and same: "bl_hdrs st1' = bl_hdrs st1"
  obtains V where "U \<subseteq> V" and "mem_inv L (bl_hdrs st2) V" and "a \<in> V" "b \<in> V" "a \<noteq> b" "a \<notin> U" "b \<notin> U"
proof -
  have 1: "a \<notin> U" "mem_inv L (bl_hdrs st1') (U \<union> {a ..< a + 32768})"
    using bl_alloc_fresh[OF mem a] same by simp_all
  have 2: "b \<notin> U \<union> {a ..< a + 32768}" "mem_inv L (bl_hdrs st2) (U \<union> {a ..< a + 32768} \<union> {b ..< b + 32768})"
    using bl_alloc_fresh[OF 1(2) b] by simp_all
  show thesis by (rule that[OF _ 2(2)]) (use 1 2 in auto)
qed

lemma bl_alloc_two_room:
  assumes mem: "mem_inv L (bl_hdrs st) U" and a: "bl_alloc st = (a, st1)"
    and b: "bl_alloc st1' = (b, st2)" and same: "bl_hdrs st1' = bl_hdrs st1"
    and room: "n + 65536 \<le> scratch_room (bl_hdrs st)"
  shows "a \<noteq> 0 \<and> b \<noteq> 0 \<and> n \<le> scratch_room (bl_hdrs st2)"
proof -
  have 1: "a \<noteq> 0" "n + 32768 \<le> scratch_room (bl_hdrs st1')"
    using bl_alloc_room[OF mem a, of "n + 32768"] room same by simp_all
  have "mem_inv L (bl_hdrs st1') (U \<union> {a ..< a + 32768})"
    using bl_alloc_fresh[OF mem a 1(1)] same by simp
  from bl_alloc_room[OF this b 1(2)] 1(1) show ?thesis by simp
qed

lemma clear_two_not_listed:
  "a \<noteq> b \<Longrightarrow> c = a \<or> c = b \<Longrightarrow>
     \<not> get_pht_entry_from_index (bl_mem (GC_clear_bl (GC_clear_bl st a) b) c) (PHT_HASH p)"
  by (auto simp: GC_clear_bl_def cleared_not_listed)

text \<open>After the normal lists were set up (when they are needed).\<close>

definition normal_ready :: "bl_state \<Rightarrow> nat set \<Rightarrow> bool" where
  "normal_ready st U \<longleftrightarrow>
     (if GC_all_interior_pointers st then GC_old_normal_bl st = 0 \<and> GC_incomplete_normal_bl st = 0
      else GC_old_normal_bl st \<noteq> GC_incomplete_normal_bl st
           \<and> GC_old_normal_bl st \<in> U \<and> GC_incomplete_normal_bl st \<in> U \<and> (\<forall>p. \<not> normal_listed st p))"

lemma bl_init_no_interiors_ok:
  assumes mem: "mem_inv L (bl_hdrs st) U" and st: "GC_incomplete_normal_bl st = 0" "\<not> GC_all_interior_pointers st"
  shows "GC_bl_init_no_interiors st = Abort ''Insufficient memory for black list'' \<and> scratch_room (bl_hdrs st) < 65536
     \<or> (\<exists>st' V. GC_bl_init_no_interiors st = Ret st' \<and> normal_ready st' V \<and> mem_inv L (bl_hdrs st') V \<and> U \<subseteq> V
          \<and> GC_black_list_spacing st' = GC_black_list_spacing st
          \<and> GC_all_interior_pointers st' = GC_all_interior_pointers st
          \<and> (131072 \<le> scratch_room (bl_hdrs st) \<longrightarrow> 65536 \<le> scratch_room (bl_hdrs st')))"
proof -
  obtain a st1 where a: "bl_alloc st = (a, st1)" by fastforce
  obtain b st2 where b: "bl_alloc (st1\<lparr>GC_old_normal_bl := a\<rparr>) = (b, st2)" by fastforce
  let ?st = "GC_clear_bl (GC_clear_bl (st2\<lparr>GC_incomplete_normal_bl := b\<rparr>) a) b"
  show ?thesis
  proof (cases "a = 0 \<or> b = 0")
    case True
    then have "scratch_room (bl_hdrs st) < 65536"
      using bl_alloc_two_room[OF mem a b, of 0] by (cases "65536 \<le> scratch_room (bl_hdrs st)") simp_all
    then show ?thesis using True a b st(1) by (simp add: GC_bl_init_no_interiors_def Let_def)
  next
    case False
    then have nz: "a \<noteq> 0" "b \<noteq> 0" by simp_all
    obtain V where V: "mem_inv L (bl_hdrs st2) V" "a \<in> V" "b \<in> V" "a \<noteq> b" "U \<subseteq> V"
      by (rule bl_alloc_two[OF mem a nz(1) b nz(2)]) (simp, rule that)
    have "GC_bl_init_no_interiors st = Ret ?st"
      using a b st(1) nz by (simp add: GC_bl_init_no_interiors_def Let_def)
    moreover have f: "GC_old_normal_bl st2 = a" "GC_all_interior_pointers st2 = GC_all_interior_pointers st"
      "GC_black_list_spacing st2 = GC_black_list_spacing st"
      using bl_alloc_same[OF a] bl_alloc_same[OF b] by auto
    moreover have "\<not> normal_listed ?st p" for p
      using f(1) clear_two_not_listed[OF V(4)] by (simp add: normal_listed_def clear_bl_same(1-7))
    moreover have "65536 \<le> scratch_room (bl_hdrs st2)" if "131072 \<le> scratch_room (bl_hdrs st)"
      using bl_alloc_two_room[OF mem a b, of 65536] that by simp
    ultimately show ?thesis
      using V st(2) by (intro disjI2 exI[of _ ?st] exI[of _ V])
        (simp add: normal_ready_def clear_bl_same(1-7))
  qed
qed

text \<open>
  C25: \<open>GC_bl_init\<close> either reports that memory is exhausted (only when the scratch area has no
  room for four tables) or leaves four (two, when all interior pointers are recognised)
  distinct empty black lists.
\<close>

theorem GC_bl_init_correct:
  assumes mem: "mem_inv L (bl_hdrs st) U" and zero: "0 \<in> U"
    and st: "GC_old_normal_bl st = 0" "GC_incomplete_normal_bl st = 0"
  shows "GC_bl_init st = Abort ''Insufficient memory for black list'' \<and> scratch_room (bl_hdrs st) < 131072
     \<or> (\<exists>st'. GC_bl_init st = Ret st' \<and> bl_inv st' \<and> (\<forall>p. \<not> stack_listed st' p)
          \<and> (\<not> GC_all_interior_pointers st' \<longrightarrow> (\<forall>p. \<not> normal_listed st' p))
          \<and> GC_black_list_spacing st' = 16 * BLK)"
proof -
  let ?s = "st\<lparr>GC_black_list_spacing := 16 * BLK\<rparr>"
  let ?m = "if \<not> GC_all_interior_pointers ?s then GC_bl_init_no_interiors ?s else Ret ?s"
  consider (fail) "?m = Abort ''Insufficient memory for black list''" "scratch_room (bl_hdrs st) < 65536"
    | (ok) s V where "?m = Ret s" "normal_ready s V" "mem_inv L (bl_hdrs s) V" "0 \<in> V"
        "GC_black_list_spacing s = 16 * BLK"
        "131072 \<le> scratch_room (bl_hdrs st) \<longrightarrow> 65536 \<le> scratch_room (bl_hdrs s)"
  proof (cases "GC_all_interior_pointers st")
    case True
    then show thesis by (intro ok[of ?s U]) (use mem st zero in \<open>simp_all add: normal_ready_def\<close>)
  next
    case False
    then have m: "?m = GC_bl_init_no_interiors ?s" by simp
    have "GC_bl_init_no_interiors ?s = Abort ''Insufficient memory for black list'' \<and> scratch_room (bl_hdrs ?s) < 65536
     \<or> (\<exists>s V. GC_bl_init_no_interiors ?s = Ret s \<and> normal_ready s V \<and> mem_inv L (bl_hdrs s) V \<and> U \<subseteq> V
          \<and> GC_black_list_spacing s = GC_black_list_spacing ?s
          \<and> GC_all_interior_pointers s = GC_all_interior_pointers ?s
          \<and> (131072 \<le> scratch_room (bl_hdrs ?s) \<longrightarrow> 65536 \<le> scratch_room (bl_hdrs s)))"
      by (rule bl_init_no_interiors_ok) (use mem st False in simp_all)
    then show thesis
    proof (elim disjE exE conjE)
      fix s V assume "GC_bl_init_no_interiors ?s = Ret s" "normal_ready s V" "mem_inv L (bl_hdrs s) V" "U \<subseteq> V"
        "GC_black_list_spacing s = GC_black_list_spacing ?s"
        "131072 \<le> scratch_room (bl_hdrs ?s) \<longrightarrow> 65536 \<le> scratch_room (bl_hdrs s)"
      then show thesis by (intro ok[of s V]) (use m zero in auto)
    qed (use m fail in simp)
  qed
  then show ?thesis
  proof cases
    case fail
    then show ?thesis by (simp add: GC_bl_init_def Let_def)
  next
    case (ok s V)
    obtain a s1 where a: "bl_alloc s = (a, s1)" by fastforce
    obtain b s2 where b: "bl_alloc (s1\<lparr>GC_old_stack_bl := a\<rparr>) = (b, s2)" by fastforce
    let ?r = "GC_clear_bl (GC_clear_bl (s2\<lparr>GC_incomplete_stack_bl := b\<rparr>) a) b"
    show ?thesis
    proof (cases "a = 0 \<or> b = 0")
      case True
      then have "scratch_room (bl_hdrs st) < 131072"
        using bl_alloc_two_room[OF ok(3) a b, of 0] ok(6) by (cases "131072 \<le> scratch_room (bl_hdrs st)") simp_all
      then show ?thesis using True a b ok(1) by (simp add: GC_bl_init_def Let_def)
    next
      case False
      then have nz: "a \<noteq> 0" "b \<noteq> 0" by simp_all
      obtain W :: "nat set" where W: "a \<noteq> b" "a \<notin> V" "b \<notin> V"
        by (rule bl_alloc_two[OF ok(3) a nz(1) b nz(2)]) (simp, rule that)
      have "GC_bl_init st = Ret ?r"
        using a b ok(1) nz by (simp add: GC_bl_init_def Let_def)
      moreover obtain h where s2: "s2 = s\<lparr>GC_old_stack_bl := a, bl_hdrs := h\<rparr>"
        using bl_alloc_same[OF a] bl_alloc_same[OF b] by auto
      have f: "GC_old_normal_bl ?r = GC_old_normal_bl s" "GC_incomplete_normal_bl ?r = GC_incomplete_normal_bl s"
        "GC_old_stack_bl ?r = a" "GC_incomplete_stack_bl ?r = b" "GC_black_list_spacing ?r = 16 * BLK"
        "GC_all_interior_pointers ?r = GC_all_interior_pointers s"
        using ok(5) by (simp_all add: clear_bl_same(1-7) s2)
      have "bl_inv ?r"
        unfolding bl_inv_def f using W ok(2,4) nz by (auto simp: normal_ready_def split: if_splits)
      moreover have "\<not> stack_listed ?r p" for p
        unfolding stack_listed_def f using clear_two_not_listed[OF W(1)] by simp
      moreover have "\<not> normal_listed ?r p" if "\<not> GC_all_interior_pointers ?r" for p
      proof -
        have "GC_old_normal_bl s \<in> V" "GC_incomplete_normal_bl s \<in> V" "\<not> normal_listed s p"
          using ok(2) that unfolding f by (simp_all add: normal_ready_def)
        moreover from this have "bl_mem ?r (GC_old_normal_bl s) = bl_mem s (GC_old_normal_bl s)"
          "bl_mem ?r (GC_incomplete_normal_bl s) = bl_mem s (GC_incomplete_normal_bl s)"
          using W by (auto simp: clear_bl_same s2)
        ultimately show ?thesis unfolding normal_listed_def f by simp
      qed
      ultimately show ?thesis using f(5) by blast
    qed
  qed
qed

section \<open>An example\<close>

definition bl_ex :: bl_state where
  "bl_ex = \<lparr>bl_mem = (\<lambda>_. (\<lambda>_. 0))(4 := (\<lambda>_. 0)(1 := 1)),
     GC_old_normal_bl = 1, GC_incomplete_normal_bl = 2, GC_old_stack_bl = 3, GC_incomplete_stack_bl = 4,
     GC_black_list_spacing = 65536, GC_all_interior_pointers = False, GC_modws_valid_offsets = (\<lambda>i. i = 0),
     GC_heap_sects = [(65536, 262144)], GC_heapsize = 262144, bl_hdrs = hdr_ex\<rparr>"

lemma bl_ex_inv: "bl_inv bl_ex"
  by (simp add: bl_inv_def bl_ex_def)

theorem GC_promote_black_lists_correct_witness:
  "bl_inv bl_ex \<and> bl_inv (GC_promote_black_lists bl_ex) \<and> stack_listed (GC_promote_black_lists bl_ex) 262144"
proof -
  have "get_pht_entry_from_index (bl_mem bl_ex (GC_incomplete_stack_bl bl_ex)) (PHT_HASH 262144)"
    by (simp add: bl_ex_def get_pht_entry_from_index_def array_bit_iff PHT_HASH_def gc_consts bit_simps)
  then show ?thesis using GC_promote_black_lists_correct[OF bl_ex_inv] bl_ex_inv by (simp add: Let_def)
qed

theorem GC_add_to_black_list_stack_remembered_witness:
  "\<exists>st'. GC_add_to_black_list_stack bl_ex 45060 = Ret st' \<and> GC_is_black_listed st' 40960 16384 \<noteq> 0
     \<and> GC_is_black_listed (GC_promote_black_lists st') 40960 16384 \<noteq> 0"
proof -
  have "ht_inv (bl_hdrs bl_ex) [110000]" "HDR (bl_hdrs bl_ex) 45060 = 0"
    using hdr_ex_ht by (simp_all add: bl_ex_def hdr_ex_HDR)
  from GC_add_to_black_list_stack_remembered[OF bl_ex_inv this, of 40960 16384] show ?thesis
    by (auto simp: BLK_def)
qed

theorem compute_total_stack_black_listed_correct_witness:
  "compute_total_stack_black_listed (bl_ex\<lparr>GC_old_stack_bl := 4\<rparr>) = 4096"
proof -
  let ?st = "bl_ex\<lparr>GC_old_stack_bl := 4\<rparr>"
  have "\<forall>(start, bytes) \<in> set (GC_heap_sects ?st). BLK dvd start \<and> start + bytes < 2 ^ 64"
    "sum_list (map snd (GC_heap_sects ?st)) < 2 ^ 64" by (simp_all add: bl_ex_def BLK_def)
  moreover have "{b. 16 \<le> b \<and> b < 80 \<and> get_pht_entry_from_index (bl_mem ?st (GC_old_stack_bl ?st)) (PHT_HASH (b * BLK))} = {64}"
    by (auto simp: bl_ex_def get_pht_entry_from_index_def array_bit_iff PHT_HASH_def gc_consts bit_1_iff split: if_splits)
  ultimately show ?thesis
    using compute_total_stack_black_listed_correct[of ?st] by (simp add: bl_ex_def BLK_def)
qed

theorem GC_bl_init_correct_witness:
  "\<exists>st'. GC_bl_init (bl_ex\<lparr>GC_old_normal_bl := 0, GC_incomplete_normal_bl := 0,
     bl_hdrs := hdr_ex\<lparr>GC_scratch_end_addr := 500000\<rparr>\<rparr>) = Ret st' \<and> bl_inv st' \<and> \<not> stack_listed st' 262144"
proof -
  let ?st = "bl_ex\<lparr>GC_old_normal_bl := 0, GC_incomplete_normal_bl := 0, bl_hdrs := hdr_ex\<lparr>GC_scratch_end_addr := 500000\<rparr>\<rparr>"
  have "mem_inv 65536 (bl_hdrs ?st) {0}" "131072 \<le> scratch_room (bl_hdrs ?st)"
    by (simp_all add: bl_ex_def mem_inv_def hdr_ex_def page_round_def SIZET_SAT_ADD_def gc_consts)
  with GC_bl_init_correct[of 65536 ?st "{0}"] show ?thesis by (auto simp: bl_ex_def)
qed

end
