(* ===== verification/Hblk_List.thy ===== *)
theory Hblk_List
  imports Header_Walk Black_List
begin

text \<open>
  The free lists of heap blocks of \<^verbatim>\<open>allchblk.c\<close>: free blocks are kept on doubly linked lists by
  size class, linked through the headers of the blocks, with a count of the free bytes of every
  list. The state of the block allocator is the header index and black lists together with
  these lists and the counters the allocator maintains.
\<close>

section \<open>State\<close>

definition UNIQUE_THRESHOLD :: nat where [gc_consts]: "UNIQUE_THRESHOLD = 32"
definition HUGE_THRESHOLD :: nat where [gc_consts]: "HUGE_THRESHOLD = 256"
definition FL_COMPRESSION :: nat where [gc_consts]: "FL_COMPRESSION = 8"
definition N_HBLK_FLS :: nat where [gc_consts]:
  "N_HBLK_FLS = (HUGE_THRESHOLD - UNIQUE_THRESHOLD) div FL_COMPRESSION + UNIQUE_THRESHOLD"

record obj_kind =
  ok_descriptor :: "64 word"
  ok_relocate_descr :: bool
  ok_mark_unconditionally :: bool
  ok_disclaim_proc :: bool   \<comment> \<open>whether the kind has a disclaim procedure\<close>

text \<open>
  The calls into the operating system layer and the virtual dirty bit implementation, with
  their arguments; they change the mapping and protection of pages, not the allocator's data.
\<close>

datatype os_call =
    GC_unmap nat nat
  | GC_remap nat nat
  | GC_unmap_gap nat nat nat nat
  | GC_remove_protection nat nat bool

record heap_state =
  bls :: bl_state
  GC_hblkfreelist :: "nat \<Rightarrow> nat"
  GC_free_bytes :: "nat \<Rightarrow> 64 word"
  GC_large_free_bytes :: "64 word"
  GC_large_allocd_bytes :: "64 word"
  GC_max_large_allocd_bytes :: "64 word"
  GC_bytes_dropped :: "64 word"
  GC_finalizer_bytes_freed :: "64 word"
  GC_requested_heapsize :: "64 word"
  GC_drop_blacklisted_count :: "32 word"
  GC_large_alloc_warn_suppressed :: int
  GC_large_alloc_warn_interval :: int
  GC_alloc_fail_count :: nat
  GC_use_entire_heap :: bool
  GC_dont_gc :: bool
  GC_incremental :: bool
  GC_find_leak_inner :: bool
  GC_manual_vdb :: bool
  clear_refs_fd :: int   \<comment> \<open>the soft-dirty bits of the kernel are used unless \<open>-1\<close>\<close>
  GC_obj_kinds :: "nat \<Rightarrow> obj_kind"
  GC_obj_map :: "nat \<Rightarrow> nat"
  obj_map_mem :: "nat \<Rightarrow> nat \<Rightarrow> nat"   \<comment> \<open>the entry tables, by address\<close>
  os_calls :: "os_call list"   \<comment> \<open>latest first\<close>

abbreviation hs :: "heap_state \<Rightarrow> hdr_state" where
  "hs st \<equiv> bl_hdrs (bls st)"

definition set_hs :: "heap_state \<Rightarrow> hdr_state \<Rightarrow> heap_state" where
  "set_hs st s = st\<lparr>bls := (bls st)\<lparr>bl_hdrs := s\<rparr>\<rparr>"

text \<open>Fields of the header at an address.\<close>

abbreviation hdr_at :: "heap_state \<Rightarrow> nat \<Rightarrow> hdr" where
  "hdr_at st hhdr \<equiv> hdr_mem (hs st) hhdr"

definition upd_hdr :: "nat \<Rightarrow> (hdr \<Rightarrow> hdr) \<Rightarrow> heap_state \<Rightarrow> heap_state" where
  "upd_hdr hhdr f st = set_hs st ((hs st)\<lparr>hdr_mem := (hdr_mem (hs st))(hhdr := f (hdr_at st hhdr))\<rparr>)"

abbreviation GET_HDR :: "heap_state \<Rightarrow> nat \<Rightarrow> nat outcome" where
  "GET_HDR st p \<equiv> GC_find_header (hs st) p"

definition os_call :: "os_call \<Rightarrow> heap_state \<Rightarrow> heap_state" where
  "os_call c st = st\<lparr>os_calls := c # os_calls st\<rparr>"

definition IS_MAPPED :: "hdr \<Rightarrow> bool" where
  "IS_MAPPED hhdr \<longleftrightarrow> hb_flags hhdr AND WAS_UNMAPPED = 0"

section \<open>Size classes\<close>

definition GC_hblk_fl_from_blocks :: "nat \<Rightarrow> nat" where
  "GC_hblk_fl_from_blocks blocks_needed =
     (if blocks_needed \<le> UNIQUE_THRESHOLD then blocks_needed
      else if blocks_needed \<ge> HUGE_THRESHOLD then N_HBLK_FLS
      else (blocks_needed - UNIQUE_THRESHOLD) div FL_COMPRESSION + UNIQUE_THRESHOLD)"

fun enough_large_loop :: "heap_state \<Rightarrow> 64 word \<Rightarrow> nat \<Rightarrow> nat" where
  "enough_large_loop st bytes 0 = 0"
| "enough_large_loop st bytes (Suc n) =
     (let bytes = bytes + GC_free_bytes st (Suc n)
      in if bytes \<ge> GC_max_large_allocd_bytes st then Suc n else enough_large_loop st bytes n)"

definition GC_enough_large_bytes_left :: "heap_state \<Rightarrow> nat" where
  "GC_enough_large_bytes_left st = enough_large_loop st (GC_large_allocd_bytes st) N_HBLK_FLS"

definition GC_reset_freelist :: "heap_state \<Rightarrow> heap_state" where
  "GC_reset_freelist st =
     st\<lparr>GC_hblkfreelist := (\<lambda>i. if i \<le> N_HBLK_FLS then 0 else GC_hblkfreelist st i),
        GC_free_bytes := (\<lambda>i. if i \<le> N_HBLK_FLS then 0 else GC_free_bytes st i)\<rparr>"

section \<open>Operations on the lists\<close>

text \<open>
  A free list has at most one entry per block of the address space, so \<open>FL_FUEL\<close> rounds are
  enough to walk it.
\<close>

definition FL_FUEL :: nat where "FL_FUEL = 2 ^ 52 + 2"

fun iterate_list ::
    "nat \<Rightarrow> heap_state \<Rightarrow> (nat \<Rightarrow> nat \<Rightarrow> 'a \<Rightarrow> 'a) \<Rightarrow> nat \<Rightarrow> nat \<Rightarrow> 'a \<Rightarrow> 'a outcome" where
  "iterate_list 0 st fn i h client_data = Stuck"
| "iterate_list (Suc fuel) st fn i h client_data =
     (if h \<noteq> 0 then
        let client_data = fn h i client_data
        in obind (GET_HDR st h) (\<lambda>hhdr. iterate_list fuel st fn i (hb_next (hdr_at st hhdr)) client_data)
      else Ret client_data)"

fun iterate_lists :: "heap_state \<Rightarrow> (nat \<Rightarrow> nat \<Rightarrow> 'a \<Rightarrow> 'a) \<Rightarrow> nat list \<Rightarrow> 'a \<Rightarrow> 'a outcome" where
  "iterate_lists st fn [] client_data = Ret client_data"
| "iterate_lists st fn (i # is) client_data =
     obind (iterate_list FL_FUEL st fn i (GC_hblkfreelist st i) client_data) (iterate_lists st fn is)"

definition GC_iterate_free_hblks ::
    "heap_state \<Rightarrow> (nat \<Rightarrow> nat \<Rightarrow> 'a \<Rightarrow> 'a) \<Rightarrow> 'a \<Rightarrow> 'a outcome" where
  "GC_iterate_free_hblks st fn client_data = iterate_lists st fn [0 ..< N_HBLK_FLS + 1] client_data"

definition GC_remove_from_fl_at :: "heap_state \<Rightarrow> nat \<Rightarrow> nat \<Rightarrow> heap_state outcome" where
  "GC_remove_from_fl_at st hhdr index =
     obind (if hb_prev (hdr_at st hhdr) = 0
            then Ret (st\<lparr>GC_hblkfreelist := (GC_hblkfreelist st)(index := hb_next (hdr_at st hhdr))\<rparr>)
            else obind (GET_HDR st (hb_prev (hdr_at st hhdr))) (\<lambda>phdr.
                   Ret (upd_hdr phdr (\<lambda>r. r\<lparr>hb_next := hb_next (hdr_at st hhdr)\<rparr>) st)))
       (\<lambda>st. let st = st\<lparr>GC_free_bytes := (GC_free_bytes st)
                   (index := GC_free_bytes st index - of_nat (hb_sz (hdr_at st hhdr)))\<rparr>
             in if hb_next (hdr_at st hhdr) \<noteq> 0
                then obind (GET_HDR st (hb_next (hdr_at st hhdr))) (\<lambda>nhdr.
                       Ret (upd_hdr nhdr (\<lambda>r. r\<lparr>hb_prev := hb_prev (hdr_at st hhdr)\<rparr>) st))
                else Ret st)"

definition GC_remove_from_fl :: "heap_state \<Rightarrow> nat \<Rightarrow> heap_state outcome" where
  "GC_remove_from_fl st hhdr =
     GC_remove_from_fl_at st hhdr (GC_hblk_fl_from_blocks (hb_sz (hdr_at st hhdr) div BLK))"

definition GC_add_to_fl :: "heap_state \<Rightarrow> nat \<Rightarrow> nat \<Rightarrow> heap_state outcome" where
  "GC_add_to_fl st h hhdr =
     (let index = GC_hblk_fl_from_blocks (hb_sz (hdr_at st hhdr) div BLK);
          second = GC_hblkfreelist st index;
          st = st\<lparr>GC_hblkfreelist := (GC_hblkfreelist st)(index := h),
                  GC_free_bytes := (GC_free_bytes st)
                    (index := GC_free_bytes st index + of_nat (hb_sz (hdr_at st hhdr)))\<rparr>;
          st = upd_hdr hhdr (\<lambda>r. r\<lparr>hb_next := second, hb_prev := 0\<rparr>) st
      in obind (if second \<noteq> 0
                then obind (GET_HDR st second) (\<lambda>second_hdr.
                       Ret (upd_hdr second_hdr (\<lambda>r. r\<lparr>hb_prev := h\<rparr>) st))
                else Ret st)
           (\<lambda>st. Ret (upd_hdr hhdr (\<lambda>r. r\<lparr>hb_flags := hb_flags r OR FREE_BLK\<rparr>) st)))"

section \<open>The blocks of the heap\<close>

text \<open>The header index keeps its invariant, for some of the witnesses it speaks about.\<close>

definition hm :: "nat \<Rightarrow> hdr_state \<Rightarrow> bool" where
  "hm L s \<longleftrightarrow> (\<exists>U bs fs. hdr_inv L s U bs fs)"

text \<open>The blocks that have a header, with the header.\<close>

definition blocks :: "hdr_state \<Rightarrow> nat \<Rightarrow> hdr option" where
  "blocks s h = (if BLK dvd h \<and> MAX_JUMP < HDR s h then Some (hdr_mem s (HDR s h)) else None)"

lemma blocks_Some: "blocks s h = Some r \<longleftrightarrow> BLK dvd h \<and> MAX_JUMP < HDR s h \<and> r = hdr_mem s (HDR s h)"
  by (auto simp: blocks_def)

lemma aligned_div_eq: "BLK dvd h \<Longrightarrow> BLK dvd q \<Longrightarrow> q div BLK = h div BLK \<longleftrightarrow> q = h"
  by (auto simp: BLK_def)

lemma hm_GET_HDR: "hm L s \<Longrightarrow> GC_find_header s p = Ret (HDR s p)"
  by (auto simp: hm_def hdr_inv_def intro: GC_find_header_HDR)

lemma hm_one_block:
  assumes "hm L s" "blocks s h = Some r" "blocks s h' = Some r'" "HDR s h = HDR s h'"
  shows "h = h'"
proof -
  have "one_block (HDR s)" using assms(1) by (auto simp: hm_def hdr_inv_def)
  then have "h div BLK = h' div BLK" using assms(2-4) unfolding one_block_def blocks_Some by metis
  then show ?thesis using assms(2,3) aligned_div_eq unfolding blocks_Some by metis
qed

lemma HDR_set_hdr_mem [simp]: "HDR (s\<lparr>hdr_mem := m\<rparr>) p = HDR s p"
proof -
  have "GET_BI_loop n (s\<lparr>hdr_mem := m\<rparr>) hi b = GET_BI_loop n s hi b" for n hi b
    by (induction n arbitrary: b) simp_all
  then show ?thesis by (simp add: HDR_def GC_find_header_def GET_BI_def)
qed

lemma hs_set_hs [simp]: "hs (set_hs st s) = s"
  by (simp add: set_hs_def)

lemma upd_hdr_other [simp]:
  "HDR (hs (upd_hdr a f st)) p = HDR (hs st) p"
  "GC_gc_no (hs (upd_hdr a f st)) = GC_gc_no (hs st)"
  "os_mem (hs (upd_hdr a f st)) = os_mem (hs st)"
  by (simp_all add: upd_hdr_def)

lemma upd_hdr_mem: "hdr_mem (hs (upd_hdr a f st)) = (hdr_mem (hs st))(a := f (hdr_mem (hs st) a))"
  by (simp add: upd_hdr_def)

lemma upd_hdr_ok:
  assumes hm: "hm L (hs st)" and h: "blocks (hs st) h = Some r" and a: "a = HDR (hs st) h"
  shows "hm L (hs (upd_hdr a f st))" "blocks (hs (upd_hdr a f st)) = (blocks (hs st))(h \<mapsto> f r)"
proof -
  obtain U bs fs where inv: "hdr_inv L (hs st) U bs fs" using hm by (auto simp: hm_def)
  have "MAX_JUMP < a" using h a by (simp add: blocks_Some)
  then have "a \<notin> set fs" using inv a by (auto simp: hdr_inv_def)
  then show "hm L (hs (upd_hdr a f st))"
    unfolding hm_def upd_hdr_def hs_set_hs using hdr_mem_upd_inv(1)[OF inv, of a] by blast
  show "blocks (hs (upd_hdr a f st)) = (blocks (hs st))(h \<mapsto> f r)"
  proof
    fix q
    have "q = h" if "BLK dvd q" "MAX_JUMP < HDR (hs st) q" "HDR (hs st) q = HDR (hs st) h"
      using hm_one_block[OF hm _ h that(3)] that by (auto simp: blocks_Some)
    then show "blocks (hs (upd_hdr a f st)) q = ((blocks (hs st))(h \<mapsto> f r)) q"
      using h a by (auto simp: blocks_def upd_hdr_mem split: if_splits)
  qed
qed

section \<open>Doubly linked lists\<close>

text \<open>
  \<open>seg F p h xs q\<close>: following the links of the headers \<open>F\<close> from \<open>h\<close> meets the blocks \<open>xs\<close>, then \<open>q\<close>;
  the backward link of the first is \<open>p\<close>, of the others their predecessor.
\<close>

fun seg :: "(nat \<Rightarrow> hdr option) \<Rightarrow> nat \<Rightarrow> nat \<Rightarrow> nat list \<Rightarrow> nat \<Rightarrow> bool" where
  "seg F p h [] q \<longleftrightarrow> h = q"
| "seg F p h (x # xs) q \<longleftrightarrow> h = x \<and> x \<noteq> 0 \<and> (\<exists>r. F x = Some r \<and> hb_prev r = p \<and> seg F x (hb_next r) xs q)"

definition links :: "hdr \<Rightarrow> nat \<times> nat" where
  "links r = (hb_prev r, hb_next r)"

lemma seg_append: "seg F p h (xs @ ys) q \<longleftrightarrow> (\<exists>m. seg F p h xs m \<and> seg F (last (p # xs)) m ys q)"
  by (induction xs arbitrary: p h) auto

lemma seg_cong:
  "(\<And>x. x \<in> set xs \<Longrightarrow> map_option links (F x) = map_option links (G x)) \<Longrightarrow> seg F p h xs q = seg G p h xs q"
proof (induction xs arbitrary: p h)
  case (Cons x xs)
  have "map_option links (F x) = map_option links (G x)" using Cons.prems by simp
  then show ?case
    using Cons.IH Cons.prems by (cases "F x"; cases "G x") (auto simp: links_def)
qed simp

lemma seg_upd [simp]: "x \<notin> set xs \<Longrightarrow> seg (F(x := v)) p h xs q = seg F p h xs q"
  by (rule seg_cong) auto

lemma seg_head: "seg F p h xs q \<Longrightarrow> h = (if xs = [] then q else hd xs)"
  by (cases xs) auto

lemma seg_nonzero: "seg F p h xs q \<Longrightarrow> 0 \<notin> set xs"
  by (induction xs arbitrary: p h) auto

lemma seg_Some: "seg F p h xs q \<Longrightarrow> x \<in> set xs \<Longrightarrow> \<exists>r. F x = Some r"
  by (induction xs arbitrary: p h) auto

lemma seg_set_next:
  assumes "seg F p h (xs @ [x]) m" "x \<notin> set xs" "F x = Some r"
  shows "seg (F(x \<mapsto> r\<lparr>hb_next := m'\<rparr>)) p h (xs @ [x]) m'"
  using assms by (auto simp: seg_append)

lemma seg_set_prev:
  assumes "seg F p x (x # xs) q" "x \<notin> set xs" "F x = Some r"
  shows "seg (F(x \<mapsto> r\<lparr>hb_prev := p'\<rparr>)) p' x (x # xs) q"
  using assms by auto

lemma seg_remove:
  assumes seg: "seg F p h (as @ x # bs) q" and dist: "distinct (as @ x # bs)" and x: "F x = Some r"
  defines "F1 \<equiv> if as = [] then F else F(last as \<mapsto> (the (F (last as)))\<lparr>hb_next := hb_next r\<rparr>)"
  defines "F2 \<equiv> if bs = [] then F1 else F1(hd bs \<mapsto> (the (F1 (hd bs)))\<lparr>hb_prev := hb_prev r\<rparr>)"
  shows "hb_prev r = last (p # as)" "hb_next r = (if bs = [] then q else hd bs)"
    "seg F2 p (if as = [] then hb_next r else h) (as @ bs) q"
proof -
  have 1: "seg F p h as x" "seg F (last (p # as)) x (x # bs) q"
    using seg by (auto simp: seg_append)
  then show prv: "hb_prev r = last (p # as)" and nxt: "hb_next r = (if bs = [] then q else hd bs)"
    using x seg_head by fastforce+
  have bs: "seg F x (hb_next r) bs q" using 1 x by simp
  have A: "seg F1 p (if as = [] then hb_next r else h) as (hb_next r)"
  proof (cases as rule: rev_cases)
    case (snoc as' a)
    obtain ra where "F a = Some ra" using seg_Some[OF 1(1)] snoc by auto
    then show ?thesis
      using seg_set_next[of F p h as' a x ra "hb_next r"] 1(1) dist snoc by (simp add: F1_def)
  qed simp
  have "seg F1 x (hb_next r) bs q"
    using bs dist by (cases as rule: rev_cases) (simp_all add: F1_def)
  then have B: "seg F2 (hb_prev r) (hb_next r) bs q"
    using dist by (cases bs) (auto simp: F2_def)
  have "seg F2 p (if as = [] then hb_next r else h) as (hb_next r)"
    using A dist by (cases bs) (auto simp: F2_def)
  with B prv show "seg F2 p (if as = [] then hb_next r else h) (as @ bs) q"
    unfolding seg_append by auto
qed

section \<open>What the list operations change\<close>

text \<open>The part of a header that the list operations do not write.\<close>

definition core :: "hdr \<Rightarrow> hdr" where
  "core r = r\<lparr>hb_next := 0, hb_prev := 0\<rparr>"

definition same_core :: "(nat \<Rightarrow> hdr option) \<Rightarrow> (nat \<Rightarrow> hdr option) \<Rightarrow> bool" where
  "same_core F G \<longleftrightarrow> (\<forall>x. map_option core (F x) = map_option core (G x))"

lemma core_eqD: "core r = core r' \<Longrightarrow> hb_sz r = hb_sz r' \<and> hb_flags r = hb_flags r' \<and> hb_block r = hb_block r'
    \<and> hb_last_reclaimed r = hb_last_reclaimed r'"
proof -
  have "hb_sz (core r) = hb_sz r" "hb_flags (core r) = hb_flags r" "hb_block (core r) = hb_block r"
    "hb_last_reclaimed (core r) = hb_last_reclaimed r" for r
    by (simp_all add: core_def)
  then show "core r = core r' \<Longrightarrow> ?thesis" by metis
qed

lemma core_upd [simp]: "core (r\<lparr>hb_next := v\<rparr>) = core r" "core (r\<lparr>hb_prev := v\<rparr>) = core r"
  by (simp_all add: core_def)

lemma same_core_refl [simp]: "same_core F F"
  by (simp add: same_core_def)

lemma same_core_trans: "same_core F G \<Longrightarrow> same_core G H \<Longrightarrow> same_core F H"
  by (simp add: same_core_def)

lemma same_core_upd:
  "F x = Some r \<Longrightarrow> same_core F (F(x \<mapsto> r\<lparr>hb_next := v\<rparr>))" "F x = Some r \<Longrightarrow> same_core F (F(x \<mapsto> r\<lparr>hb_prev := v\<rparr>))"
  by (simp_all add: same_core_def)

lemma same_core_Some:
  assumes "same_core F G" "F x = Some r"
  obtains r' where "G x = Some r'" "core r' = core r"
  using assms by (cases "G x") (auto simp: same_core_def dest: spec[of _ x])

text \<open>The fields of the allocator state that operations on headers and lists leave alone.\<close>

definition frame :: "heap_state \<Rightarrow> heap_state \<Rightarrow> bool" where
  "frame st st' \<longleftrightarrow> (\<exists>s fl fb. GC_gc_no s = GC_gc_no (hs st)
     \<and> st' = st\<lparr>bls := (bls st)\<lparr>bl_hdrs := s\<rparr>, GC_hblkfreelist := fl, GC_free_bytes := fb\<rparr>)"

lemma frameI:
  "GC_gc_no s = GC_gc_no (hs st) \<Longrightarrow>
   frame st (st\<lparr>bls := (bls st)\<lparr>bl_hdrs := s\<rparr>, GC_hblkfreelist := fl, GC_free_bytes := fb\<rparr>)"
  unfolding frame_def by blast

lemma frame_refl [simp]: "frame st st"
  using frameI[of "hs st" st "GC_free_bytes st" "GC_hblkfreelist st"] by simp

lemma frame_trans: "frame a b \<Longrightarrow> frame b c \<Longrightarrow> frame a c"
proof -
  assume "frame a b"
  then obtain s fl fb where "GC_gc_no s = GC_gc_no (hs a)"
    "b = a\<lparr>bls := (bls a)\<lparr>bl_hdrs := s\<rparr>, GC_hblkfreelist := fl, GC_free_bytes := fb\<rparr>"
    unfolding frame_def by blast
  moreover assume "frame b c"
  then obtain s' fl' fb' where "GC_gc_no s' = GC_gc_no (hs b)"
    "c = b\<lparr>bls := (bls b)\<lparr>bl_hdrs := s'\<rparr>, GC_hblkfreelist := fl', GC_free_bytes := fb'\<rparr>"
    unfolding frame_def by blast
  ultimately show "frame a c" using frameI[of s' a fb' fl'] by simp
qed

lemma frame_set_hs: "GC_gc_no s = GC_gc_no (hs st) \<Longrightarrow> frame st (set_hs st s)"
  using frameI[of s st "GC_free_bytes st" "GC_hblkfreelist st"] by (simp add: set_hs_def)

lemma frame_upd_hdr [simp]: "frame st (upd_hdr a f st)"
  unfolding upd_hdr_def by (rule frame_set_hs) simp

lemma frame_fl [simp]: "frame st (st\<lparr>GC_hblkfreelist := x\<rparr>)" "frame st (st\<lparr>GC_free_bytes := y\<rparr>)"
  using frameI[of "hs st" st "GC_free_bytes st" x] frameI[of "hs st" st y "GC_hblkfreelist st"] by simp_all

text \<open>\<open>ls i\<close> is the list of the blocks on free list \<open>i\<close>.\<close>

definition list_bytes :: "(nat \<Rightarrow> hdr option) \<Rightarrow> nat list \<Rightarrow> nat" where
  "list_bytes F xs = sum_list (map (\<lambda>h. hb_sz (the (F h))) xs)"

definition lists_ok ::
    "(nat \<Rightarrow> hdr option) \<Rightarrow> (nat \<Rightarrow> nat) \<Rightarrow> (nat \<Rightarrow> 64 word) \<Rightarrow> (nat \<Rightarrow> nat list) \<Rightarrow> bool" where
  "lists_ok F fl fb ls \<longleftrightarrow>
     (\<forall>i \<le> N_HBLK_FLS. seg F 0 (fl i) (ls i) 0 \<and> fb i = of_nat (list_bytes F (ls i)))
     \<and> (\<forall>i > N_HBLK_FLS. ls i = []) \<and> (\<forall>i. distinct (ls i)) \<and> (\<forall>i j. i \<noteq> j \<longrightarrow> set (ls i) \<inter> set (ls j) = {})"

abbreviation fl_ok :: "heap_state \<Rightarrow> (nat \<Rightarrow> nat list) \<Rightarrow> bool" where
  "fl_ok st ls \<equiv> lists_ok (blocks (hs st)) (GC_hblkfreelist st) (GC_free_bytes st) ls"

definition listed :: "(nat \<Rightarrow> nat list) \<Rightarrow> nat set" where
  "listed ls = (\<Union>i. set (ls i))"

lemma list_bytes_cong:
  "(\<And>x. x \<in> set xs \<Longrightarrow> hb_sz (the (F x)) = hb_sz (the (G x))) \<Longrightarrow> list_bytes F xs = list_bytes G xs"
  by (simp add: list_bytes_def cong: map_cong)

lemma list_bytes_core:
  assumes "same_core F G" "\<And>x. x \<in> set xs \<Longrightarrow> \<exists>r. F x = Some r"
  shows "list_bytes F xs = list_bytes G xs"
proof (rule list_bytes_cong)
  fix x assume "x \<in> set xs"
  then obtain r where "F x = Some r" using assms(2) by blast
  then show "hb_sz (the (F x)) = hb_sz (the (G x))"
    using same_core_Some[OF assms(1)] core_eqD by (metis option.sel)
qed

lemma list_bytes_simps [simp]:
  "list_bytes F [] = 0" "list_bytes F (x # xs) = hb_sz (the (F x)) + list_bytes F xs"
  "list_bytes F (xs @ ys) = list_bytes F xs + list_bytes F ys"
  by (simp_all add: list_bytes_def)

lemma lists_ok_Some: "lists_ok F fl fb ls \<Longrightarrow> x \<in> set (ls i) \<Longrightarrow> \<exists>r. F x = Some r"
  by (cases "i \<le> N_HBLK_FLS") (auto simp: lists_ok_def intro: seg_Some)

text \<open>Changing one list and only links of its members.\<close>

lemma lists_ok_change:
  assumes ok: "lists_ok F fl fb ls" and core: "same_core F G" and i: "i \<le> N_HBLK_FLS"
    and seg: "seg G 0 fl' xs 0" and xs: "distinct xs" "\<And>j. j \<noteq> i \<Longrightarrow> set xs \<inter> set (ls j) = {}"
    and bytes: "b = of_nat (list_bytes F xs)"
    and other: "\<And>j x. j \<noteq> i \<Longrightarrow> x \<in> set (ls j) \<Longrightarrow> G x = F x"
  shows "lists_ok G (fl(i := fl')) (fb(i := b)) (ls(i := xs))"
proof -
  have mem: "\<exists>r. F x = Some r" if "x \<in> set xs" for x
  proof -
    obtain r where "G x = Some r" using seg_Some[OF seg \<open>x \<in> set xs\<close>] by blast
    moreover have "map_option core (F x) = map_option core (G x)" using core by (simp add: same_core_def)
    ultimately show ?thesis by (cases "F x") auto
  qed
  have "seg G 0 (fl j) (ls j) 0 \<and> fb j = of_nat (list_bytes G (ls j))" if "j \<noteq> i" "j \<le> N_HBLK_FLS" for j
  proof -
    have "seg G 0 (fl j) (ls j) 0 = seg F 0 (fl j) (ls j) 0" using other[OF that(1)] by (intro seg_cong) simp
    moreover have "list_bytes G (ls j) = list_bytes F (ls j)" using other[OF that(1)] by (intro list_bytes_cong) simp
    ultimately show ?thesis using ok that(2) by (simp add: lists_ok_def)
  qed
  moreover have "list_bytes F xs = list_bytes G xs" by (rule list_bytes_core[OF core mem])
  ultimately show ?thesis
    using ok i seg xs bytes unfolding lists_ok_def by (auto simp: Int_commute)
qed

lemma GC_remove_from_fl_at_ok:
  assumes hm: "hm L (hs st)" and ok: "fl_ok st ls" and i: "i \<le> N_HBLK_FLS" and ls: "ls i = as @ h # bs"
    and h: "blocks (hs st) h = Some r"
  obtains st' where "GC_remove_from_fl_at st (HDR (hs st) h) i = Ret st'" and "hm L (hs st')"
    and "fl_ok st' (ls(i := as @ bs))" and "HDR (hs st') = HDR (hs st)" and "frame st st'"
    and "same_core (blocks (hs st)) (blocks (hs st'))"
    and "\<And>x. x \<notin> set (as @ bs) \<Longrightarrow> blocks (hs st') x = blocks (hs st) x" "os_mem (hs st') = os_mem (hs st)"
    and "GC_free_bytes st' = (GC_free_bytes st)(i := GC_free_bytes st i - of_nat (hb_sz r))"
proof -
  let ?F = "blocks (hs st)" and ?a = "HDR (hs st) h"
  define F1 where "F1 = (if as = [] then ?F else ?F(last as \<mapsto> (the (?F (last as)))\<lparr>hb_next := hb_next r\<rparr>))"
  define F2 where "F2 = (if bs = [] then F1 else F1(hd bs \<mapsto> (the (F1 (hd bs)))\<lparr>hb_prev := hb_prev r\<rparr>))"
  have seg: "seg ?F 0 (GC_hblkfreelist st i) (as @ h # bs) 0" and dist: "distinct (as @ h # bs)"
    and bytes: "GC_free_bytes st i = of_nat (list_bytes ?F (as @ h # bs))"
    using ok i ls unfolding lists_ok_def by metis+
  note rm = seg_remove[OF seg dist h, folded F1_def, folded F2_def]
  have r: "hdr_at st ?a = r" using h by (simp add: blocks_Some)
  have nz: "x \<noteq> 0" if "x \<in> set (as @ h # bs)" for x using seg_nonzero[OF seg] that by metis
  have prev0: "hb_prev r = 0 \<longleftrightarrow> as = []" using rm(1) nz by (cases as rule: rev_cases) auto
  have next0: "hb_next r = 0 \<longleftrightarrow> bs = []" using rm(2) nz by (cases bs) auto
  define st1 where "st1 = (if as = [] then st\<lparr>GC_hblkfreelist := (GC_hblkfreelist st)(i := hb_next r)\<rparr>
    else upd_hdr (HDR (hs st) (hb_prev r)) (\<lambda>x. x\<lparr>hb_next := hb_next r\<rparr>) st)"
  have s1: "hm L (hs st1)" "blocks (hs st1) = F1" "HDR (hs st1) = HDR (hs st)" "frame st st1"
    "os_mem (hs st1) = os_mem (hs st)"
    and fl1: "GC_hblkfreelist st1 = (GC_hblkfreelist st)(i := if as = [] then hb_next r else GC_hblkfreelist st i)"
    and fb1: "GC_free_bytes st1 = GC_free_bytes st"
  proof -
    obtain ra where "as \<noteq> [] \<Longrightarrow> ?F (last as) = Some ra" using seg_Some[OF seg, of "last as"] by fastforce
    then show "hm L (hs st1)" "blocks (hs st1) = F1" "HDR (hs st1) = HDR (hs st)" "frame st st1"
      "os_mem (hs st1) = os_mem (hs st)"
      "GC_hblkfreelist st1 = (GC_hblkfreelist st)(i := if as = [] then hb_next r else GC_hblkfreelist st i)"
      "GC_free_bytes st1 = GC_free_bytes st"
      using hm upd_hdr_ok[OF hm, of "last as" ra] rm(1)
      by (auto simp: st1_def F1_def) (auto simp: upd_hdr_def set_hs_def)
  qed
  have "F1 h = Some r" using h dist by (cases as rule: rev_cases) (simp_all add: F1_def)
  then have r1: "hdr_at st1 ?a = r" using s1(2,3) by (metis blocks_Some)
  define st2 where "st2 = st1\<lparr>GC_free_bytes := (GC_free_bytes st1)(i := GC_free_bytes st1 i - of_nat (hb_sz r))\<rparr>"
  define st3 where "st3 = (if bs = [] then st2
    else upd_hdr (HDR (hs st2) (hb_next r)) (\<lambda>x. x\<lparr>hb_prev := hb_prev r\<rparr>) st2)"
  have s2: "hm L (hs st2)" "blocks (hs st2) = F1" using s1 by (simp_all add: st2_def)
  have s3: "hm L (hs st3)" "blocks (hs st3) = F2" "HDR (hs st3) = HDR (hs st)" "frame st st3"
    "os_mem (hs st3) = os_mem (hs st)"
    and fl3: "GC_hblkfreelist st3 = (GC_hblkfreelist st)(i := if as = [] then hb_next r else GC_hblkfreelist st i)"
    and fb3: "GC_free_bytes st3 = (GC_free_bytes st)(i := GC_free_bytes st i - of_nat (hb_sz r))"
  proof -
    have f2: "frame st st2" unfolding st2_def by (rule frame_trans[OF s1(4)]) simp
    have "\<exists>rb. F1 (hd bs) = Some rb" if "bs \<noteq> []"
      using seg_Some[OF seg, of "hd bs"] that dist by (cases as rule: rev_cases; cases bs) (auto simp: F1_def)
    then obtain rb where "bs \<noteq> [] \<Longrightarrow> F1 (hd bs) = Some rb" by blast
    then show "hm L (hs st3)" "blocks (hs st3) = F2" "HDR (hs st3) = HDR (hs st)" "frame st st3"
      "os_mem (hs st3) = os_mem (hs st)"
      "GC_hblkfreelist st3 = (GC_hblkfreelist st)(i := if as = [] then hb_next r else GC_hblkfreelist st i)"
      "GC_free_bytes st3 = (GC_free_bytes st)(i := GC_free_bytes st i - of_nat (hb_sz r))"
      using s2 upd_hdr_ok[OF s2(1), of "hd bs" rb] rm(2) f2 s1(3,5) fl1 fb1 frame_trans[OF f2 frame_upd_hdr]
      by (auto simp: st3_def F2_def) (auto simp: upd_hdr_def set_hs_def st2_def)
  qed
  have core: "same_core ?F F2"
  proof -
    have "same_core ?F F1" using seg_Some[OF seg, of "last as"] by (auto simp: F1_def same_core_upd)
    moreover have "same_core F1 F2"
      using seg_Some[OF rm(3), of "hd bs"] seg_Some[OF seg, of "hd bs"] dist
      by (cases as rule: rev_cases; cases bs) (auto simp: F1_def F2_def same_core_upd)
    ultimately show ?thesis by (rule same_core_trans)
  qed
  have out: "F2 x = ?F x" if "x \<notin> set (as @ bs)" for x
    using that by (cases as rule: rev_cases; cases bs) (auto simp: F1_def F2_def)
  have "GC_remove_from_fl_at st ?a i = Ret st3"
  proof -
    have first: "(if hb_prev (hdr_at st ?a) = 0
        then Ret (st\<lparr>GC_hblkfreelist := (GC_hblkfreelist st)(i := hb_next (hdr_at st ?a))\<rparr>)
        else obind (GET_HDR st (hb_prev (hdr_at st ?a))) (\<lambda>phdr.
               Ret (upd_hdr phdr (\<lambda>r. r\<lparr>hb_next := hb_next (hdr_at st ?a)\<rparr>) st))) = Ret st1"
      by (simp add: r prev0 hm_GET_HDR[OF hm] st1_def)
    have "hdr_at st2 ?a = r" using r1 by (simp add: st2_def)
    then show ?thesis
      unfolding GC_remove_from_fl_at_def first obind.simps Let_def r1 st2_def[symmetric]
      by (simp add: next0 hm_GET_HDR[OF s2(1)] st3_def)
  qed
  moreover have "fl_ok st3 (ls(i := as @ bs))"
    unfolding s3(2) fl3 fb3
  proof (rule lists_ok_change[OF ok core i])
    show "seg F2 0 (if as = [] then hb_next r else GC_hblkfreelist st i) (as @ bs) 0" by (rule rm(3))
    show "GC_free_bytes st i - of_nat (hb_sz r) = of_nat (list_bytes ?F (as @ bs))"
      using bytes h by simp
    show "set (as @ bs) \<inter> set (ls j) = {}" if "j \<noteq> i" for j
    proof -
      have "set (ls i) \<inter> set (ls j) = {}" using ok that by (metis lists_ok_def)
      then show ?thesis using ls by auto
    qed
    then show "F2 x = ?F x" if "j \<noteq> i" "x \<in> set (ls j)" for j x using out that by blast
  qed (use dist in auto)
  ultimately show thesis by (intro that[of st3]) (use s3 core out fb3 in simp_all)
qed

lemma GC_hblk_fl_from_blocks_le: "GC_hblk_fl_from_blocks n \<le> N_HBLK_FLS"
  by (auto simp: GC_hblk_fl_from_blocks_def gc_consts)

abbreviation fl_class :: "hdr \<Rightarrow> nat" where
  "fl_class r \<equiv> GC_hblk_fl_from_blocks (hb_sz r div BLK)"

lemma lists_ok_upd: "x \<notin> listed ls \<Longrightarrow> lists_ok (F(x := v)) fl fb ls = lists_ok F fl fb ls"
proof -
  assume x: "x \<notin> listed ls"
  then have "seg (F(x := v)) 0 (fl i) (ls i) 0 = seg F 0 (fl i) (ls i) 0" for i
    by (intro seg_upd) (auto simp: listed_def)
  moreover have "list_bytes (F(x := v)) (ls i) = list_bytes F (ls i)" for i
    using x by (intro list_bytes_cong) (auto simp: listed_def)
  ultimately show ?thesis by (simp add: lists_ok_def)
qed

lemma GC_add_to_fl_ok:
  assumes hm: "hm L (hs st)" and ok: "fl_ok st ls" and h: "blocks (hs st) h = Some r" "h \<noteq> 0" "h \<notin> listed ls"
  obtains st' where "GC_add_to_fl st h (HDR (hs st) h) = Ret st'" and "hm L (hs st')"
    and "fl_ok st' (ls(fl_class r := h # ls (fl_class r)))" and "HDR (hs st') = HDR (hs st)" and "frame st st'"
    and "same_core ((blocks (hs st))(h \<mapsto> r\<lparr>hb_flags := hb_flags r OR FREE_BLK\<rparr>)) (blocks (hs st'))"
    and "\<And>x. x \<noteq> h \<Longrightarrow> x \<notin> set (ls (fl_class r)) \<Longrightarrow> blocks (hs st') x = blocks (hs st) x"
    and "os_mem (hs st') = os_mem (hs st)"
    and "GC_free_bytes st' = (GC_free_bytes st)(fl_class r := GC_free_bytes st (fl_class r) + of_nat (hb_sz r))"
proof -
  let ?F = "blocks (hs st)" and ?a = "HDR (hs st) h"
  define i where "i = fl_class r"
  define xs where "xs = ls i"
  define f where "f = GC_hblkfreelist st i"
  have i: "i \<le> N_HBLK_FLS" by (simp add: i_def GC_hblk_fl_from_blocks_le)
  have seg: "seg ?F 0 f xs 0" and dist: "distinct xs" and bytes: "GC_free_bytes st i = of_nat (list_bytes ?F xs)"
    using ok i unfolding lists_ok_def xs_def f_def by metis+
  have hxs: "h \<notin> set xs" using h(3) by (auto simp: listed_def xs_def)
  have f0: "f = 0 \<longleftrightarrow> xs = []" and fhd: "xs \<noteq> [] \<Longrightarrow> f = hd xs"
    using seg_head[OF seg] seg_nonzero[OF seg] by (cases xs; auto)+
  have r: "hdr_at st ?a = r" using h by (simp add: blocks_Some)
  define st1 where "st1 = st\<lparr>GC_hblkfreelist := (GC_hblkfreelist st)(i := h),
    GC_free_bytes := (GC_free_bytes st)(i := GC_free_bytes st i + of_nat (hb_sz r))\<rparr>"
  define st2 where "st2 = upd_hdr ?a (\<lambda>r. r\<lparr>hb_next := f, hb_prev := 0\<rparr>) st1"
  define st3 where "st3 = (if xs = [] then st2 else upd_hdr (HDR (hs st) f) (\<lambda>r. r\<lparr>hb_prev := h\<rparr>) st2)"
  define st4 where "st4 = upd_hdr ?a (\<lambda>r. r\<lparr>hb_flags := hb_flags r OR FREE_BLK\<rparr>) st3"
  define F2 where "F2 = ?F(h \<mapsto> r\<lparr>hb_next := f, hb_prev := 0\<rparr>)"
  define F3 where "F3 = (if xs = [] then F2 else F2(hd xs \<mapsto> (the (?F (hd xs)))\<lparr>hb_prev := h\<rparr>))"
  define F4 where "F4 = F3(h \<mapsto> r\<lparr>hb_next := f, hb_prev := 0, hb_flags := hb_flags r OR FREE_BLK\<rparr>)"
  obtain rx where rx: "xs \<noteq> [] \<Longrightarrow> ?F (hd xs) = Some rx" using seg_Some[OF seg, of "hd xs"] by fastforce
  have hd: "hd xs \<noteq> h" if "xs \<noteq> []" using hxs that by auto
  have HDR: "HDR (hs st1) = HDR (hs st)" "HDR (hs st2) = HDR (hs st)" "HDR (hs st3) = HDR (hs st)"
    "HDR (hs st4) = HDR (hs st)"
    by (auto simp: st1_def st2_def st3_def st4_def)
  have s1: "hm L (hs st1)" "blocks (hs st1) h = Some r" using hm h by (simp_all add: st1_def)
  have s2: "hm L (hs st2)" "blocks (hs st2) = F2"
    using upd_hdr_ok[OF s1] HDR by (simp_all add: st2_def F2_def) (simp add: st1_def)
  have s3: "hm L (hs st3)" "blocks (hs st3) = F3"
    using s2 upd_hdr_ok[OF s2(1), of "hd xs" rx] rx hd fhd HDR by (auto simp: st3_def F3_def F2_def)
  have "F3 h = Some (r\<lparr>hb_next := f, hb_prev := 0\<rparr>)" using hd by (auto simp: F3_def F2_def)
  then have s4: "hm L (hs st4)" "blocks (hs st4) = F4"
    using upd_hdr_ok[OF s3(1), of h] s3(2) HDR by (simp_all add: st4_def F4_def)
  have fr: "frame st st4"
  proof -
    have "frame st st1" unfolding st1_def by (rule frame_trans[OF frame_fl(1)]) (rule frame_fl(2))
    then have "frame st st2" unfolding st2_def using frame_upd_hdr by (rule frame_trans)
    then have "frame st st3" unfolding st3_def using frame_upd_hdr frame_trans by auto
    then show ?thesis unfolding st4_def using frame_upd_hdr by (rule frame_trans)
  qed
  have run: "GC_add_to_fl st h ?a = Ret st4"
    unfolding GC_add_to_fl_def Let_def r i_def[symmetric] f_def[symmetric] st1_def[symmetric] st2_def[symmetric]
    by (simp add: f0 hm_GET_HDR[OF s2(1)] HDR st4_def st3_def)
  define F0 where "F0 = ?F(h \<mapsto> r\<lparr>hb_flags := hb_flags r OR FREE_BLK\<rparr>)"
  have core: "same_core F0 F4"
    using h rx hd by (auto simp: same_core_def F0_def F4_def F3_def F2_def core_def)
  have out: "F4 x = ?F x" if "x \<noteq> h" "x \<notin> set xs" for x
    using that by (cases xs) (auto simp: F4_def F3_def F2_def)
  have fl: "GC_hblkfreelist st4 = (GC_hblkfreelist st)(i := h)"
    "GC_free_bytes st4 = (GC_free_bytes st)(i := GC_free_bytes st i + of_nat (hb_sz r))"
    by (auto simp: st4_def st3_def st2_def st1_def upd_hdr_def set_hs_def)
  have lists: "fl_ok st4 (ls(i := h # xs))"
  proof -
    show ?thesis
      unfolding s4(2) fl
    proof (rule lists_ok_change[OF _ core i])
      show "lists_ok F0 (GC_hblkfreelist st) (GC_free_bytes st) ls"
        using ok h(3) by (simp add: F0_def lists_ok_upd)
      have "seg F4 h f xs 0" 
        using seg hxs dist rx fhd by (cases xs) (auto simp: F4_def F3_def F2_def)
      then show "seg F4 0 h (h # xs) 0" using h(2) by (simp add: F4_def)
      have "list_bytes F0 xs = list_bytes ?F xs" using hxs by (intro list_bytes_cong) (auto simp: F0_def)
      then show "GC_free_bytes st i + of_nat (hb_sz r) = of_nat (list_bytes F0 (h # xs))"
        using bytes by (simp add: F0_def)
      show dis: "set (h # xs) \<inter> set (ls j) = {}" if "j \<noteq> i" for j
      proof -
        have "set (ls i) \<inter> set (ls j) = {}" using ok that by (metis lists_ok_def)
        then show ?thesis using h(3) by (auto simp: xs_def listed_def)
      qed
      show "F4 x = F0 x" if "j \<noteq> i" "x \<in> set (ls j)" for j x
        using dis[OF that(1)] that(2) out[of x] by (auto simp: F0_def)
    qed (use dist hxs in auto)
  qed
  have os: "os_mem (hs st4) = os_mem (hs st)"
    by (auto simp: st4_def st3_def st2_def st1_def)
  show thesis
    by (rule that[of st4]) (use run s4 lists HDR fr core out os fl in \<open>simp_all add: i_def xs_def F0_def\<close>)
qed

end
