(* ===== verification/Hblk_Parts.thy ===== *)
theory Hblk_Parts
  imports Hblk_List
begin

text \<open>
  The heap as a sequence of blocks: what the headers and the forwarding counts of the index say
  about the extent of the blocks in use and of the free blocks, and the functions of
  \<^verbatim>\<open>allchblk.c\<close> that find the neighbour of a block from them.
\<close>

section \<open>Neighbouring blocks\<close>

definition OBJ_SZ_TO_BLOCKS :: "nat \<Rightarrow> nat" where
  "OBJ_SZ_TO_BLOCKS lb = (lb + BLK - 1) mod 2 ^ 64 div BLK"

text \<open>Each round moves \<open>h\<close> down by a block at least.\<close>

fun find_starting_loop :: "nat \<Rightarrow> heap_state \<Rightarrow> nat \<Rightarrow> nat \<Rightarrow> (nat \<times> nat) outcome" where
  "find_starting_loop 0 st h hhdr = Stuck"
| "find_starting_loop (Suc fuel) st h hhdr =
     (if IS_FORWARDING_ADDR_OR_NIL hhdr then
        let h = h - hhdr * BLK
        in obind (GET_HDR st h) (find_starting_loop fuel st h)
      else Ret (h, hhdr))"

definition GC_find_starting_hblk :: "heap_state \<Rightarrow> nat \<Rightarrow> nat \<Rightarrow> (nat \<times> nat) outcome" where
  "GC_find_starting_hblk st h hhdr = find_starting_loop FL_FUEL st h hhdr"

definition get_block_ending_at :: "heap_state \<Rightarrow> nat \<Rightarrow> nat outcome" where
  "get_block_ending_at st h =
     (let p = h - BLK
      in obind (GET_HDR st p) (\<lambda>hhdr.
           if hhdr \<noteq> 0 then obind (GC_find_starting_hblk st p hhdr) (\<lambda>(p, hhdr). Ret p)
           else obind (GC_prev_block (hs st) p) (\<lambda>p.
             if p \<noteq> 0 then
               obind (GET_HDR st p) (\<lambda>hhdr.
                 if p + hb_sz (hdr_at st hhdr) = h then Ret p else Ret 0)
             else Ret 0)))"

definition GC_free_block_ending_at :: "heap_state \<Rightarrow> nat \<Rightarrow> nat outcome" where
  "GC_free_block_ending_at st h =
     obind (get_block_ending_at st h) (\<lambda>p.
       if p \<noteq> 0 then
         obind (GET_HDR st p) (\<lambda>hhdr. if HBLK_IS_FREE (hdr_at st hhdr) then Ret p else Ret 0)
       else Ret 0)"

section \<open>Blocks as a partition\<close>

text \<open>The bytes a block occupies.\<close>

definition ext :: "hdr \<Rightarrow> nat" where
  "ext r = (if HBLK_IS_FREE r then hb_sz r else BLK * OBJ_SZ_TO_BLOCKS (hb_sz r))"

definition blk_ok :: "nat \<Rightarrow> hdr \<Rightarrow> bool" where
  "blk_ok h r \<longleftrightarrow> 0 < h \<and> BLK dvd h \<and> hb_block r = h \<and> 0 < hb_sz r \<and> hb_sz r \<le> ext r \<and> BLK dvd ext r
     \<and> h + ext r + BLK \<le> 2 ^ 64"

text \<open>
  In the addresses from \<open>lo\<close> to \<open>hi\<close> the blocks \<open>F\<close> lie one after the other, and the index \<open>H\<close> has no
  entries but those of the blocks: none inside a free block, the forwarding counts inside a
  block in use.
\<close>

definition parts_in :: "nat \<Rightarrow> nat \<Rightarrow> (nat \<Rightarrow> nat) \<Rightarrow> (nat \<Rightarrow> hdr option) \<Rightarrow> bool" where
  "parts_in lo hi H F \<longleftrightarrow>
     (\<forall>h r. F h = Some r \<longrightarrow> lo \<le> h \<longrightarrow> h < hi \<longrightarrow> blk_ok h r \<and> h + ext r \<le> hi)
     \<and> (\<forall>h r h' r'. F h = Some r \<longrightarrow> F h' = Some r' \<longrightarrow> lo \<le> h \<longrightarrow> h < h' \<longrightarrow> h' < hi \<longrightarrow> h + ext r \<le> h')
     \<and> (\<forall>h r q. F h = Some r \<longrightarrow> BLK dvd q \<longrightarrow> lo \<le> h \<longrightarrow> h < hi \<longrightarrow> h < q \<longrightarrow> q < h + ext r \<longrightarrow>
          H q = (if HBLK_IS_FREE r then 0 else min ((q - h) div BLK) MAX_JUMP))
     \<and> (\<forall>q. BLK dvd q \<longrightarrow> lo \<le> q \<longrightarrow> q < hi \<longrightarrow> H q \<noteq> 0 \<longrightarrow> (\<exists>h r. F h = Some r \<and> lo \<le> h \<and> h \<le> q \<and> q < h + ext r))"

abbreviation parts :: "(nat \<Rightarrow> nat) \<Rightarrow> (nat \<Rightarrow> hdr option) \<Rightarrow> bool" where
  "parts H F \<equiv> parts_in 0 (2 ^ 64) H F"

lemma parts_in_ok: "parts_in lo hi H F \<Longrightarrow> F h = Some r \<Longrightarrow> lo \<le> h \<Longrightarrow> h < hi \<Longrightarrow> blk_ok h r \<and> h + ext r \<le> hi"
  by (drule parts_in_def[THEN iffD1], drule conjunct1, blast)

lemma parts_in_disjoint:
  "parts_in lo hi H F \<Longrightarrow> F h = Some r \<Longrightarrow> F h' = Some r' \<Longrightarrow> lo \<le> h \<Longrightarrow> h < h' \<Longrightarrow> h' < hi \<Longrightarrow> h + ext r \<le> h'"
  by (drule parts_in_def[THEN iffD1], drule conjunct2, drule conjunct1, blast)

lemma parts_in_inside:
  "parts_in lo hi H F \<Longrightarrow> F h = Some r \<Longrightarrow> BLK dvd q \<Longrightarrow> lo \<le> h \<Longrightarrow> h < hi \<Longrightarrow> h < q \<Longrightarrow> q < h + ext r \<Longrightarrow>
     H q = (if HBLK_IS_FREE r then 0 else min ((q - h) div BLK) MAX_JUMP)"
  by (drule parts_in_def[THEN iffD1], drule conjunct2, drule conjunct2, drule conjunct1, blast)

lemma parts_in_cover:
  "parts_in lo hi H F \<Longrightarrow> BLK dvd q \<Longrightarrow> lo \<le> q \<Longrightarrow> q < hi \<Longrightarrow> H q \<noteq> 0 \<Longrightarrow> \<exists>h r. F h = Some r \<and> lo \<le> h \<and> h \<le> q \<and> q < h + ext r"
  by (drule parts_in_def[THEN iffD1], drule conjunct2, drule conjunct2, drule conjunct2, blast)

text \<open>An address that lies in no block but may begin or end one.\<close>

definition boundary :: "(nat \<Rightarrow> hdr option) \<Rightarrow> nat \<Rightarrow> bool" where
  "boundary F m \<longleftrightarrow> (\<forall>h r. F h = Some r \<longrightarrow> h < m \<longrightarrow> h + ext r \<le> m)"

lemma boundary_start: "parts_in lo hi H F \<Longrightarrow> F h = Some r \<Longrightarrow> lo = 0 \<Longrightarrow> h < hi \<Longrightarrow> boundary F h"
  unfolding boundary_def by (metis parts_in_disjoint le0)

lemma boundary_end:
  assumes "parts_in lo hi H F" "F h = Some r" "lo = 0" "h < hi"
  shows "boundary F (h + ext r)"
proof (unfold boundary_def, intro allI impI)
  fix h' r' assume h': "F h' = Some r'" "h' < h + ext r"
  have hi: "h + ext r \<le> hi" using parts_in_ok[OF assms(1,2)] assms by simp
  consider "h' < h" | "h' = h" | "h < h'" by linarith
  then show "h' + ext r' \<le> h + ext r"
  proof cases
    case 1
    then show ?thesis using parts_in_disjoint[OF assms(1) h'(1) assms(2)] assms(3,4) by linarith
  next
    case 2
    then show ?thesis using assms h' by simp
  next
    case 3
    then show ?thesis using parts_in_disjoint[OF assms(1,2) h'(1)] assms(3,4) h'(2) hi by linarith
  qed
qed

lemma parts_in_split:
  assumes p: "parts_in lo hi H F" and m: "lo \<le> m" "m \<le> hi" "boundary F m"
  shows "parts_in lo m H F" "parts_in m hi H F"
proof -
  have b: "h + ext r \<le> m" if "F h = Some r" "h < m" for h r using m(3) that by (simp add: boundary_def)
  have cov: "\<exists>h r. F h = Some r \<and> (if q < m then lo else m) \<le> h \<and> h \<le> q \<and> q < h + ext r"
    if q: "BLK dvd q" "lo \<le> q" "q < hi" "H q \<noteq> 0" for q
  proof -
    obtain h r where h: "F h = Some r" "lo \<le> h" "h \<le> q" "q < h + ext r" using parts_in_cover[OF p q] by blast
    have "m \<le> h" if "\<not> q < m" using b[of h r] h that by linarith
    with h show ?thesis by (cases "q < m") auto
  qed
  note ok = parts_in_ok[OF p] and dis = parts_in_disjoint[OF p] and ins = parts_in_inside[OF p]
  show "parts_in lo m H F"
    unfolding parts_in_def
  proof (intro conjI allI impI)
    fix h r h' r' assume "F h = Some r" "F h' = Some r'" "lo \<le> h" "h < h'" "h' < m"
    then show "h + ext r \<le> h'" using dis m(2) by (meson less_le_trans)
  next
    fix h r q assume "F h = Some r" "BLK dvd q" "lo \<le> h" "h < m" "h < q" "q < h + ext r"
    then show "H q = (if HBLK_IS_FREE r then 0 else min ((q - h) div BLK) MAX_JUMP)" using ins m(2) by (meson less_le_trans)
  next
    fix q assume q: "BLK dvd q" "lo \<le> q" "q < m" "H q \<noteq> 0"
    then show "\<exists>h r. F h = Some r \<and> lo \<le> h \<and> h \<le> q \<and> q < h + ext r" using cov[OF q(1,2) _ q(4)] m(2) by simp
  qed (use ok b m(2) in auto)
  show "parts_in m hi H F"
    unfolding parts_in_def
  proof (intro conjI allI impI)
    fix h r h' r' assume "F h = Some r" "F h' = Some r'" "m \<le> h" "h < h'" "h' < hi"
    then show "h + ext r \<le> h'" using dis m(1) by (meson le_trans)
  next
    fix h r q assume "F h = Some r" "BLK dvd q" "m \<le> h" "h < hi" "h < q" "q < h + ext r"
    then show "H q = (if HBLK_IS_FREE r then 0 else min ((q - h) div BLK) MAX_JUMP)" using ins m(1) by (meson le_trans)
  next
    fix q assume q: "BLK dvd q" "m \<le> q" "q < hi" "H q \<noteq> 0"
    then show "\<exists>h r. F h = Some r \<and> m \<le> h \<and> h \<le> q \<and> q < h + ext r" using cov[OF q(1) _ q(3,4)] m(1) by simp
  qed (use ok m(1) in auto)
qed

lemma parts_in_append:
  assumes p: "parts_in lo m H F" and p': "parts_in m hi H F" and m: "lo \<le> m" "m \<le> hi"
  shows "parts_in lo hi H F"
  unfolding parts_in_def
proof (intro conjI allI impI)
  fix h r assume h: "F h = Some r" "lo \<le> h" "h < hi"
  show "blk_ok h r" using parts_in_ok[OF p h(1)] parts_in_ok[OF p' h(1)] h m by (cases "h < m") auto
  show "h + ext r \<le> hi" using parts_in_ok[OF p h(1)] parts_in_ok[OF p' h(1)] h m by (cases "h < m") auto
next
  fix h r h' r' assume h: "F h = Some r" "F h' = Some r'" "lo \<le> h" "h < h'" "h' < hi"
  show "h + ext r \<le> h'"
    using parts_in_disjoint[OF p h(1,2,3,4)] parts_in_disjoint[OF p' h(1,2)] parts_in_ok[OF p h(1,3)] h
    by (cases "h' < m"; cases "h < m") auto
next
  fix h r q assume h: "F h = Some r" "BLK dvd q" "lo \<le> h" "h < hi" "h < q" "q < h + ext r"
  show "H q = (if HBLK_IS_FREE r then 0 else min ((q - h) div BLK) MAX_JUMP)"
    using parts_in_inside[OF p h(1,2,3)] parts_in_inside[OF p' h(1,2)] h by (cases "h < m") auto
next
  fix q assume q: "BLK dvd q" "lo \<le> q" "q < hi" "H q \<noteq> 0"
  show "\<exists>h r. F h = Some r \<and> lo \<le> h \<and> h \<le> q \<and> q < h + ext r"
  proof (cases "q < m")
    case True
    then show ?thesis using parts_in_cover[OF p q(1,2) _ q(4)] by blast
  next
    case False
    then obtain h r where "F h = Some r" "m \<le> h" "h \<le> q" "q < h + ext r"
      using parts_in_cover[OF p' q(1) _ q(3,4)] by auto
    then show ?thesis using m by (meson le_trans)
  qed
qed

lemma parts_in_cong:
  assumes "\<And>h. lo \<le> h \<Longrightarrow> h < hi \<Longrightarrow> F' h = F h" "\<And>q. BLK dvd q \<Longrightarrow> lo \<le> q \<Longrightarrow> q < hi \<Longrightarrow> H' q = H q"
    and p: "parts_in lo hi H F"
  shows "parts_in lo hi H' F'"
  unfolding parts_in_def
proof (intro conjI allI impI)
  fix h r h' r' assume "F' h = Some r" "F' h' = Some r'" "lo \<le> h" "h < h'" "h' < hi"
  then show "h + ext r \<le> h'" using parts_in_disjoint[OF p] assms(1)[of h] assms(1)[of h'] by auto
next
  fix h r q assume h: "F' h = Some r" "BLK dvd q" "lo \<le> h" "h < hi" "h < q" "q < h + ext r"
  then have "F h = Some r" using assms(1) by simp
  moreover from this have "q < hi" using parts_in_ok[OF p] h by fastforce
  ultimately show "H' q = (if HBLK_IS_FREE r then 0 else min ((q - h) div BLK) MAX_JUMP)"
    using parts_in_inside[OF p] h assms(2)[of q] by simp
next
  fix q assume q: "BLK dvd q" "lo \<le> q" "q < hi" "H' q \<noteq> 0"
  then obtain h r where h: "F h = Some r" "lo \<le> h" "h \<le> q" "q < h + ext r"
    using parts_in_cover[OF p q(1-3)] assms(2) by auto
  then show "\<exists>h r. F' h = Some r \<and> lo \<le> h \<and> h \<le> q \<and> q < h + ext r"
    using assms(1)[of h] q by auto
qed (use assms(1) parts_in_ok[OF p] in auto)

lemma parts_in_empty: "(\<And>h. lo \<le> h \<Longrightarrow> h < hi \<Longrightarrow> F h = None) \<Longrightarrow> (\<And>q. BLK dvd q \<Longrightarrow> lo \<le> q \<Longrightarrow> q < hi \<Longrightarrow> H q = 0)
    \<Longrightarrow> parts_in lo hi H F"
  unfolding parts_in_def by auto

lemma parts_in_single:
  assumes "F h = Some r" "blk_ok h r" "\<And>x. h < x \<Longrightarrow> x < h + ext r \<Longrightarrow> F x = None"
    and "\<And>q. BLK dvd q \<Longrightarrow> h < q \<Longrightarrow> q < h + ext r \<Longrightarrow>
          H q = (if HBLK_IS_FREE r then 0 else min ((q - h) div BLK) MAX_JUMP)"
  shows "parts_in h (h + ext r) H F"
proof -
  have only: "x = h" if "F x = Some r'" "h \<le> x" "x < h + ext r" for x r'
    using assms(3)[of x] that by (cases "x = h") auto
  show ?thesis
    unfolding parts_in_def
  proof (intro conjI allI impI)
    fix x r' q assume "F x = Some r'" "BLK dvd q" "h \<le> x" "x < h + ext r" "x < q" "q < x + ext r'"
    moreover from this have "x = h" using only by blast
    ultimately show "H q = (if HBLK_IS_FREE r' then 0 else min ((q - x) div BLK) MAX_JUMP)"
      using assms(1,4) by simp
  next
    fix x r' x' r'' assume "F x = Some r'" "F x' = Some r''" "h \<le> x" "x < x'" "x' < h + ext r"
    then show "x + ext r' \<le> x'" using only[of x' r''] by simp
  next
    fix q assume "BLK dvd q" "h \<le> q" "q < h + ext r" "H q \<noteq> 0"
    then show "\<exists>x r'. F x = Some r' \<and> h \<le> x \<and> x \<le> q \<and> q < x + ext r'" using assms(1) by blast
  next
    fix x r' assume x: "F x = Some r'" "h \<le> x" "x < h + ext r"
    then have "x = h" using only by blast
    then show "blk_ok x r'" "x + ext r' \<le> h + ext r" using x assms(1,2) by simp_all
  qed
qed

text \<open>Rearranging the blocks between two boundaries.\<close>

lemma parts_replace:
  assumes p: "parts H F" and ab: "a \<le> b" "b \<le> 2 ^ 64" "boundary F a" "boundary F b"
    and new: "parts_in a b H' F'"
    and "\<And>h. h < a \<or> b \<le> h \<Longrightarrow> F' h = F h" "\<And>q. BLK dvd q \<Longrightarrow> q < a \<or> b \<le> q \<Longrightarrow> H' q = H q"
  shows "parts H' F'"
proof -
  have "a \<le> 2 ^ 64" using ab by linarith
  note l = parts_in_split(1)[OF p le0 this ab(3)] and r = parts_in_split(2)[OF p le0 ab(2,4)]
  have "parts_in 0 a H' F'" by (rule parts_in_cong[OF _ _ l]) (use assms(7,8) in auto)
  moreover have "parts_in b (2 ^ 64) H' F'" by (rule parts_in_cong[OF _ _ r]) (use assms(7,8) in auto)
  ultimately show ?thesis
    using new ab parts_in_append[of 0 a H' F' b] parts_in_append[of 0 b H' F' "2 ^ 64"] by simp
qed

lemma ext_core: "core r = core r' \<Longrightarrow> ext r = ext r' \<and> HBLK_IS_FREE r = HBLK_IS_FREE r' \<and> blk_ok h r = blk_ok h r'"
  using core_eqD[of r r'] by (simp add: ext_def HBLK_IS_FREE_def blk_ok_def)

lemma same_core_sym: "same_core F G \<Longrightarrow> same_core G F"
  by (simp add: same_core_def)

text \<open>What the partition depends on in a header.\<close>

definition shape :: "hdr \<Rightarrow> nat \<times> nat \<times> bool" where
  "shape r = (hb_block r, hb_sz r, HBLK_IS_FREE r)"

definition same_shape :: "(nat \<Rightarrow> hdr option) \<Rightarrow> (nat \<Rightarrow> hdr option) \<Rightarrow> bool" where
  "same_shape F G \<longleftrightarrow> (\<forall>x. map_option shape (F x) = map_option shape (G x))"

lemma shape_core: "core r = core r' \<Longrightarrow> shape r = shape r'"
  using core_eqD[of r r'] by (simp add: shape_def HBLK_IS_FREE_def)

lemma shape_ext: "shape r = shape r' \<Longrightarrow> ext r = ext r' \<and> HBLK_IS_FREE r = HBLK_IS_FREE r' \<and> blk_ok h r = blk_ok h r'"
  by (auto simp: shape_def ext_def blk_ok_def)

lemma same_shape_sym: "same_shape F G \<Longrightarrow> same_shape G F"
  by (simp add: same_shape_def)

lemma same_shape_Some:
  assumes "same_shape F G" "F x = Some r"
  obtains r' where "G x = Some r'" "shape r' = shape r"
  using assms by (cases "G x") (auto simp: same_shape_def dest: spec[of _ x])

lemma same_core_shape:
  assumes "same_core F G"
  shows "same_shape F G"
  unfolding same_shape_def
proof
  fix x
  have "map_option core (F x) = map_option core (G x)" using assms by (simp add: same_core_def)
  then show "map_option shape (F x) = map_option shape (G x)"
    by (cases "F x"; cases "G x") (auto dest: shape_core)
qed

lemma same_shape_upd: "F x = Some r \<Longrightarrow> shape r' = shape r \<Longrightarrow> same_shape F (F(x \<mapsto> r'))"
  by (simp add: same_shape_def)

lemma parts_in_shape:
  assumes shape: "same_shape F G" and p: "parts_in lo hi H F"
  shows "parts_in lo hi H G"
proof -
  have pre: "\<exists>r. F h = Some r \<and> ext r = ext r' \<and> HBLK_IS_FREE r = HBLK_IS_FREE r' \<and> blk_ok h r = blk_ok h r'"
    if "G h = Some r'" for h r'
    using same_shape_Some[OF same_shape_sym[OF shape] that] shape_ext by metis
  show ?thesis
    unfolding parts_in_def
  proof (intro conjI allI impI)
    fix h r assume "G h = Some r" "lo \<le> h" "h < hi"
    then show "blk_ok h r" "h + ext r \<le> hi" using pre[of h r] parts_in_ok[OF p, of h] by fastforce+
  next
    fix h r h' r' assume "G h = Some r" "G h' = Some r'" "lo \<le> h" "h < h'" "h' < hi"
    then show "h + ext r \<le> h'" using pre[of h r] pre[of h' r'] parts_in_disjoint[OF p, of h _ h'] by fastforce
  next
    fix h r q assume "G h = Some r" "BLK dvd q" "lo \<le> h" "h < hi" "h < q" "q < h + ext r"
    then show "H q = (if HBLK_IS_FREE r then 0 else min ((q - h) div BLK) MAX_JUMP)"
      using pre[of h r] parts_in_inside[OF p, of h _ q] by auto
  next
    fix q assume "BLK dvd q" "lo \<le> q" "q < hi" "H q \<noteq> 0"
    then obtain h r where "F h = Some r" "lo \<le> h" "h \<le> q" "q < h + ext r" using parts_in_cover[OF p] by blast
    moreover from same_shape_Some[OF shape this(1)] obtain r' where "G h = Some r'" "shape r' = shape r" .
    ultimately show "\<exists>h r. G h = Some r \<and> lo \<le> h \<and> h \<le> q \<and> q < h + ext r" using shape_ext by metis
  qed
qed

lemma parts_in_core: "same_core F G \<Longrightarrow> parts_in lo hi H F \<Longrightarrow> parts_in lo hi H G"
  by (rule parts_in_shape[OF same_core_shape])

section \<open>Finding the neighbour\<close>

abbreviation heap_parts :: "hdr_state \<Rightarrow> bool" where
  "heap_parts s \<equiv> parts (HDR s) (blocks s)"

lemma hm_HDR_below:
  assumes "hm L s" "HDR s h \<noteq> 0"
  shows "h < 2 ^ 64"
proof (rule ccontr)
  assume big: "\<not> h < 2 ^ 64"
  obtain bs where inv: "ht_inv s bs" using assms(1) by (auto simp: hm_def hdr_inv_def)
  have "\<not> has_index s bs h"
  proof
    assume "has_index s bs h"
    then obtain b where "b \<in> set bs" "key_of s b = hi_of h" by (auto simp: has_index_def)
    then have "hi_of h < 2 ^ 42" using inv unfolding ht_inv_def by metis
    moreover have "2 ^ 64 div (BOTTOM_SZ * BLK) \<le> hi_of h"
      unfolding hi_of_def using big by (intro div_le_mono) simp
    ultimately show False by (simp add: gc_consts)
  qed
  then show False using HDR_absent[OF inv] assms(2) by simp
qed

lemma blocks_below: "hm L s \<Longrightarrow> blocks s h = Some r \<Longrightarrow> h < 2 ^ 64"
  by (rule hm_HDR_below) (auto simp: blocks_Some)

lemma parts_blk_ok:
  assumes "heap_parts s" "hm L s" "blocks s h = Some r"
  shows "blk_ok h r" "boundary (blocks s) h" "boundary (blocks s) (h + ext r)"
  using blocks_below[OF assms(2,3)] parts_in_ok[OF assms(1,3)] boundary_start[OF assms(1,3)] boundary_end[OF assms(1,3)]
  by simp_all

lemma blk_ok_div:
  assumes "blk_ok h r" "BLK dvd q" "h \<le> q" "q < h + ext r"
  shows "(q - h) div BLK < 2 ^ 52"
proof -
  have "q - h < 2 ^ 64" using assms unfolding blk_ok_def by linarith
  then show ?thesis by (simp add: BLK_def)
qed

lemma find_starting_loop_ok:
  assumes hm: "hm L (hs st)" and p: "heap_parts (hs st)" and h: "blocks (hs st) h = Some r"
    and q: "BLK dvd q" "h \<le> q" "q < h + ext r" "HDR (hs st) q \<noteq> 0" "(q - h) div BLK < fuel"
  shows "find_starting_loop fuel st q (HDR (hs st) q) = Ret (h, HDR (hs st) h)"
  using q
proof (induction fuel arbitrary: q)
  case (Suc fuel)
  have ok: "blk_ok h r" and h64: "h < 2 ^ 64" using parts_blk_ok[OF p hm h] blocks_below[OF hm h] by simp_all
  show ?case
  proof (cases "q = h")
    case True
    then show ?thesis using h by (simp add: blocks_Some IS_FORWARDING_ADDR_OR_NIL_def)
  next
    case False
    define c where "c = min ((q - h) div BLK) MAX_JUMP"
    define q' where "q' = q - c * BLK"
    have hq: "h < q" using False Suc.prems by simp
    have inside: "HDR (hs st) q = (if HBLK_IS_FREE r then 0 else c)"
      unfolding c_def using parts_in_inside[OF p h Suc.prems(1) _ h64 hq Suc.prems(3)] by simp
    have used: "\<not> HBLK_IS_FREE r" using inside Suc.prems(4) by auto
    have aligned: "BLK dvd h" "BLK dvd (q - h)" using ok Suc.prems(1,2) by (auto simp: blk_ok_def dvd_diff_nat)
    have "c \<noteq> 0" using inside used Suc.prems(4) by simp
    have le: "c * BLK \<le> q - h" using aligned(2) unfolding c_def by (metis dvd_div_mult_self min.cobounded1 mult_le_mono1)
    have q': "h \<le> q'" "q' < q" "BLK dvd q'" "q' < h + ext r"
      using le hq Suc.prems \<open>c \<noteq> 0\<close> by (auto simp: q'_def BLK_def dvd_diff_nat)
    have small: "(q' - h) div BLK < (q - h) div BLK"
    proof -
      have "q - h = (q' - h) + c * BLK" using le hq by (simp add: q'_def)
      then have "(q - h) div BLK = (q' - h) div BLK + c" by (simp add: BLK_def)
      then show ?thesis using \<open>c \<noteq> 0\<close> by simp
    qed
    have nz: "HDR (hs st) q' \<noteq> 0"
    proof (cases "q' = h")
      case True
      then show ?thesis using h by (simp add: blocks_Some)
    next
      case False
      then have lt: "h < q'" using q' by simp
      have "BLK dvd (q' - h)" using aligned(1) q'(3) by (auto simp: dvd_diff_nat)
      then have "0 < (q' - h) div BLK" using lt by (metis dvd_div_eq_0_iff gr0I zero_less_diff less_numeral_extra(3))
      then show ?thesis
        using parts_in_inside[OF p h q'(3) _ h64 lt q'(4)] used by (simp add: gc_consts)
    qed
    have "find_starting_loop fuel st q' (HDR (hs st) q') = Ret (h, HDR (hs st) h)"
      by (rule Suc.IH) (use q' nz small Suc.prems(5) in auto)
    moreover have "IS_FORWARDING_ADDR_OR_NIL (HDR (hs st) q)" "HDR (hs st) q = c"
      using inside used by (auto simp: IS_FORWARDING_ADDR_OR_NIL_def c_def)
    ultimately show ?thesis
      by (simp add: Let_def hm_GET_HDR[OF hm] q'_def)
  qed
qed simp

lemma starts_block_blocks: "starts_block s n \<longleftrightarrow> (\<exists>r. blocks s (n * BLK) = Some r)"
  by (auto simp: starts_block_def blocks_def)

lemma heap_parts_hdrs_ok:
  assumes hm: "hm L s" and p: "heap_parts s"
  shows "hdrs_ok s"
  unfolding hdrs_ok_def
proof (intro conjI allI impI)
  fix n assume "starts_block s n"
  then show "hb_block (hdr_mem s (HDR s (n * BLK))) = n * BLK"
    using parts_blk_ok(1)[OF p hm] by (auto simp: starts_block_def blocks_Some blk_ok_def)
next
  fix n assume n: "starts_block s n \<and> \<not> block_in_use s n"
  then obtain r where r: "blocks s (n * BLK) = Some r" "HBLK_IS_FREE r" "r = hdr_mem s (HDR s (n * BLK))"
    by (auto simp: block_in_use_def starts_block_def blocks_Some)
  then show "BLK \<le> hb_sz (hdr_mem s (HDR s (n * BLK)))"
    using parts_blk_ok(1)[OF p hm r(1)] by (auto simp: blk_ok_def ext_def intro: dvd_imp_le)
next
  fix n m assume n: "starts_block s n \<and> \<not> block_in_use s n"
    and m: "n < m \<and> m < n + hb_sz (hdr_mem s (HDR s (n * BLK))) div BLK"
  then obtain r where r: "blocks s (n * BLK) = Some r" "HBLK_IS_FREE r" "r = hdr_mem s (HDR s (n * BLK))"
    by (auto simp: block_in_use_def starts_block_def blocks_Some)
  have "BLK dvd hb_sz r" using parts_blk_ok(1)[OF p hm r(1)] r(2) by (simp add: blk_ok_def ext_def)
  then have "m * BLK < n * BLK + ext r" using m r(2,3) by (auto simp: ext_def BLK_def)
  moreover have "n * BLK < m * BLK" using m by (simp add: BLK_def)
  ultimately have "HDR s (m * BLK) = 0"
    using parts_in_inside[OF p r(1), of "m * BLK"] blocks_below[OF hm r(1)] r(2) by simp
  then show "\<not> starts_block s m" by (simp add: starts_block_def)
next
  fix n m assume a: "\<not> starts_block s n \<and> n < m + HDR s (n * BLK) \<and> m \<le> n"
  let ?q = "n * BLK"
  have nz: "HDR s ?q \<noteq> 0" using a by auto
  obtain h r where h: "blocks s h = Some r" "h \<le> ?q" "?q < h + ext r"
    using parts_in_cover[OF p _ _ hm_HDR_below[OF hm nz] nz] by auto
  have lt: "h < ?q" using h a starts_block_blocks[of s n] by (cases "h = ?q") auto
  have h64: "h < 2 ^ 64" by (rule blocks_below[OF hm h(1)])
  have c: "HDR s ?q \<le> (?q - h) div BLK"
    using parts_in_inside[OF p h(1) _ _ h64 lt h(3)] by (simp split: if_splits)
  have al: "BLK dvd h" using h(1) by (simp add: blocks_Some)
  then obtain k where k: "h = k * BLK" by (metis dvd_def mult.commute)
  have "(?q - h) div BLK = n - k" using k by (simp add: BLK_def flip: diff_mult_distrib)
  then have "k < m" using a c lt k by (auto simp: BLK_def)
  then have hm': "h < m * BLK" using k by (simp add: BLK_def)
  show "\<not> starts_block s m"
  proof
    assume "starts_block s m"
    then obtain r' where r': "blocks s (m * BLK) = Some r'" using starts_block_blocks by blast
    have "h + ext r \<le> m * BLK"
      by (rule parts_in_disjoint[OF p h(1) r' _ hm' blocks_below[OF hm r']]) simp
    moreover have "m * BLK \<le> ?q" using a by simp
    ultimately show False using h(3) by linarith
  qed
qed

lemma cover_unique:
  assumes p: "heap_parts s" and hm: "hm L s"
    and x: "blocks s x = Some r" "x \<le> q" "q < x + ext r" and y: "blocks s y = Some r'" "y \<le> q" "q < y + ext r'"
  shows "x = y"
proof (rule ccontr)
  assume "x \<noteq> y"
  then consider "x < y" | "y < x" by linarith
  then show False
  proof cases
    case 1
    then have "x + ext r \<le> y" by (intro parts_in_disjoint[OF p x(1) y(1) _ _ blocks_below[OF hm y(1)]]) simp_all
    then show False using x y by linarith
  next
    case 2
    then have "y + ext r' \<le> x" by (intro parts_in_disjoint[OF p y(1) x(1) _ _ blocks_below[OF hm x(1)]]) simp_all
    then show False using x y by linarith
  qed
qed

lemma GC_prev_block_hm:
  assumes "hm L s" "heap_parts s"
  shows "\<exists>r. GC_prev_block s h = Ret r \<and> prev_spec (starts_block s) (int (h div BLK)) r"
  using assms heap_parts_hdrs_ok[OF assms] GC_prev_block_spec by (auto simp: hm_def hdr_inv_def)

text \<open>The last block before \<open>h\<close>, when \<open>h\<close> lies in no block.\<close>

lemma blk_mult:
  assumes "BLK dvd a" "BLK dvd b" "a < b"
  shows "a + BLK \<le> b"
proof -
  have "BLK dvd (b - a)" "0 < b - a" using assms by (auto intro: dvd_diff_nat)
  then have "BLK \<le> b - a" by (rule dvd_imp_le)
  then show ?thesis using assms(3) by linarith
qed

lemma blk_ends:
  assumes ok: "blk_ok x r" and h: "BLK dvd h" "BLK \<le> h"
  shows "x + ext r = h \<Longrightarrow> x \<le> h - BLK \<and> h - BLK < x + ext r"
    and "x \<le> h - BLK \<Longrightarrow> h - BLK < x + ext r \<Longrightarrow> x + ext r \<le> h \<Longrightarrow> x + ext r = h"
proof -
  have al: "BLK dvd x" "BLK dvd x + ext r" "x < x + ext r" "0 < BLK" using ok by (auto simp: blk_ok_def BLK_def)
  show "x \<le> h - BLK \<and> h - BLK < x + ext r" if "x + ext r = h"
    using blk_mult[OF al(1-3)] al(4) h(2) that by linarith
  have "BLK dvd h - BLK" using h by simp
  then show "x + ext r = h" if "x \<le> h - BLK" "h - BLK < x + ext r" "x + ext r \<le> h"
    using blk_mult[OF _ al(2) that(2)] that h(2) by linarith
qed

lemma GC_free_block_ending_at_spec:
  assumes hm: "hm L (hs st)" and p: "heap_parts (hs st)" and h: "BLK dvd h" "0 < h" "h < 2 ^ 64"
    and b: "boundary (blocks (hs st)) h"
  shows "\<exists>q. GC_free_block_ending_at st h = Ret q \<and>
    (if q = 0 then \<forall>x r. blocks (hs st) x = Some r \<longrightarrow> HBLK_IS_FREE r \<longrightarrow> x + ext r \<noteq> h
     else \<exists>r. blocks (hs st) q = Some r \<and> HBLK_IS_FREE r \<and> q + ext r = h)"
proof -
  let ?s = "hs st" and ?p = "h - BLK"
  have hp: "?p + BLK = h" "BLK \<le> h" "?p < h" "?p < 2 ^ 64" and al: "BLK dvd ?p"
    using h dvd_imp_le[OF h(1,2)] by (auto simp: BLK_def)
  note GET = hm_GET_HDR[OF hm] and ok = parts_blk_ok(1)[OF p hm]
  have ends: "x + ext r \<le> h" if "blocks ?s x = Some r" "x \<le> ?p" for x r
    using b that hp by (simp add: boundary_def)
  show ?thesis
  proof (cases "HDR ?s ?p = 0")
    case False
    then obtain y r where y: "blocks ?s y = Some r" "y \<le> ?p" "?p < y + ext r"
      using parts_in_cover[OF p al _ hp(4)] by auto
    have "find_starting_loop FL_FUEL st ?p (HDR ?s ?p) = Ret (y, HDR ?s y)"
      by (rule find_starting_loop_ok[OF hm p y(1) al y(2,3) False])
        (use blk_ok_div[OF ok[OF y(1)] al y(2,3)] in \<open>simp add: FL_FUEL_def\<close>)
    then have get: "get_block_ending_at st h = Ret y"
      using False by (simp add: get_block_ending_at_def GC_find_starting_hblk_def Let_def GET)
    have y0: "y \<noteq> 0" using ok[OF y(1)] by (simp add: blk_ok_def)
    have yr: "hdr_at st (HDR ?s y) = r" using y(1) by (simp add: blocks_Some)
    have yh: "y + ext r = h" by (rule blk_ends(2)[OF ok[OF y(1)] h(1) hp(2) y(2,3) ends[OF y(1,2)]])
    show ?thesis
    proof (cases "HBLK_IS_FREE r")
      case True
      then have "GC_free_block_ending_at st h = Ret y" using get y0 yr by (simp add: GC_free_block_ending_at_def GET)
      then show ?thesis using y(1) True yh y0 by auto
    next
      case used: False
      have "x + ext r' \<noteq> h" if x: "blocks ?s x = Some r'" "HBLK_IS_FREE r'" for x r'
        using cover_unique[OF p hm x(1) _ _ y] blk_ends(1)[OF ok[OF x(1)] h(1) hp(2)] used x y(1) by auto
      moreover have "GC_free_block_ending_at st h = Ret 0"
        using get y0 yr used by (simp add: GC_free_block_ending_at_def GET)
      ultimately show ?thesis by auto
    qed
  next
    case none: True
    obtain q where prev: "GC_prev_block ?s ?p = Ret q" and spec: "prev_spec (starts_block ?s) (int (?p div BLK)) q"
      using GC_prev_block_hm[OF hm p] by blast
    have numbered: "\<exists>m. x = m * BLK \<and> starts_block ?s m \<and> int m \<le> int (?p div BLK)" if "blocks ?s x = Some r" "x \<le> ?p" for x r
    proof -
      have "BLK dvd x" using that(1) by (simp add: blocks_Some)
      then have m: "x = x div BLK * BLK" by simp
      moreover have "x div BLK \<le> ?p div BLK" by (rule div_le_mono[OF that(2)])
      moreover have "starts_block ?s (x div BLK)" using m that(1) starts_block_blocks by metis
      ultimately show ?thesis by (metis of_nat_le_iff)
    qed
    show ?thesis
    proof (cases "q = 0")
      case True
      then have get: "GC_free_block_ending_at st h = Ret 0"
        by (simp add: GC_free_block_ending_at_def get_block_ending_at_def Let_def GET none prev)
      have "\<not> starts_block ?s 0" using ok[of 0] starts_block_blocks[of ?s 0] by (auto simp: blk_ok_def)
      then have "\<forall>m. int m \<le> int (?p div BLK) \<longrightarrow> \<not> starts_block ?s m"
        using spec True unfolding prev_spec_def by (auto simp: BLK_def)
      then have "x + ext r \<noteq> h" if "blocks ?s x = Some r" for x r
        using numbered[OF that] blk_ends(1)[OF ok[OF that] h(1) hp(2)] by blast
      then show ?thesis using get by auto
    next
      case q0: False
      then obtain n where n: "int n \<le> int (?p div BLK)" "starts_block ?s n" "q = n * BLK"
        "\<And>m. n < m \<Longrightarrow> int m \<le> int (?p div BLK) \<Longrightarrow> \<not> starts_block ?s m"
        using spec unfolding prev_spec_def by blast
      then obtain r where r: "blocks ?s q = Some r" using starts_block_blocks by blast
      have qr: "hdr_at st (HDR ?s q) = r" using r by (simp add: blocks_Some)
      have "n * BLK \<le> ?p div BLK * BLK" using n(1) by (intro mult_le_mono1) simp
      then have qp: "q \<le> ?p" using n(3) al by simp
      then have lt: "q < ?p" using none r by (cases "q = ?p") (auto simp: blocks_Some)
      have last: "x = q" if x: "blocks ?s x = Some r'" "x + ext r' = h" for x r'
      proof -
        have xp: "x \<le> ?p" using blk_ends(1)[OF ok[OF x(1)] h(1) hp(2) x(2)] by simp
        then obtain m where m: "x = m * BLK" "starts_block ?s m" "int m \<le> int (?p div BLK)" using numbered x(1) by blast
        then have "x \<le> q" using n(3,4) by (metis leI mult_le_mono1)
        moreover have "\<not> x < q"
        proof
          assume "x < q"
          then have "x + ext r' \<le> q" by (intro parts_in_disjoint[OF p x(1) r _ _ blocks_below[OF hm r]]) simp_all
          then show False using x(2) qp hp by linarith
        qed
        ultimately show ?thesis by simp
      qed
      show ?thesis
      proof (cases "q + hb_sz r = h")
        case True
        have "HBLK_IS_FREE r"
        proof (rule ccontr)
          assume used: "\<not> HBLK_IS_FREE r"
          have "?p < q + ext r" using True ok[OF r] hp by (auto simp: blk_ok_def)
          then have "HDR ?s ?p = min ((?p - q) div BLK) MAX_JUMP"
            using parts_in_inside[OF p r al _ blocks_below[OF hm r] lt] used by simp
          moreover have "BLK \<le> ?p - q" using blk_mult[OF _ al lt] r lt by (simp add: blocks_Some)
          then have "1 \<le> (?p - q) div BLK" by (simp add: div_greater_zero_iff Suc_le_eq BLK_def)
          ultimately show False using none by (simp add: gc_consts min_def split: if_splits)
        qed
        moreover from this have "q + ext r = h" using True by (simp add: ext_def)
        moreover have "GC_free_block_ending_at st h = Ret q"
          using True q0 \<open>HBLK_IS_FREE r\<close>
          by (simp add: GC_free_block_ending_at_def get_block_ending_at_def Let_def GET none prev qr)
        ultimately show ?thesis using r q0 by auto
      next
        case False
        then have "GC_free_block_ending_at st h = Ret 0"
          using q0 by (simp add: GC_free_block_ending_at_def get_block_ending_at_def Let_def GET none prev qr)
        moreover have "x + ext r' \<noteq> h" if x: "blocks ?s x = Some r'" "HBLK_IS_FREE r'" for x r'
          using last[OF x(1)] x r False by (auto simp: ext_def)
        ultimately show ?thesis by auto
      qed
    qed
  qed
qed

end
