(* ===== verification/Hblk_Free.thy ===== *)
theory Hblk_Free
  imports Hblk_Parts
begin

text \<open>
  Freeing of heap blocks in \<^verbatim>\<open>allchblk.c\<close>: \<open>GC_freehblk\<close> gives a block back to the free lists and
  coalesces it with free neighbours. The invariant of the heap, which says that the headers
  partition it and that the lists hold the free blocks, is stated here.
\<close>

section \<open>Freeing a block\<close>

text \<open>The sign bit of a \<open>size_t\<close>.\<close>

definition has_SIZET_SIGNB :: "nat \<Rightarrow> bool" where
  "has_SIZET_SIGNB n \<longleftrightarrow> odd (n mod 2 ^ 64 div 2 ^ 63)"

definition BLOCKS_MERGE_OVERFLOW :: "hdr \<Rightarrow> hdr \<Rightarrow> bool" where
  "BLOCKS_MERGE_OVERFLOW hhdr nexthdr \<longleftrightarrow> has_SIZET_SIGNB (hb_sz hhdr + hb_sz nexthdr)"

definition on_hdrs :: "heap_state \<Rightarrow> (hdr_state \<Rightarrow> hdr_state outcome) \<Rightarrow> heap_state outcome" where
  "on_hdrs st f = obind (f (hs st)) (\<lambda>s. Ret (set_hs st s))"

text \<open>\<open>GC_freehblk\<close>: the successor, then the predecessor is merged with the block when both are mapped.\<close>

definition coalesce_next :: "heap_state \<Rightarrow> nat \<Rightarrow> nat \<Rightarrow> nat \<Rightarrow> heap_state outcome" where
  "coalesce_next st hhdr next nexthdr =
     (if nexthdr \<noteq> 0 \<and> HBLK_IS_FREE (hdr_at st nexthdr) \<and> IS_MAPPED (hdr_at st nexthdr)
         \<and> \<not> BLOCKS_MERGE_OVERFLOW (hdr_at st hhdr) (hdr_at st nexthdr) then
        obind (GC_remove_from_fl st nexthdr) (\<lambda>st.
          let st = upd_hdr hhdr (\<lambda>r. r\<lparr>hb_sz := hb_sz r + hb_sz (hdr_at st nexthdr)\<rparr>) st
          in on_hdrs st (\<lambda>s. GC_remove_header s next))
      else Ret st)"

definition coalesce_prev :: "heap_state \<Rightarrow> nat \<Rightarrow> nat \<Rightarrow> nat \<Rightarrow> (heap_state \<times> nat \<times> nat) outcome" where
  "coalesce_prev st prev hbp hhdr =
     (if prev \<noteq> 0 then
        obind (GET_HDR st prev) (\<lambda>prevhdr.
          if IS_MAPPED (hdr_at st prevhdr)
             \<and> \<not> BLOCKS_MERGE_OVERFLOW (hdr_at st prevhdr) (hdr_at st hhdr) then
            obind (GC_remove_from_fl st prevhdr) (\<lambda>st.
              let st = upd_hdr prevhdr (\<lambda>r. r\<lparr>hb_sz := hb_sz r + hb_sz (hdr_at st hhdr),
                         hb_last_reclaimed := of_nat (GC_gc_no (hs st))\<rparr>) st
              in obind (on_hdrs st (\<lambda>s. GC_remove_header s hbp)) (\<lambda>st. Ret (st, prev, prevhdr)))
          else Ret (st, hbp, hhdr))
      else Ret (st, hbp, hhdr))"

definition GC_freehblk :: "heap_state \<Rightarrow> nat \<Rightarrow> heap_state outcome" where
  "GC_freehblk st hbp =
     (let st = set_hs st (GC_INVALIDATE_HDR_CACHE (hs st))
      in obind (GET_HDR st hbp) (\<lambda>hhdr.
        let size = BLK * OBJ_SZ_TO_BLOCKS (hb_sz (hdr_at st hhdr))
        in if has_SIZET_SIGNB size
           then Abort ''Deallocating excessively large block.  Too large an allocation?''
           else obind (on_hdrs st (\<lambda>s. GC_remove_counts s hbp size)) (\<lambda>st.
             let st = upd_hdr hhdr (\<lambda>r. r\<lparr>hb_sz := size, hb_last_reclaimed := of_nat (GC_gc_no (hs st))\<rparr>) st
             in if HBLK_IS_FREE (hdr_at st hhdr) then Abort ''Duplicate large block deallocation''
                else
                  let st = upd_hdr hhdr (\<lambda>r. r\<lparr>hb_flags := hb_flags r OR FREE_BLK\<rparr>) st;
                      next = hbp + size
                  in obind (GET_HDR st next) (\<lambda>nexthdr.
                       obind (GC_free_block_ending_at st hbp) (\<lambda>prev.
                         obind (coalesce_next st hhdr next nexthdr) (\<lambda>st.
                           obind (coalesce_prev st prev hbp hhdr) (\<lambda>(st, hbp, hhdr).
                             GC_add_to_fl (st\<lparr>GC_large_free_bytes := GC_large_free_bytes st + of_nat size\<rparr>)
                               hbp hhdr)))))))"

section \<open>The operations on headers\<close>

lemma remove_header_ok:
  assumes hm: "hm L s" and n: "blocks s n = Some r"
  obtains s' where "GC_remove_header s n = Ret s'" "hm L s'" "blocks s' = (blocks s)(n := None)"
    "\<And>q. HDR s' q = (if q div BLK = n div BLK then 0 else HDR s q)" "GC_gc_no s' = GC_gc_no s" "os_mem s' = os_mem s"
proof -
  obtain U bs fs where inv: "hdr_inv L s U bs fs" using hm by (auto simp: hm_def)
  have "MAX_JUMP < HDR s n" using n by (simp add: blocks_Some)
  then obtain s' where s': "GC_remove_header s n = Ret s'" "hdr_inv L s' U bs (HDR s n # fs)"
    "\<forall>q. HDR s' q = (if q div BLK = n div BLK then 0 else HDR s q)" "GC_gc_no s' = GC_gc_no s"
    "hdr_mem s' = (hdr_mem s)(HDR s n := (hdr_mem s (HDR s n))\<lparr>hb_next := GC_hdr_free_list s\<rparr>)"
    using GC_remove_header_spec[OF inv] by blast
  have "blocks s' q = ((blocks s)(n := None)) q" for q
  proof (cases "q = n")
    case True
    then show ?thesis using s'(3) by (simp add: blocks_def)
  next
    case False
    have "HDR s q \<noteq> HDR s n" if "BLK dvd q" "MAX_JUMP < HDR s q"
      using hm_one_block[OF hm _ n, of q] that False by (auto simp: blocks_Some)
    moreover have "q div BLK \<noteq> n div BLK" if "BLK dvd q"
      using that n False aligned_div_eq by (auto simp: blocks_Some)
    ultimately show ?thesis using False s'(3,5) by (auto simp: blocks_def)
  qed
  then show thesis
    using s' remove_os_mem(1)[OF s'(1)] by (intro that[of s']) (auto simp: hm_def)
qed

lemma remove_counts_ok:
  assumes hm: "hm L s" and h: "BLK dvd h" "BLK dvd sz" "0 < sz" "h + sz + BLK \<le> 2 ^ 64"
    and inside: "\<And>q. BLK dvd q \<Longrightarrow> h < q \<Longrightarrow> q < h + sz \<Longrightarrow> HDR s q \<noteq> 0 \<and> HDR s q \<le> MAX_JUMP"
  obtains s' where "GC_remove_counts s h sz = Ret s'" "hm L s'" "blocks s' = blocks s"
    "\<And>q. BLK dvd q \<Longrightarrow> HDR s' q = (if h < q \<and> q < h + sz then 0 else HDR s q)"
    "GC_gc_no s' = GC_gc_no s" "os_mem s' = os_mem s" "hdr_mem s' = hdr_mem s"
proof -
  obtain U bs fs where inv: "hdr_inv L s U bs fs" using hm by (auto simp: hm_def)
  have ht: "ht_inv s bs" using inv by (simp add: hdr_inv_def)
  have aligned: "BLK dvd q div BLK * BLK" "q div BLK * BLK \<le> q" "q < q div BLK * BLK + BLK" for q
    by (simp_all add: BLK_def)
  have idx: "\<forall>q. h + BLK \<le> q \<longrightarrow> q < h + sz \<longrightarrow> indexed s q"
  proof (intro allI impI)
    fix q assume q: "h + BLK \<le> q" "q < h + sz"
    let ?q = "q div BLK * BLK"
    have "(h + BLK) div BLK \<le> q div BLK" using q(1) by (rule div_le_mono)
    then have "(h + BLK) div BLK * BLK \<le> ?q" by (rule mult_le_mono1)
    moreover have "(h + BLK) div BLK * BLK = h + BLK" using h(1) by (intro dvd_div_mult_self) simp
    ultimately have "h < ?q" by (simp add: BLK_def)
    then have "HDR s ?q \<noteq> 0" using inside[OF aligned(1), of q] q(2) aligned(2)[of q] by (meson le_less_trans)
    moreover have "HDR s q = HDR s ?q" by (rule HDR_block) (simp add: BLK_def)
    ultimately show "indexed s q" using HDR_absent[OF ht] indexed_iff[OF ht] by metis
  qed
  obtain s' where s': "GC_remove_counts s h sz = Ret s'" "hdr_inv L s' U bs fs" "hdr_mem s' = hdr_mem s"
    "GC_gc_no s' = GC_gc_no s"
    "\<And>q. HDR s' q = (if BLK < sz \<and> HDR s (h + BLK) \<noteq> 0 \<and> h div BLK < q div BLK \<and> q div BLK * BLK < h + sz
       then 0 else HDR s q)"
    using GC_remove_counts_spec[OF inv h(1,4) idx] by blast
  have HDR: "HDR s' q = (if h < q \<and> q < h + sz then 0 else HDR s q)" if q: "BLK dvd q" for q
  proof -
    have "h div BLK < q div BLK \<longleftrightarrow> h < q" using h(1) q by (auto simp: BLK_def)
    moreover have "BLK < sz \<and> HDR s (h + BLK) \<noteq> 0" if "h < q" "q < h + sz"
    proof -
      have "h + BLK \<le> q" by (rule blk_mult[OF h(1) q that(1)])
      then show ?thesis using inside[of "h + BLK"] h(1) that by (auto simp: BLK_def)
    qed
    ultimately show ?thesis using s'(5)[of q] q by auto
  qed
  have "blocks s' q = blocks s q" for q
  proof (cases "BLK dvd q")
    case True
    then show ?thesis
      using HDR[OF True] inside[OF True] s'(3) by (auto simp: blocks_def)
  qed (simp add: blocks_def)
  then show thesis using s' HDR remove_os_mem(2)[OF s'(1)] by (intro that[of s']) (auto simp: hm_def)
qed

section \<open>The invariant of the heap\<close>

text \<open>
  The blocks partition the heap, the free lists hold free blocks, each on the list of its size
  but those of \<open>W\<close>, and all free blocks but those of \<open>X\<close> are on a list.
\<close>

definition inv_on ::
    "(nat \<Rightarrow> nat) \<Rightarrow> (nat \<Rightarrow> hdr option) \<Rightarrow> (nat \<Rightarrow> nat) \<Rightarrow> (nat \<Rightarrow> 64 word) \<Rightarrow> (nat \<Rightarrow> nat list) \<Rightarrow> nat set \<Rightarrow> nat set \<Rightarrow> bool" where
  "inv_on H F fl fb ls X W \<longleftrightarrow>
     parts H F \<and> lists_ok F fl fb ls
     \<and> (\<forall>i h. h \<in> set (ls i) \<longrightarrow> (\<exists>r. F h = Some r \<and> HBLK_IS_FREE r \<and> (h \<in> W \<or> fl_class r = i)))
     \<and> (\<forall>h r. F h = Some r \<longrightarrow> HBLK_IS_FREE r \<longrightarrow> h \<in> X \<or> h \<in> listed ls) \<and> X \<inter> listed ls = {}"

definition heap_inv :: "nat \<Rightarrow> heap_state \<Rightarrow> (nat \<Rightarrow> nat list) \<Rightarrow> nat set \<Rightarrow> nat set \<Rightarrow> bool" where
  "heap_inv L st ls X W \<longleftrightarrow> hm L (hs st) \<and>
     inv_on (HDR (hs st)) (blocks (hs st)) (GC_hblkfreelist st) (GC_free_bytes st) ls X W"

lemma heap_invD:
  assumes "heap_inv L st ls X W"
  shows "hm L (hs st)" "heap_parts (hs st)" "fl_ok st ls" "X \<inter> listed ls = {}"
    and "h \<in> set (ls i) \<Longrightarrow> \<exists>r. blocks (hs st) h = Some r \<and> HBLK_IS_FREE r \<and> (h \<in> W \<or> fl_class r = i)"
    and "blocks (hs st) h = Some r \<Longrightarrow> HBLK_IS_FREE r \<Longrightarrow> h \<in> X \<or> h \<in> listed ls"
  using assms by (auto simp: heap_inv_def inv_on_def)

lemma listedI: "h \<in> set (ls i) \<Longrightarrow> h \<in> listed ls"
  by (auto simp: listed_def)

lemma listed_upd:
  assumes "lists_ok F fl fb ls"
  shows "h \<in> set (ls i) \<Longrightarrow> listed (ls(i := remove1 h (ls i))) = listed ls - {h}"
    and "listed (ls(i := h # ls i)) = insert h (listed ls)"
proof -
  have dist: "distinct (ls i)" and disj: "\<And>j. i \<noteq> j \<Longrightarrow> set (ls i) \<inter> set (ls j) = {}"
    using assms by (simp_all add: lists_ok_def)
  have dis: "j \<noteq> i \<Longrightarrow> h \<in> set (ls i) \<Longrightarrow> h \<notin> set (ls j)" for j
    using disj[of j] by auto
  have mem: "x \<in> listed (ls(i := xs)) \<longleftrightarrow> x \<in> set xs \<or> (\<exists>j. j \<noteq> i \<and> x \<in> set (ls j))" for x xs
    unfolding listed_def by auto
  have mem0: "x \<in> listed ls \<longleftrightarrow> x \<in> set (ls i) \<or> (\<exists>j. j \<noteq> i \<and> x \<in> set (ls j))" for x
    using mem[of x "ls i"] by simp
  show "h \<in> set (ls i) \<Longrightarrow> listed (ls(i := remove1 h (ls i))) = listed ls - {h}"
    using dis dist by (intro set_eqI) (auto simp: mem mem0)
  show "listed (ls(i := h # ls i)) = insert h (listed ls)"
    by (intro set_eqI) (auto simp: mem mem0)
qed

lemma fl_class_core: "core r = core r' \<Longrightarrow> fl_class r = fl_class r'"
  using core_eqD by metis

lemma listed_le: "fl_ok st ls \<Longrightarrow> h \<in> set (ls i) \<Longrightarrow> i \<le> N_HBLK_FLS"
  by (rule ccontr) (auto simp: lists_ok_def)

lemma inv_on_listed:
  assumes "inv_on H F fl fb ls X W" "h \<in> listed ls"
  shows "\<exists>r. F h = Some r \<and> HBLK_IS_FREE r"
proof -
  obtain i where "h \<in> set (ls i)" using assms(2) by (auto simp: listed_def)
  moreover have "\<forall>i h. h \<in> set (ls i) \<longrightarrow> (\<exists>r. F h = Some r \<and> HBLK_IS_FREE r \<and> (h \<in> W \<or> fl_class r = i))"
    using assms(1) unfolding inv_on_def by (elim conjE)
  ultimately show ?thesis by blast
qed

text \<open>Transfer along a change of links.\<close>

lemma inv_on_core:
  assumes inv: "inv_on H F fl fb ls X W" and core: "same_core F G" and lists: "lists_ok G fl' fb' ls'"
    and mem: "\<And>h i. h \<in> set (ls' i) \<Longrightarrow> h \<in> set (ls i) \<or> h \<in> X \<and> (h \<in> W \<or> (\<exists>r. F h = Some r \<and> HBLK_IS_FREE r \<and> fl_class r = i))"
    and free: "\<And>h. h \<in> listed ls' \<Longrightarrow> \<exists>r. F h = Some r \<and> HBLK_IS_FREE r"
    and X: "X' \<inter> listed ls' = {}" "X \<union> listed ls \<subseteq> X' \<union> listed ls'" and W: "W \<inter> listed ls' \<subseteq> W'"
  shows "inv_on H G fl' fb' ls' X' W'"
  unfolding inv_on_def
proof (intro conjI allI impI)
  show "parts H G" using inv core parts_in_core by (auto simp: inv_on_def)
  show "X' \<inter> listed ls' = {}" by (rule X)
next
  fix i h assume h: "h \<in> set (ls' i)"
  then obtain r where r: "F h = Some r" "HBLK_IS_FREE r" using free[OF listedI] by blast
  obtain r' where r': "G h = Some r'" "core r' = core r" by (rule same_core_Some[OF core r(1)])
  have "\<exists>r. F h = Some r \<and> HBLK_IS_FREE r \<and> (h \<in> W \<or> fl_class r = i)" if "h \<in> set (ls i)"
    using inv that unfolding inv_on_def by blast
  then have "h \<in> W \<or> fl_class r = i" using mem[OF h] r by auto
  then have "h \<in> W' \<or> fl_class r' = i" using W listedI[of h ls' i, OF h] fl_class_core[OF r'(2)] by auto
  then show "\<exists>r. G h = Some r \<and> HBLK_IS_FREE r \<and> (h \<in> W' \<or> fl_class r = i)"
    using r r' ext_core[OF r'(2)] by auto
next
  fix h r' assume r': "G h = Some r'" "HBLK_IS_FREE r'"
  obtain r where r: "F h = Some r" "core r = core r'" by (rule same_core_Some[OF same_core_sym[OF core] r'(1)])
  then have "h \<in> X \<or> h \<in> listed ls" using inv r' ext_core[OF r(2)] unfolding inv_on_def by auto
  then show "h \<in> X' \<or> h \<in> listed ls'" using X by auto
qed (rule lists)

lemma inv_remove:
  assumes inv: "heap_inv L st ls X W" and h: "h \<in> set (ls i)" "blocks (hs st) h = Some r"
  obtains st' where "GC_remove_from_fl_at st (HDR (hs st) h) i = Ret st'"
    and "heap_inv L st' (ls(i := remove1 h (ls i))) (insert h X) (W - {h})" and "HDR (hs st') = HDR (hs st)" "frame st st'"
    and "same_core (blocks (hs st)) (blocks (hs st'))"
    and "\<And>x. x \<notin> listed ls - {h} \<Longrightarrow> blocks (hs st') x = blocks (hs st) x" "os_mem (hs st') = os_mem (hs st)"
    and "GC_free_bytes st' = (GC_free_bytes st)(i := GC_free_bytes st i - of_nat (hb_sz r))"
proof -
  note D = heap_invD[OF inv]
  have i: "i \<le> N_HBLK_FLS" by (rule listed_le[OF D(3) h(1)])
  have dist: "distinct (ls i)" using D(3) by (simp add: lists_ok_def)
  obtain as bs where ab: "ls i = as @ h # bs" using h(1) by (auto simp: in_set_conv_decomp)
  then have rm: "remove1 h (ls i) = as @ bs" using dist by (simp add: remove1_append)
  obtain st' where st': "GC_remove_from_fl_at st (HDR (hs st) h) i = Ret st'" "hm L (hs st')"
    "fl_ok st' (ls(i := as @ bs))" "HDR (hs st') = HDR (hs st)" "frame st st'"
    "same_core (blocks (hs st)) (blocks (hs st'))"
    "\<And>x. x \<notin> set (as @ bs) \<Longrightarrow> blocks (hs st') x = blocks (hs st) x" "os_mem (hs st') = os_mem (hs st)"
    "GC_free_bytes st' = (GC_free_bytes st)(i := GC_free_bytes st i - of_nat (hb_sz r))"
    by (rule GC_remove_from_fl_at_ok[OF D(1,3) i ab h(2)]) (rule that)
  note listed = listed_upd(1)[OF D(3) h(1)]
  have "inv_on (HDR (hs st)) (blocks (hs st')) (GC_hblkfreelist st') (GC_free_bytes st')
      (ls(i := remove1 h (ls i))) (insert h X) (W - {h})"
  proof (rule inv_on_core[OF _ st'(6)])
    show "inv_on (HDR (hs st)) (blocks (hs st)) (GC_hblkfreelist st) (GC_free_bytes st) ls X W"
      using inv by (simp add: heap_inv_def)
    show "lists_ok (blocks (hs st')) (GC_hblkfreelist st') (GC_free_bytes st') (ls(i := remove1 h (ls i)))"
      using st'(3) rm by simp
    show "x \<in> set (ls j) \<or> x \<in> X \<and> (x \<in> W \<or> (\<exists>r. blocks (hs st) x = Some r \<and> HBLK_IS_FREE r \<and> fl_class r = j))"
      if "x \<in> set ((ls(i := remove1 h (ls i))) j)" for x j
      using that notin_set_remove1[of x "ls i" h] by (auto split: if_splits)
    show "\<exists>r. blocks (hs st) x = Some r \<and> HBLK_IS_FREE r" if "x \<in> listed (ls(i := remove1 h (ls i)))" for x
      using that D(5) unfolding listed by (auto simp: listed_def)
  qed (use listed D(4) in auto)
  then have "heap_inv L st' (ls(i := remove1 h (ls i))) (insert h X) (W - {h})"
    using st'(2,4) by (simp add: heap_inv_def)
  moreover have "blocks (hs st') x = blocks (hs st) x" if "x \<notin> listed ls - {h}" for x
  proof (rule st'(7))
    show "x \<notin> set (as @ bs)"
      using that ab dist by (auto simp: listed_def) (metis Un_iff list.set_intros(2) set_append)+
  qed
  ultimately show thesis using st' by (intro that[of st']) simp_all
qed

lemma HBLK_IS_FREE_or [simp]: "HBLK_IS_FREE (r\<lparr>hb_flags := f OR FREE_BLK\<rparr>)"
proof -
  have "(f OR FREE_BLK) AND FREE_BLK = FREE_BLK" by (rule bit_word_eqI) (auto simp: bit_simps)
  then show ?thesis by (simp add: HBLK_IS_FREE_def FREE_BLK_def)
qed

lemma inv_add:
  assumes hm: "hm L (hs st)" and h: "blocks (hs st) h = Some r" "h \<in> X"
    and inv: "inv_on (HDR (hs st)) ((blocks (hs st))(h \<mapsto> r\<lparr>hb_flags := hb_flags r OR FREE_BLK\<rparr>))
      (GC_hblkfreelist st) (GC_free_bytes st) ls X W"
  obtains st' where "GC_add_to_fl st h (HDR (hs st) h) = Ret st'"
    and "heap_inv L st' (ls(fl_class r := h # ls (fl_class r))) (X - {h}) W"
    and "HDR (hs st') = HDR (hs st)" "frame st st'"
    and "same_core ((blocks (hs st))(h \<mapsto> r\<lparr>hb_flags := hb_flags r OR FREE_BLK\<rparr>)) (blocks (hs st'))"
    and "\<And>x. x \<noteq> h \<Longrightarrow> x \<notin> listed ls \<Longrightarrow> blocks (hs st') x = blocks (hs st) x" "os_mem (hs st') = os_mem (hs st)"
    and "GC_free_bytes st' = (GC_free_bytes st)(fl_class r := GC_free_bytes st (fl_class r) + of_nat (hb_sz r))"
proof -
  define r1 where "r1 = r\<lparr>hb_flags := hb_flags r OR FREE_BLK\<rparr>"
  define F where "F = (blocks (hs st))(h \<mapsto> r1)"
  have inv': "inv_on (HDR (hs st)) F (GC_hblkfreelist st) (GC_free_bytes st) ls X W"
    using inv by (simp add: F_def r1_def)
  then have p: "parts (HDR (hs st)) F" and lists: "lists_ok F (GC_hblkfreelist st) (GC_free_bytes st) ls"
    and X: "X \<inter> listed ls = {}" by (simp_all add: inv_on_def)
  have notin: "h \<notin> listed ls" using X h(2) by blast
  have "F h = Some r1" by (simp add: F_def)
  then have h0: "h \<noteq> 0" using parts_in_ok[OF p, of h r1] blocks_below[OF hm h(1)] by (simp add: blk_ok_def)
  have ok: "fl_ok st ls" using lists notin by (simp add: F_def lists_ok_upd)
  obtain st' where st': "GC_add_to_fl st h (HDR (hs st) h) = Ret st'" "hm L (hs st')"
    "fl_ok st' (ls(fl_class r := h # ls (fl_class r)))" "HDR (hs st') = HDR (hs st)" "frame st st'"
    "same_core F (blocks (hs st'))"
    "\<And>x. x \<noteq> h \<Longrightarrow> x \<notin> set (ls (fl_class r)) \<Longrightarrow> blocks (hs st') x = blocks (hs st) x" "os_mem (hs st') = os_mem (hs st)"
    "GC_free_bytes st' = (GC_free_bytes st)(fl_class r := GC_free_bytes st (fl_class r) + of_nat (hb_sz r))"
    by (rule GC_add_to_fl_ok[OF hm ok h(1) h0 notin]) (rule that, simp_all add: F_def r1_def)
  note listed = listed_upd(2)[OF lists]
  have "inv_on (HDR (hs st)) (blocks (hs st')) (GC_hblkfreelist st') (GC_free_bytes st')
      (ls(fl_class r := h # ls (fl_class r))) (X - {h}) W"
  proof (rule inv_on_core[OF inv' st'(6) st'(3)])
    show "x \<in> set (ls i) \<or> x \<in> X \<and> (x \<in> W \<or> (\<exists>r. F x = Some r \<and> HBLK_IS_FREE r \<and> fl_class r = i))"
      if "x \<in> set ((ls(fl_class r := h # ls (fl_class r))) i)" for x i
      using that h(2) by (auto simp: F_def r1_def split: if_splits)
    show "\<exists>r. F x = Some r \<and> HBLK_IS_FREE r" if "x \<in> listed (ls(fl_class r := h # ls (fl_class r)))" for x
      using that inv_on_listed[OF inv', of x] unfolding listed by (cases "x = h") (auto simp: F_def r1_def)
  qed (use listed X in auto)
  then have "heap_inv L st' (ls(fl_class r := h # ls (fl_class r))) (X - {h}) W"
    using st'(2,4) by (simp add: heap_inv_def)
  moreover have "blocks (hs st') x = blocks (hs st) x" if "x \<noteq> h" "x \<notin> listed ls" for x
    using st'(7)[OF that(1)] that(2) listedI by blast
  ultimately show thesis using st' by (intro that[of st']) (simp_all add: F_def r1_def)
qed

text \<open>A free block that is on no list takes in its successor, also free and on no list.\<close>

lemma parts_absorb:
  assumes p: "heap_parts s" and hm: "hm L s" and h: "blocks s h = Some r" and n: "blocks s (h + ext r) = Some rn"
    and r': "HBLK_IS_FREE r'" "hb_block r' = h" "hb_sz r' = ext r + ext rn"
    and free: "HBLK_IS_FREE r" "HBLK_IS_FREE rn"
    and H: "\<And>q. BLK dvd q \<Longrightarrow> H q = (if q = h + ext r then 0 else HDR s q)"
  shows "parts H ((blocks s)(h \<mapsto> r', h + ext r := None))"
proof -
  let ?n = "h + ext r" and ?e = "h + ext r + ext rn"
  note okh = parts_blk_ok(1)[OF p hm h] and okn = parts_blk_ok(1)[OF p hm n]
  have pos: "0 < ext r" "0 < ext rn" using okh okn by (auto simp: blk_ok_def)
  have e': "ext r' = ext r + ext rn" using r' by (simp add: ext_def)
  have "BLK dvd ext r'" using okh okn unfolding e' blk_ok_def by (intro dvd_add) simp_all
  then have ok': "blk_ok h r'"
    using okh okn r' pos unfolding blk_ok_def e' by (simp add: add.assoc)
  have none: "blocks s x = None" if "h < x" "x \<noteq> ?n" "x < ?e" for x
  proof (rule ccontr)
    assume "blocks s x \<noteq> None"
    then obtain rx where x: "blocks s x = Some rx" by blast
    have "?n \<le> x" by (rule parts_in_disjoint[OF p h x _ that(1) blocks_below[OF hm x]]) simp
    then have "?e \<le> x" using that(2) by (intro parts_in_disjoint[OF p n x _ _ blocks_below[OF hm x]]) simp_all
    then show False using that(3) by linarith
  qed
  have zero: "HDR s q = 0" if "BLK dvd q" "h < q" "q \<noteq> ?n" "q < ?e" for q
  proof (cases "q < ?n")
    case True
    then show ?thesis using parts_in_inside[OF p h that(1) _ blocks_below[OF hm h] that(2)] free by simp
  next
    case False
    then show ?thesis using parts_in_inside[OF p n that(1) _ blocks_below[OF hm n]] that free by simp
  qed
  show ?thesis
  proof (rule parts_replace[OF p, of h ?e])
    show "?e \<le> 2 ^ 64" using okn unfolding blk_ok_def by linarith
    show "boundary (blocks s) h" "boundary (blocks s) ?e" using parts_blk_ok(2)[OF p hm h] parts_blk_ok(3)[OF p hm n] by auto
    have "parts_in h (h + ext r') H ((blocks s)(h \<mapsto> r', ?n := None))"
    proof (rule parts_in_single[OF _ ok'])
      show "((blocks s)(h \<mapsto> r', ?n := None)) x = None" if "h < x" "x < h + ext r'" for x
        using none[of x] that e' by (cases "x = ?n") simp_all
      show "H q = (if HBLK_IS_FREE r' then 0 else min ((q - h) div BLK) MAX_JUMP)"
        if "BLK dvd q" "h < q" "q < h + ext r'" for q
        using zero[of q] H[of q] that e' r'(1) by (cases "q = ?n") simp_all
    qed (use pos in simp)
    then show "parts_in h ?e H ((blocks s)(h \<mapsto> r', ?n := None))" by (simp add: e' add.assoc)
    show "((blocks s)(h \<mapsto> r', ?n := None)) x = blocks s x" if "x < h \<or> ?e \<le> x" for x
      using that pos by auto
    show "H q = HDR s q" if "BLK dvd q" "q < h \<or> ?e \<le> q" for q
      using H[OF that(1)] that(2) pos by auto
  qed simp
qed

section \<open>What the operations do to the heap\<close>

text \<open>The addresses in free blocks, and the total of the byte counts of the lists.\<close>

definition free_area :: "(nat \<Rightarrow> hdr option) \<Rightarrow> nat set" where
  "free_area F = {a. \<exists>h r. F h = Some r \<and> HBLK_IS_FREE r \<and> h \<le> a \<and> a < h + ext r}"

definition fl_total :: "heap_state \<Rightarrow> 64 word" where
  "fl_total st = (\<Sum>i \<le> N_HBLK_FLS. GC_free_bytes st i)"

text \<open>The blocks in use are as they were.\<close>

definition keeps_used :: "(nat \<Rightarrow> hdr option) \<Rightarrow> (nat \<Rightarrow> hdr option) \<Rightarrow> bool" where
  "keeps_used F G \<longleftrightarrow> (\<forall>h r. F h = Some r \<longrightarrow> \<not> HBLK_IS_FREE r \<longrightarrow> G h = Some r)"

lemma keeps_used_trans: "keeps_used F G \<Longrightarrow> keeps_used G H \<Longrightarrow> keeps_used F H"
  by (simp add: keeps_used_def)

lemma keeps_used_upd: "F h = Some r \<Longrightarrow> HBLK_IS_FREE r \<Longrightarrow> keeps_used F (F(h := v))"
  by (auto simp: keeps_used_def)

lemma keeps_used_listed:
  assumes "inv_on H F fl fb ls X W" "\<And>x. x \<notin> listed ls \<Longrightarrow> G x = F x"
  shows "keeps_used F G"
  unfolding keeps_used_def
proof (intro allI impI)
  fix h r assume r: "F h = Some r" "\<not> HBLK_IS_FREE r"
  then have "h \<notin> listed ls" using inv_on_listed[OF assms(1), of h] by auto
  then show "G h = Some r" using assms(2) r(1) by simp
qed

lemma sum_upd:
  fixes f :: "nat \<Rightarrow> 64 word"
  assumes "i \<le> N"
  shows "(\<Sum>j \<le> N. (f(i := v)) j) = (\<Sum>j \<le> N. f j) - f i + v"
proof -
  have "(\<Sum>j \<le> N. (f(i := v)) j) = v + (\<Sum>j \<in> {..N} - {i}. f j)"
    using assms by (subst sum.remove[of _ i]) simp_all
  moreover have "(\<Sum>j \<le> N. f j) = f i + (\<Sum>j \<in> {..N} - {i}. f j)"
    using assms by (subst sum.remove[of _ i]) simp_all
  ultimately show ?thesis by simp
qed

lemma free_areaI: "F h = Some r \<Longrightarrow> HBLK_IS_FREE r \<Longrightarrow> h \<le> a \<Longrightarrow> a < h + ext r \<Longrightarrow> a \<in> free_area F"
  unfolding free_area_def by blast

lemma free_area_core: "same_core F G \<Longrightarrow> free_area F = free_area G"
proof -
  have "free_area F \<subseteq> free_area G" if "same_core F G" for F G
  proof
    fix a assume "a \<in> free_area F"
    then obtain h r where h: "F h = Some r" "HBLK_IS_FREE r" "h \<le> a" "a < h + ext r" by (auto simp: free_area_def)
    obtain r' where "G h = Some r'" "core r' = core r" by (rule same_core_Some[OF \<open>same_core F G\<close> h(1)])
    then show "a \<in> free_area G" using h ext_core[of r' r h] by (intro free_areaI[of G h r']) auto
  qed
  then show "same_core F G \<Longrightarrow> free_area F = free_area G" using same_core_sym by blast
qed

lemma free_area_absorb:
  assumes h: "F h = Some r" "HBLK_IS_FREE r" and n: "F (h + ext r) = Some rn" "HBLK_IS_FREE rn" and pos: "0 < ext r"
    and r': "HBLK_IS_FREE r'" "ext r' = ext r + ext rn"
  shows "free_area (F(h \<mapsto> r', h + ext r := None)) = free_area F"
proof (intro set_eqI iffI)
  fix a assume "a \<in> free_area (F(h \<mapsto> r', h + ext r := None))"
  then obtain x q where x: "(F(h \<mapsto> r', h + ext r := None)) x = Some q" "HBLK_IS_FREE q" "x \<le> a" "a < x + ext q"
    by (auto simp: free_area_def)
  show "a \<in> free_area F"
  proof (cases "x = h")
    case True
    then have "h \<le> a" "a < h + ext r + ext rn" using x r' pos by auto
    then show ?thesis
      using free_areaI[of F h r a] free_areaI[of F "h + ext r" rn a] h n by (cases "a < h + ext r") simp_all
  next
    case False
    then show ?thesis using x by (intro free_areaI[of F x q]) (auto split: if_splits)
  qed
next
  fix a assume "a \<in> free_area F"
  then obtain x q where x: "F x = Some q" "HBLK_IS_FREE q" "x \<le> a" "a < x + ext q" by (auto simp: free_area_def)
  consider "x = h" | "x = h + ext r" | "x \<noteq> h" "x \<noteq> h + ext r" by blast
  then show "a \<in> free_area (F(h \<mapsto> r', h + ext r := None))"
  proof cases
    case 1
    then show ?thesis using x h r' pos by (intro free_areaI[of _ h r']) auto
  next
    case 2
    then show ?thesis using x n r' pos by (intro free_areaI[of _ h r']) auto
  next
    case 3
    then show ?thesis using x by (intro free_areaI[of _ x q]) auto
  qed
qed

lemma boundary_HDR:
  assumes "heap_parts s" "hm L s" "boundary (blocks s) n" "BLK dvd n" "HDR s n \<noteq> 0"
  shows "\<exists>r. blocks s n = Some r"
proof -
  obtain h r where h: "blocks s h = Some r" "h \<le> n" "n < h + ext r"
    using parts_in_cover[OF assms(1,4) _ hm_HDR_below[OF assms(2,5)] assms(5)] by auto
  have "\<not> h < n" using assms(3) h unfolding boundary_def by (metis not_less)
  then show ?thesis using h by auto
qed

lemma has_SIZET_SIGNB_iff: "n < 2 ^ 64 \<Longrightarrow> has_SIZET_SIGNB n \<longleftrightarrow> 2 ^ 63 \<le> n"
proof -
  assume n: "n < 2 ^ 64"
  have "n div 2 ^ 63 < 2" using n by (simp add: less_mult_imp_div_less)
  then have "n div 2 ^ 63 = 0 \<or> n div 2 ^ 63 = 1" by linarith
  moreover have "n div 2 ^ 63 = 0 \<longleftrightarrow> n < 2 ^ 63" by (simp add: div_eq_0_iff)
  ultimately show ?thesis using n by (auto simp: has_SIZET_SIGNB_def)
qed

text \<open>Taking a free block off its list.\<close>

lemma unlist:
  assumes inv: "heap_inv L st ls X {}" and n: "blocks (hs st) n = Some rn" "HBLK_IS_FREE rn" "n \<notin> X"
  obtains st' ls' where "GC_remove_from_fl st (HDR (hs st) n) = Ret st'" "heap_inv L st' ls' (insert n X) {}"
    "HDR (hs st') = HDR (hs st)" "frame st st'" "same_core (blocks (hs st)) (blocks (hs st'))"
    "\<And>x. x = n \<or> x \<in> X \<Longrightarrow> blocks (hs st') x = blocks (hs st) x" "os_mem (hs st') = os_mem (hs st)"
    "keeps_used (blocks (hs st)) (blocks (hs st'))" "free_area (blocks (hs st')) = free_area (blocks (hs st))"
    "fl_total st' = fl_total st - of_nat (ext rn)" "listed ls' = listed ls - {n}"
    "n \<in> set (ls (fl_class rn))" "ls' = ls(fl_class rn := remove1 n (ls (fl_class rn)))"
proof -
  note D = heap_invD[OF inv]
  have sz: "hb_sz rn = ext rn" using n(2) by (simp add: ext_def)
  have "n \<in> listed ls" using D(6)[OF n(1,2)] n(3) by blast
  then obtain i where ni: "n \<in> set (ls i)" by (auto simp: listed_def)
  have cls: "fl_class rn = i" using D(5)[OF ni] n(1) by auto
  obtain st' where st': "GC_remove_from_fl_at st (HDR (hs st) n) i = Ret st'"
    "heap_inv L st' (ls(i := remove1 n (ls i))) (insert n X) ({} - {n})" "HDR (hs st') = HDR (hs st)" "frame st st'"
    "same_core (blocks (hs st)) (blocks (hs st'))"
    "\<And>x. x \<notin> listed ls - {n} \<Longrightarrow> blocks (hs st') x = blocks (hs st) x" "os_mem (hs st') = os_mem (hs st)"
    "GC_free_bytes st' = (GC_free_bytes st)(i := GC_free_bytes st i - of_nat (hb_sz rn))"
    by (rule inv_remove[OF inv ni n(1)]) (rule that)
  show thesis
  proof (rule that)
    show "GC_remove_from_fl st (HDR (hs st) n) = Ret st'"
      using st'(1) cls n(1) by (simp add: GC_remove_from_fl_def blocks_Some)
    show "heap_inv L st' (ls(i := remove1 n (ls i))) (insert n X) {}" using st'(2) by simp
    show "keeps_used (blocks (hs st)) (blocks (hs st'))"
      using inv st'(6) by (intro keeps_used_listed) (auto simp: heap_inv_def)
    show "fl_total st' = fl_total st - of_nat (ext rn)"
      unfolding fl_total_def st'(8) using listed_le[OF D(3) ni] sz by (subst sum_upd) simp_all
    show "blocks (hs st') x = blocks (hs st) x" if "x = n \<or> x \<in> X" for x
      using st'(6) that D(4) by auto
    show "free_area (blocks (hs st')) = free_area (blocks (hs st))" using free_area_core[OF st'(5)] by simp
  qed (use st' cls ni listed_upd(1)[OF D(3) ni] in simp_all)
qed

lemma inv_absorb:
  assumes inv: "heap_inv L st ls X W" and h: "blocks (hs st) h = Some r" "h \<in> X" and n: "n = h + ext r"
    and rn: "blocks (hs st) n = Some rn" "n \<in> X" and free: "HBLK_IS_FREE r" "HBLK_IS_FREE rn"
    and f: "HBLK_IS_FREE (f r)" "hb_block (f r) = h" "hb_sz (f r) = ext r + ext rn"
  obtains st' where "on_hdrs (upd_hdr (HDR (hs st) h) f st) (\<lambda>s. GC_remove_header s n) = Ret st'"
    "heap_inv L st' ls (X - {n}) W" "blocks (hs st') = (blocks (hs st))(h \<mapsto> f r, n := None)" "frame st st'"
    "GC_hblkfreelist st' = GC_hblkfreelist st" "GC_free_bytes st' = GC_free_bytes st" "os_mem (hs st') = os_mem (hs st)"
    "HDR (hs st') h = HDR (hs st) h" "keeps_used (blocks (hs st)) (blocks (hs st'))"
    "free_area (blocks (hs st')) = free_area (blocks (hs st))"
proof -
  note D = heap_invD[OF inv]
  let ?s1 = "hs (upd_hdr (HDR (hs st) h) f st)" and ?F = "(blocks (hs st))(h \<mapsto> f r, n := None)"
  have pos: "0 < ext r" using parts_blk_ok(1)[OF D(2,1) h(1)] by (auto simp: blk_ok_def)
  have hn: "h \<noteq> n" using n pos by simp
  have u: "hm L ?s1" "blocks ?s1 = (blocks (hs st))(h \<mapsto> f r)" using upd_hdr_ok[OF D(1) h(1) refl] by simp_all
  have "blocks ?s1 n = Some rn" using u(2) rn hn by simp
  then obtain s' where s': "GC_remove_header ?s1 n = Ret s'" "hm L s'" "blocks s' = (blocks ?s1)(n := None)"
    "\<And>q. HDR s' q = (if q div BLK = n div BLK then 0 else HDR ?s1 q)" "GC_gc_no s' = GC_gc_no ?s1" "os_mem s' = os_mem ?s1"
    by (rule remove_header_ok[OF u(1)]) (rule that)
  define st' where "st' = set_hs (upd_hdr (HDR (hs st) h) f st) s'"
  have "on_hdrs (upd_hdr (HDR (hs st) h) f st) (\<lambda>s. GC_remove_header s n) = Ret st'"
    using s'(1) by (simp add: on_hdrs_def st'_def)
  moreover have F: "blocks (hs st') = ?F" using s'(3) u(2) by (simp add: st'_def)
  moreover have fr: "frame st st'"
    unfolding st'_def by (rule frame_trans[OF frame_upd_hdr frame_set_hs]) (simp add: s'(5))
  moreover have fl: "GC_hblkfreelist st' = GC_hblkfreelist st" "GC_free_bytes st' = GC_free_bytes st"
    by (simp_all add: st'_def set_hs_def upd_hdr_def)
  moreover have "HDR (hs st') q = (if q = n then 0 else HDR (hs st) q)" if "BLK dvd q" for q
    using s'(4)[of q] aligned_div_eq[OF _ that, of n] rn(1) by (auto simp: st'_def blocks_Some)
  moreover from this[of h] have "HDR (hs st') h = HDR (hs st) h" using hn h(1) by (simp add: blocks_Some)
  moreover have "heap_inv L st' ls (X - {n}) W"
    unfolding heap_inv_def inv_on_def
  proof (intro conjI allI impI)
    show "hm L (hs st')" using s'(2) by (simp add: st'_def)
    show "heap_parts (hs st')"
      unfolding F n by (rule parts_absorb[OF D(2,1) h(1) rn(1)[unfolded n] f free]) (use calculation(6) n in simp)
    have notin: "h \<notin> listed ls" "n \<notin> listed ls" using D(4) h(2) rn(2) by auto
    then show "fl_ok st' ls" unfolding F fl using D(3) by (simp add: lists_ok_upd)
    show "\<exists>r. blocks (hs st') x = Some r \<and> HBLK_IS_FREE r \<and> (x \<in> W \<or> fl_class r = i)" if x: "x \<in> set (ls i)" for x i
      using D(5)[OF x] listedI[of x ls i, OF x] notin by (auto simp: F)
    show "x \<in> X - {n} \<or> x \<in> listed ls" if "blocks (hs st') x = Some rx" "HBLK_IS_FREE rx" for x rx
      using that D(6) h(2) hn by (auto simp: F split: if_splits)
  qed (use D(4) in auto)
  moreover have "keeps_used (blocks (hs st)) ?F" using h(1) rn(1) free by (auto simp: keeps_used_def)
  moreover have "free_area ?F = free_area (blocks (hs st))"
    unfolding n by (rule free_area_absorb[OF h(1) free(1) rn(1)[unfolded n] free(2) pos f(1)]) (use f in \<open>simp add: ext_def\<close>)
  ultimately show thesis using that[of st'] s'(6) by (simp add: st'_def)
qed


section \<open>Freeing\<close>

lemma free_flag_iff: "HBLK_IS_FREE r \<longleftrightarrow> bit (hb_flags r) 2"
  using and_exp_eq_0_iff_not_bit[of "hb_flags r" 2] by (simp add: HBLK_IS_FREE_def FREE_BLK_def)

lemma mapped_flag_iff: "IS_MAPPED r \<longleftrightarrow> \<not> bit (hb_flags r) 1"
  using and_exp_eq_0_iff_not_bit[of "hb_flags r" 1] by (simp add: IS_MAPPED_def WAS_UNMAPPED_def)

lemma bit_FREE_BLK: "bit FREE_BLK n \<longleftrightarrow> n = 2"
  using bit_exp_iff[of 2 n, where ?'a="8 word"] by (auto simp: FREE_BLK_def)

lemma free_again: "HBLK_IS_FREE r \<Longrightarrow> r\<lparr>hb_flags := hb_flags r OR FREE_BLK\<rparr> = r"
proof -
  assume "HBLK_IS_FREE r"
  then have "hb_flags r OR FREE_BLK = hb_flags r"
    by (intro bit_word_eqI) (auto simp: free_flag_iff bit_simps bit_FREE_BLK)
  then show ?thesis by simp
qed

lemma mapped_or_free [simp]: "IS_MAPPED (r\<lparr>hb_flags := hb_flags r OR FREE_BLK\<rparr>) = IS_MAPPED r"
  by (simp add: mapped_flag_iff bit_simps bit_FREE_BLK)

lemma flags_only [simp]:
  "HBLK_IS_FREE (r\<lparr>hb_sz := v\<rparr>) = HBLK_IS_FREE r" "HBLK_IS_FREE (r\<lparr>hb_last_reclaimed := w\<rparr>) = HBLK_IS_FREE r"
  "IS_MAPPED (r\<lparr>hb_sz := v\<rparr>) = IS_MAPPED r" "IS_MAPPED (r\<lparr>hb_last_reclaimed := w\<rparr>) = IS_MAPPED r"
  by (simp_all add: HBLK_IS_FREE_def IS_MAPPED_def)

lemma ext_free: "HBLK_IS_FREE r \<Longrightarrow> ext r = hb_sz r"
  by (simp add: ext_def)

lemma merge_overflow_iff:
  assumes "HBLK_IS_FREE r" "HBLK_IS_FREE rn" "ext r + ext rn < 2 ^ 64"
  shows "BLOCKS_MERGE_OVERFLOW r rn \<longleftrightarrow> 2 ^ 63 \<le> ext r + ext rn"
  using assms has_SIZET_SIGNB_iff[of "ext r + ext rn"] by (simp add: BLOCKS_MERGE_OVERFLOW_def ext_free)

text \<open>A block in use whose forwarding counts are gone becomes a free block.\<close>

lemma parts_retag:
  assumes p: "heap_parts s" and hm: "hm L s" and h: "blocks s h = Some r"
    and r': "HBLK_IS_FREE r'" "hb_block r' = h" "hb_sz r' = ext r"
    and H: "\<And>q. BLK dvd q \<Longrightarrow> H q = (if h < q \<and> q < h + ext r then 0 else HDR s q)"
  shows "parts H ((blocks s)(h \<mapsto> r'))"
proof -
  note ok = parts_blk_ok(1)[OF p hm h]
  have e': "ext r' = ext r" using r' by (simp add: ext_def)
  have ok': "blk_ok h r'" using ok r' unfolding blk_ok_def e' by simp
  have none: "blocks s x = None" if "h < x" "x < h + ext r" for x
  proof (rule ccontr)
    assume "blocks s x \<noteq> None"
    then obtain rx where x: "blocks s x = Some rx" by blast
    have "h + ext r \<le> x" by (rule parts_in_disjoint[OF p h x _ that(1) blocks_below[OF hm x]]) simp
    then show False using that(2) by linarith
  qed
  show ?thesis
  proof (rule parts_replace[OF p, of h "h + ext r"])
    show "h + ext r \<le> 2 ^ 64" using ok unfolding blk_ok_def by linarith
    show "boundary (blocks s) h" "boundary (blocks s) (h + ext r)" using parts_blk_ok(2,3)[OF p hm h] by auto
    have "parts_in h (h + ext r') H ((blocks s)(h \<mapsto> r'))"
    proof (rule parts_in_single[OF _ ok'])
      show "((blocks s)(h \<mapsto> r')) x = None" if "h < x" "x < h + ext r'" for x using none[of x] that e' by simp
      show "H q = (if HBLK_IS_FREE r' then 0 else min ((q - h) div BLK) MAX_JUMP)"
        if "BLK dvd q" "h < q" "q < h + ext r'" for q
        using H[OF that(1)] that e' r'(1) by simp
    qed simp
    then show "parts_in h (h + ext r) H ((blocks s)(h \<mapsto> r'))" by (simp add: e')
    show "((blocks s)(h \<mapsto> r')) x = blocks s x" if "x < h \<or> h + ext r \<le> x" for x
      using that ok unfolding blk_ok_def by auto
    show "H q = HDR s q" if "BLK dvd q" "q < h \<or> h + ext r \<le> q" for q
      using H[OF that(1)] that(2) by auto
  qed simp
qed

lemma coalesce_next_ok:
  assumes inv: "heap_inv L st ls {h} {}" and h: "blocks (hs st) h = Some r" "HBLK_IS_FREE r"
  obtains st' ls' r' where "coalesce_next st (HDR (hs st) h) (h + ext r) (HDR (hs st) (h + ext r)) = Ret st'"
    "heap_inv L st' ls' {h} {}" "blocks (hs st') h = Some r'" "r' = r\<lparr>hb_sz := hb_sz r'\<rparr>" "ext r \<le> ext r'"
    "HDR (hs st') h = HDR (hs st) h" "frame st st'" "os_mem (hs st') = os_mem (hs st)"
    "keeps_used (blocks (hs st)) (blocks (hs st'))" "free_area (blocks (hs st')) = free_area (blocks (hs st))"
    "fl_total st' + of_nat (ext r') = fl_total st + of_nat (ext r)"
    "\<And>rn. blocks (hs st) (h + ext r) = Some rn \<Longrightarrow> HBLK_IS_FREE rn \<Longrightarrow> IS_MAPPED rn \<Longrightarrow> ext r + ext rn < 2 ^ 63
       \<Longrightarrow> ext r' = ext r + ext rn"
    "\<And>x rx. x < h \<Longrightarrow> blocks (hs st) x = Some rx \<Longrightarrow> \<exists>rx'. blocks (hs st') x = Some rx' \<and> core rx' = core rx"
proof -
  note D = heap_invD[OF inv]
  note okh = parts_blk_ok[OF D(2,1) h(1)]
  define n where "n = h + ext r"
  have al: "BLK dvd n" and pos: "0 < ext r" using okh(1) by (auto simp: n_def blk_ok_def)
  have rh: "hdr_at st (HDR (hs st) h) = r" using h(1) by (simp add: blocks_Some)
  note result = that
  have skip: thesis if none: "coalesce_next st (HDR (hs st) h) n (HDR (hs st) n) = Ret st"
    and no: "\<And>rn. blocks (hs st) n = Some rn \<Longrightarrow> \<not> (HBLK_IS_FREE rn \<and> IS_MAPPED rn \<and> ext r + ext rn < 2 ^ 63)"
    by (rule result[of st ls r]) (use none no inv h in \<open>auto simp: n_def keeps_used_def\<close>)
  show thesis
  proof (cases "HDR (hs st) n = 0")
    case True
    then have "blocks (hs st) n = None" by (simp add: blocks_def)
    then show thesis using True by (intro skip) (simp_all add: coalesce_next_def)
  next
    case False
    obtain rn where rn: "blocks (hs st) n = Some rn"
      using boundary_HDR[OF D(2,1) okh(3)[folded n_def] al False] by blast
    have rn': "hdr_at st (HDR (hs st) n) = rn" using rn by (simp add: blocks_Some)
    have below: "ext r + ext rn < 2 ^ 64"
      using parts_blk_ok(1)[OF D(2,1) rn] unfolding blk_ok_def n_def BLK_def by linarith
    show thesis
    proof (cases "HBLK_IS_FREE rn \<and> IS_MAPPED rn \<and> ext r + ext rn < 2 ^ 63")
      case no: False
      then have "coalesce_next st (HDR (hs st) h) n (HDR (hs st) n) = Ret st"
        using merge_overflow_iff[OF h(2) _ below] by (auto simp: coalesce_next_def rh rn')
      then show thesis using no rn by (intro skip) auto
    next
      case yes: True
      have hn: "h \<noteq> n" using pos by (simp add: n_def)
      obtain st1 ls1 where st1: "GC_remove_from_fl st (HDR (hs st) n) = Ret st1" "heap_inv L st1 ls1 {n, h} {}"
        "HDR (hs st1) = HDR (hs st)" "frame st st1" "same_core (blocks (hs st)) (blocks (hs st1))"
        "\<And>x. x = n \<or> x \<in> {h} \<Longrightarrow> blocks (hs st1) x = blocks (hs st) x" "os_mem (hs st1) = os_mem (hs st)"
        "keeps_used (blocks (hs st)) (blocks (hs st1))" "free_area (blocks (hs st1)) = free_area (blocks (hs st))"
        "fl_total st1 = fl_total st - of_nat (ext rn)"
        by (rule unlist[OF inv rn]) (use yes hn that in auto)
      have b1: "blocks (hs st1) h = Some r" "blocks (hs st1) n = Some rn" using st1(6) h rn by simp_all
      define f :: "hdr \<Rightarrow> hdr" where "f = (\<lambda>r. r\<lparr>hb_sz := hb_sz r + hb_sz rn\<rparr>)"
      have sz: "hb_sz r = ext r" "hb_sz rn = ext rn" using h(2) yes by (simp_all add: ext_def)
      obtain st' where st': "on_hdrs (upd_hdr (HDR (hs st1) h) f st1) (\<lambda>s. GC_remove_header s n) = Ret st'"
        "heap_inv L st' ls1 ({n, h} - {n}) {}" "blocks (hs st') = (blocks (hs st1))(h \<mapsto> f r, n := None)" "frame st1 st'"
        "GC_hblkfreelist st' = GC_hblkfreelist st1" "GC_free_bytes st' = GC_free_bytes st1" "os_mem (hs st') = os_mem (hs st1)"
        "HDR (hs st') h = HDR (hs st1) h" "keeps_used (blocks (hs st1)) (blocks (hs st'))"
        "free_area (blocks (hs st')) = free_area (blocks (hs st1))"
        by (rule inv_absorb[OF st1(2) b1(1) _ n_def b1(2) _ h(2), of f])
          (use yes h okh(1) sz that in \<open>simp_all add: f_def blk_ok_def\<close>)
      have "coalesce_next st (HDR (hs st) h) n (HDR (hs st) n) = Ret st'"
      proof -
        have "hdr_at st1 (HDR (hs st) n) = rn" using b1(2) st1(3) by (simp add: blocks_Some)
        then show ?thesis
          using False yes st1(1,3) st'(1) merge_overflow_iff[OF h(2) _ below]
          by (auto simp: coalesce_next_def rh rn' Let_def f_def)
      qed
      moreover have "ext (f r) = ext r + ext rn" using h(2) sz by (simp add: f_def ext_free)
      moreover have "\<exists>rx'. blocks (hs st') x = Some rx' \<and> core rx' = core rx" if "x < h" "blocks (hs st) x = Some rx" for x rx
        using same_core_Some[OF st1(5) that(2)] that(1) by (auto simp: st'(3) n_def)
      ultimately show thesis
        by (intro that[of st' ls1 "f r"]) (use st' st1 hn frame_trans[OF st1(4) st'(4)] keeps_used_trans[OF st1(8) st'(9)] rn
            in \<open>auto simp: n_def f_def fl_total_def\<close>)
    qed
  qed
qed

lemma coalesce_prev_ok:
  assumes inv: "heap_inv L st ls {h} {}" and h: "blocks (hs st) h = Some r" "HBLK_IS_FREE r"
    and prev: "prev \<noteq> 0 \<Longrightarrow> blocks (hs st) prev = Some rp \<and> HBLK_IS_FREE rp \<and> prev + ext rp = h"
  obtains st' ls' b rb where "coalesce_prev st prev h (HDR (hs st) h) = Ret (st', b, HDR (hs st') b)"
    "heap_inv L st' ls' {b} {}" "blocks (hs st') b = Some rb" "HBLK_IS_FREE rb" "b \<le> h" "b + ext rb = h + ext r"
    "frame st st'" "os_mem (hs st') = os_mem (hs st)"
    "keeps_used (blocks (hs st)) (blocks (hs st'))" "free_area (blocks (hs st')) = free_area (blocks (hs st))"
    "fl_total st' + of_nat (ext rb) = fl_total st + of_nat (ext r)" "IS_MAPPED r \<Longrightarrow> IS_MAPPED rb"
    "b = h \<and> (prev \<noteq> 0 \<longrightarrow> IS_MAPPED rp \<longrightarrow> 2 ^ 63 \<le> ext rp + ext r) \<or> prev \<noteq> 0 \<and> b = prev"
proof -
  note D = heap_invD[OF inv]
  note okh = parts_blk_ok(1)[OF D(2,1) h(1)] and result = that
  have rh: "hdr_at st (HDR (hs st) h) = r" using h(1) by (simp add: blocks_Some)
  have skip: thesis if none: "coalesce_prev st prev h (HDR (hs st) h) = Ret (st, h, HDR (hs st) h)"
    and no: "prev \<noteq> 0 \<longrightarrow> IS_MAPPED rp \<longrightarrow> 2 ^ 63 \<le> ext rp + ext r"
    by (rule result[of st h ls r]) (use none no inv h in \<open>auto simp: keeps_used_def\<close>)
  show thesis
  proof (cases "prev = 0")
    case True
    then show thesis by (intro skip) (simp_all add: coalesce_prev_def)
  next
    case False
    have rp: "blocks (hs st) prev = Some rp" "HBLK_IS_FREE rp" "prev + ext rp = h" using prev[OF False] by simp_all
    have rp': "hdr_at st (HDR (hs st) prev) = rp" using rp by (simp add: blocks_Some)
    note okp = parts_blk_ok(1)[OF D(2,1) rp(1)]
    have below: "ext rp + ext r < 2 ^ 64" using okh rp(3) unfolding blk_ok_def BLK_def by linarith
    have ph: "prev \<noteq> h" using rp(3) okp by (auto simp: blk_ok_def)
    show thesis
    proof (cases "IS_MAPPED rp \<and> ext rp + ext r < 2 ^ 63")
      case no: False
      then have "coalesce_prev st prev h (HDR (hs st) h) = Ret (st, h, HDR (hs st) h)"
        using False merge_overflow_iff[OF rp(2) h(2) below] by (auto simp: coalesce_prev_def hm_GET_HDR[OF D(1)] rh rp')
      then show thesis using no by (intro skip) auto
    next
      case yes: True
      obtain st1 ls1 where st1: "GC_remove_from_fl st (HDR (hs st) prev) = Ret st1" "heap_inv L st1 ls1 {prev, h} {}"
        "HDR (hs st1) = HDR (hs st)" "frame st st1" "same_core (blocks (hs st)) (blocks (hs st1))"
        "\<And>x. x = prev \<or> x \<in> {h} \<Longrightarrow> blocks (hs st1) x = blocks (hs st) x" "os_mem (hs st1) = os_mem (hs st)"
        "keeps_used (blocks (hs st)) (blocks (hs st1))" "free_area (blocks (hs st1)) = free_area (blocks (hs st))"
        "fl_total st1 = fl_total st - of_nat (ext rp)"
        by (rule unlist[OF inv rp(1,2)]) (use ph that in auto)
      have b1: "blocks (hs st1) h = Some r" "blocks (hs st1) prev = Some rp" using st1(6) h rp by simp_all
      define f :: "hdr \<Rightarrow> hdr" where
        "f = (\<lambda>x. x\<lparr>hb_sz := hb_sz x + hb_sz r, hb_last_reclaimed := of_nat (GC_gc_no (hs st1))\<rparr>)"
      have sz: "hb_sz r = ext r" "hb_sz rp = ext rp" using h(2) rp(2) by (simp_all add: ext_def)
      obtain st' where st': "on_hdrs (upd_hdr (HDR (hs st1) prev) f st1) (\<lambda>s. GC_remove_header s h) = Ret st'"
        "heap_inv L st' ls1 ({prev, h} - {h}) {}" "blocks (hs st') = (blocks (hs st1))(prev \<mapsto> f rp, h := None)" "frame st1 st'"
        "GC_hblkfreelist st' = GC_hblkfreelist st1" "GC_free_bytes st' = GC_free_bytes st1" "os_mem (hs st') = os_mem (hs st1)"
        "HDR (hs st') prev = HDR (hs st1) prev" "keeps_used (blocks (hs st1)) (blocks (hs st'))"
        "free_area (blocks (hs st')) = free_area (blocks (hs st1))"
        by (rule inv_absorb[OF st1(2) b1(2) _ rp(3)[symmetric] b1(1) _ rp(2) h(2), of f])
          (use rp okp sz that in \<open>simp_all add: f_def blk_ok_def\<close>)
      have "coalesce_prev st prev h (HDR (hs st) h) = Ret (st', prev, HDR (hs st') prev)"
      proof -
        have "hdr_at st1 (HDR (hs st) h) = r" using b1(1) st1(3) by (simp add: blocks_Some)
        then show ?thesis
          using False yes st1(1,3) st'(1,8) merge_overflow_iff[OF rp(2) h(2) below]
          by (auto simp: coalesce_prev_def rh rp' Let_def f_def hm_GET_HDR[OF D(1)])
      qed
      moreover have "ext (f rp) = ext rp + ext r" using rp(2) sz by (simp add: f_def ext_free)
      moreover have "{prev, h} - {h} = {prev}" using ph by auto
      ultimately show thesis
        by (intro that[of st' prev ls1 "f rp"])
          (use st' st1 ph rp frame_trans[OF st1(4) st'(4)] keeps_used_trans[OF st1(8) st'(9)] False yes
            in \<open>auto simp: f_def fl_total_def\<close>)
    qed
  qed
qed

lemma hm_invalidate: "hm L s \<Longrightarrow> hm L (GC_INVALIDATE_HDR_CACHE s)"
  unfolding hm_def using invalidate_same(1) by blast

lemma invalidate_blocks [simp]:
  "HDR (GC_INVALIDATE_HDR_CACHE s) = HDR s" "blocks (GC_INVALIDATE_HDR_CACHE s) = blocks s"
  "os_mem (GC_INVALIDATE_HDR_CACHE s) = os_mem s"
  by (auto simp: blocks_def invalidate_same(2)) (simp add: GC_INVALIDATE_HDR_CACHE_def)

lemma used_ext:
  assumes "blk_ok h r"
  shows "BLK * OBJ_SZ_TO_BLOCKS (hb_sz r) = ext r"
proof (cases "HBLK_IS_FREE r")
  case True
  then have "BLK dvd hb_sz r" "hb_sz r + BLK < 2 ^ 64" using assms by (auto simp: blk_ok_def ext_def)
  moreover from this obtain k where "hb_sz r = BLK * k" by (auto elim: dvdE)
  ultimately show ?thesis using True by (simp add: ext_def OBJ_SZ_TO_BLOCKS_def BLK_def)
qed (simp add: ext_def)

text \<open>The part of \<open>GC_freehblk\<close> before the coalescing.\<close>

lemma freehblk_retag:
  assumes inv: "heap_inv L st ls {} {}" and h: "blocks (hs st) h = Some r" "\<not> HBLK_IS_FREE r"
  obtains st2 st' where "on_hdrs (set_hs st (GC_INVALIDATE_HDR_CACHE (hs st))) (\<lambda>s. GC_remove_counts s h (ext r)) = Ret st2"
    "hdr_at st2 (HDR (hs st) h) = r" "GC_gc_no (hs st2) = GC_gc_no (hs st)"
    "st' = upd_hdr (HDR (hs st) h) (\<lambda>r. r\<lparr>hb_flags := hb_flags r OR FREE_BLK\<rparr>)
       (upd_hdr (HDR (hs st) h) (\<lambda>x. x\<lparr>hb_sz := ext r, hb_last_reclaimed := of_nat (GC_gc_no (hs st2))\<rparr>) st2)"
    "heap_inv L st' ls {h} {}" "frame st st'" "os_mem (hs st') = os_mem (hs st)" "fl_total st' = fl_total st"
    "blocks (hs st') = (blocks (hs st))(h \<mapsto> r\<lparr>hb_sz := ext r, hb_last_reclaimed := of_nat (GC_gc_no (hs st)),
       hb_flags := hb_flags r OR FREE_BLK\<rparr>)" "HDR (hs st') h = HDR (hs st) h"
proof -
  note D = heap_invD[OF inv]
  note ok = parts_blk_ok(1)[OF D(2,1) h(1)]
  have okc: "BLK dvd h" "BLK dvd ext r" "0 < ext r" "h < 2 ^ 64" "h + ext r + BLK \<le> 2 ^ 64"
    using ok blocks_below[OF D(1) h(1)] by (auto simp: blk_ok_def)
  have inside: "HDR (hs st) q \<noteq> 0 \<and> HDR (hs st) q \<le> MAX_JUMP" if q: "BLK dvd q" "h < q" "q < h + ext r" for q
  proof -
    have "HDR (hs st) q = min ((q - h) div BLK) MAX_JUMP"
      using parts_in_inside[OF D(2) h(1) q(1) _ okc(4) q(2,3)] h(2) by simp
    moreover have "BLK \<le> q - h" using blk_mult[OF okc(1) q(1,2)] by linarith
    then have "1 \<le> (q - h) div BLK" by (simp add: div_greater_zero_iff Suc_le_eq BLK_def)
    ultimately show ?thesis by (simp add: gc_consts)
  qed
  let ?s1 = "GC_INVALIDATE_HDR_CACHE (hs st)" and ?a = "HDR (hs st) h"
  obtain s2 where s2: "GC_remove_counts ?s1 h (ext r) = Ret s2" "hm L s2" "blocks s2 = blocks ?s1"
    "\<And>q. BLK dvd q \<Longrightarrow> HDR s2 q = (if h < q \<and> q < h + ext r then 0 else HDR ?s1 q)"
    "GC_gc_no s2 = GC_gc_no ?s1" "os_mem s2 = os_mem ?s1" "hdr_mem s2 = hdr_mem ?s1"
    by (rule remove_counts_ok[OF hm_invalidate[OF D(1)] okc(1-3,5)]) (use inside that in auto)
  define st2 where "st2 = set_hs (set_hs st ?s1) s2"
  define st3 where "st3 = upd_hdr ?a (\<lambda>x. x\<lparr>hb_sz := ext r, hb_last_reclaimed := of_nat (GC_gc_no (hs st2))\<rparr>) st2"
  define st4 where "st4 = upd_hdr ?a (\<lambda>r. r\<lparr>hb_flags := hb_flags r OR FREE_BLK\<rparr>) st3"
  define r' where "r' = r\<lparr>hb_sz := ext r, hb_last_reclaimed := of_nat (GC_gc_no (hs st)), hb_flags := hb_flags r OR FREE_BLK\<rparr>"
  have run: "on_hdrs (set_hs st ?s1) (\<lambda>s. GC_remove_counts s h (ext r)) = Ret st2"
    using s2(1) by (simp add: on_hdrs_def st2_def)
  have gc2: "GC_gc_no (hs st2) = GC_gc_no (hs st)" using s2(5) by (simp add: st2_def)
  have a2: "HDR (hs st2) h = ?a" using s2(4)[OF okc(1)] by (simp add: st2_def)
  have b2: "hm L (hs st2)" "blocks (hs st2) h = Some r" using s2(2,3) h(1) by (simp_all add: st2_def)
  have b3: "hm L (hs st3)" "blocks (hs st3) = (blocks (hs st))(h \<mapsto> r\<lparr>hb_sz := ext r, hb_last_reclaimed := of_nat (GC_gc_no (hs st))\<rparr>)"
    using upd_hdr_ok[OF b2 a2[symmetric]] s2(3) gc2 by (simp_all add: st3_def) (simp add: st2_def)
  have b4: "hm L (hs st4)" "blocks (hs st4) = (blocks (hs st))(h \<mapsto> r')"
    using upd_hdr_ok[OF b3(1), of h _ ?a] b3(2) a2 by (simp_all add: st4_def r'_def) (simp_all add: st3_def)
  have HDR4: "HDR (hs st4) q = (if h < q \<and> q < h + ext r then 0 else HDR (hs st) q)" if "BLK dvd q" for q
    using s2(4)[OF that] by (simp add: st4_def st3_def st2_def)
  have fr: "frame st st4"
  proof -
    have "frame st st2" unfolding st2_def using s2(5)
      by (intro frame_trans[OF frame_set_hs frame_set_hs]) simp_all
    then have "frame st st3" unfolding st3_def using frame_upd_hdr by (rule frame_trans)
    then show ?thesis unfolding st4_def using frame_upd_hdr by (rule frame_trans)
  qed
  have fl: "GC_hblkfreelist st4 = GC_hblkfreelist st" "GC_free_bytes st4 = GC_free_bytes st"
    by (simp_all add: st4_def st3_def st2_def upd_hdr_def set_hs_def)
  have notin: "h \<notin> listed ls" using inv_on_listed[of _ "blocks (hs st)" _ _ ls] inv h by (force simp: heap_inv_def)
  have "heap_inv L st4 ls {h} {}"
    unfolding heap_inv_def inv_on_def
  proof (intro conjI allI impI)
    show "hm L (hs st4)" by (rule b4)
    show "heap_parts (hs st4)"
      unfolding b4(2) by (rule parts_retag[OF D(2,1) h(1)]) (use HDR4 ok in \<open>simp_all add: r'_def blk_ok_def\<close>)
    show "fl_ok st4 ls" unfolding b4(2) fl using D(3) notin by (simp add: lists_ok_upd)
    show "\<exists>r. blocks (hs st4) x = Some r \<and> HBLK_IS_FREE r \<and> (x \<in> {} \<or> fl_class r = i)" if x: "x \<in> set (ls i)" for x i
      using D(5)[OF x] listedI[of x ls i, OF x] notin by (auto simp: b4(2))
    show "x \<in> {h} \<or> x \<in> listed ls" if "blocks (hs st4) x = Some rx" "HBLK_IS_FREE rx" for x rx
      using that D(6) by (auto simp: b4(2) split: if_splits)
  qed (use notin in simp)
  moreover have "hdr_at st2 ?a = r" using b2(2) a2 by (simp add: blocks_Some)
  moreover have "os_mem (hs st4) = os_mem (hs st)" using s2(6) by (simp add: st4_def st3_def st2_def)
  ultimately show thesis
    by (intro that[OF run _ gc2, of st4]) (use fr b4 fl HDR4[OF okc(1)] in \<open>simp_all add: r'_def st4_def st3_def fl_total_def\<close>)
qed

lemma frame_large: "frame st st' \<Longrightarrow> GC_large_free_bytes st' = GC_large_free_bytes st"
  by (auto simp: frame_def)

lemma free_area_retag:
  assumes "F h = Some r" "\<not> HBLK_IS_FREE r" "HBLK_IS_FREE r'" "ext r' = ext r"
  shows "free_area (F(h \<mapsto> r')) = free_area F \<union> {h ..< h + ext r}"
proof (intro set_eqI iffI)
  fix a assume "a \<in> free_area (F(h \<mapsto> r'))"
  then show "a \<in> free_area F \<union> {h ..< h + ext r}"
    using assms by (auto simp: free_area_def split: if_splits)
next
  fix a assume "a \<in> free_area F \<union> {h ..< h + ext r}"
  then consider "h \<le> a" "a < h + ext r" | x rx where "F x = Some rx" "HBLK_IS_FREE rx" "x \<le> a" "a < x + ext rx"
    by (auto simp: free_area_def)
  then show "a \<in> free_area (F(h \<mapsto> r'))"
  proof cases
    case 1
    then show ?thesis using assms by (intro free_areaI[of _ h r']) simp_all
  next
    case 2
    then show ?thesis using assms by (intro free_areaI[of _ x rx]) auto
  qed
qed

lemma GC_freehblk_spec:
  assumes inv: "heap_inv L st ls {} {}" and h: "blocks (hs st) h = Some r" "\<not> HBLK_IS_FREE r" "ext r < 2 ^ 63"
  shows "\<exists>st' ls' b rb. GC_freehblk st h = Ret st' \<and> heap_inv L st' ls' {} {}
    \<and> GC_large_free_bytes st' = GC_large_free_bytes st + of_nat (ext r) \<and> fl_total st' = fl_total st + of_nat (ext r)
    \<and> free_area (blocks (hs st')) = free_area (blocks (hs st)) \<union> {h ..< h + ext r}
    \<and> keeps_used ((blocks (hs st))(h := None)) (blocks (hs st'))
    \<and> blocks (hs st') b = Some rb \<and> HBLK_IS_FREE rb \<and> b \<le> h \<and> h + ext r \<le> b + ext rb \<and> (IS_MAPPED r \<longrightarrow> IS_MAPPED rb)
    \<and> (\<forall>rn. blocks (hs st) (h + ext r) = Some rn \<longrightarrow> HBLK_IS_FREE rn \<longrightarrow> IS_MAPPED rn \<longrightarrow> ext r + ext rn < 2 ^ 63
          \<longrightarrow> b + ext rb = h + ext r + ext rn)
    \<and> (\<forall>p rp. blocks (hs st) p = Some rp \<longrightarrow> HBLK_IS_FREE rp \<longrightarrow> IS_MAPPED rp \<longrightarrow> p + ext rp = h
          \<longrightarrow> b = p \<or> 2 ^ 63 \<le> ext rp + (b + ext rb - h))"
proof -
  note D = heap_invD[OF inv]
  note ok = parts_blk_ok[OF D(2,1) h(1)]
  have okc: "BLK dvd h" "0 < h" "h < 2 ^ 64" using ok(1) blocks_below[OF D(1) h(1)] by (auto simp: blk_ok_def)
  have rh: "hdr_at st (HDR (hs st) h) = r" using h(1) by (simp add: blocks_Some)
  obtain st2 st4 where rt: "on_hdrs (set_hs st (GC_INVALIDATE_HDR_CACHE (hs st))) (\<lambda>s. GC_remove_counts s h (ext r)) = Ret st2"
    "hdr_at st2 (HDR (hs st) h) = r" "GC_gc_no (hs st2) = GC_gc_no (hs st)"
    and st4: "st4 = upd_hdr (HDR (hs st) h) (\<lambda>r. r\<lparr>hb_flags := hb_flags r OR FREE_BLK\<rparr>)
       (upd_hdr (HDR (hs st) h) (\<lambda>x. x\<lparr>hb_sz := ext r, hb_last_reclaimed := of_nat (GC_gc_no (hs st2))\<rparr>) st2)"
    and inv4: "heap_inv L st4 ls {h} {}" and fr4: "frame st st4" and tot4: "fl_total st4 = fl_total st"
    and b4: "blocks (hs st4) = (blocks (hs st))(h \<mapsto> r\<lparr>hb_sz := ext r, hb_last_reclaimed := of_nat (GC_gc_no (hs st)),
       hb_flags := hb_flags r OR FREE_BLK\<rparr>)" and a4: "HDR (hs st4) h = HDR (hs st) h"
    by (rule freehblk_retag[OF inv h(1,2)]) (rule that)
  define r4 where "r4 = r\<lparr>hb_sz := ext r, hb_last_reclaimed := of_nat (GC_gc_no (hs st)), hb_flags := hb_flags r OR FREE_BLK\<rparr>"
  have r4: "blocks (hs st4) h = Some r4" "HBLK_IS_FREE r4" "ext r4 = ext r" "IS_MAPPED r4 = IS_MAPPED r"
    using mapped_or_free[of "r\<lparr>hb_sz := ext r, hb_last_reclaimed := of_nat (GC_gc_no (hs st))\<rparr>"]
    by (simp_all add: b4 r4_def ext_free del: mapped_or_free)
  note D4 = heap_invD[OF inv4]
  obtain prev where prev: "GC_free_block_ending_at st4 h = Ret prev" and pspec:
    "if prev = 0 then \<forall>x r. blocks (hs st4) x = Some r \<longrightarrow> HBLK_IS_FREE r \<longrightarrow> x + ext r \<noteq> h
     else \<exists>r. blocks (hs st4) prev = Some r \<and> HBLK_IS_FREE r \<and> prev + ext r = h"
    using GC_free_block_ending_at_spec[OF D4(1,2) okc parts_blk_ok(2)[OF D4(2,1) r4(1)]] by blast
  obtain st5 ls5 r5 where n5: "coalesce_next st4 (HDR (hs st4) h) (h + ext r4) (HDR (hs st4) (h + ext r4)) = Ret st5"
    "heap_inv L st5 ls5 {h} {}" "blocks (hs st5) h = Some r5" "r5 = r4\<lparr>hb_sz := hb_sz r5\<rparr>" "ext r4 \<le> ext r5"
    "HDR (hs st5) h = HDR (hs st4) h" "frame st4 st5" "keeps_used (blocks (hs st4)) (blocks (hs st5))"
    "free_area (blocks (hs st5)) = free_area (blocks (hs st4))" "fl_total st5 + of_nat (ext r5) = fl_total st4 + of_nat (ext r4)"
    "\<And>rn. blocks (hs st4) (h + ext r4) = Some rn \<Longrightarrow> HBLK_IS_FREE rn \<Longrightarrow> IS_MAPPED rn \<Longrightarrow> ext r4 + ext rn < 2 ^ 63
       \<Longrightarrow> ext r5 = ext r4 + ext rn"
    "\<And>x rx. x < h \<Longrightarrow> blocks (hs st4) x = Some rx \<Longrightarrow> \<exists>rx'. blocks (hs st5) x = Some rx' \<and> core rx' = core rx"
    by (rule coalesce_next_ok[OF inv4 r4(1,2)]) (rule that)
  have r5: "HBLK_IS_FREE r5" "IS_MAPPED r5 = IS_MAPPED r4" using n5(4) r4(2) flags_only by metis+
  have before: "x < h" if "blocks (hs st4) x = Some rx" "x + ext rx = h" for x rx
    using parts_blk_ok(1)[OF D4(2,1) that(1)] that(2) by (auto simp: blk_ok_def)
  obtain rp where rp: "prev \<noteq> 0 \<Longrightarrow> blocks (hs st4) prev = Some rp \<and> HBLK_IS_FREE rp \<and> prev + ext rp = h"
    using pspec by (cases "prev = 0") auto
  then have "prev \<noteq> 0 \<Longrightarrow> \<exists>rp'. blocks (hs st5) prev = Some rp' \<and> core rp' = core rp" using n5(12) before by blast
  then obtain rp5 where rp5: "prev \<noteq> 0 \<Longrightarrow> blocks (hs st5) prev = Some rp5 \<and> core rp5 = core rp" by blast
  have prev5: "prev \<noteq> 0 \<Longrightarrow> blocks (hs st5) prev = Some rp5 \<and> HBLK_IS_FREE rp5 \<and> prev + ext rp5 = h"
    using rp rp5 ext_core[of rp5 rp prev] by auto
  obtain st6 ls6 b rb where p6: "coalesce_prev st5 prev h (HDR (hs st5) h) = Ret (st6, b, HDR (hs st6) b)"
    "heap_inv L st6 ls6 {b} {}" "blocks (hs st6) b = Some rb" "HBLK_IS_FREE rb" "b \<le> h" "b + ext rb = h + ext r5"
    "frame st5 st6" "keeps_used (blocks (hs st5)) (blocks (hs st6))"
    "free_area (blocks (hs st6)) = free_area (blocks (hs st5))" "fl_total st6 + of_nat (ext rb) = fl_total st5 + of_nat (ext r5)"
    "IS_MAPPED r5 \<Longrightarrow> IS_MAPPED rb"
    "b = h \<and> (prev \<noteq> 0 \<longrightarrow> IS_MAPPED rp5 \<longrightarrow> 2 ^ 63 \<le> ext rp5 + ext r5) \<or> prev \<noteq> 0 \<and> b = prev"
    by (rule coalesce_prev_ok[OF n5(2,3) r5(1) prev5]) (assumption, rule that)
  define st7 where "st7 = st6\<lparr>GC_large_free_bytes := GC_large_free_bytes st6 + of_nat (ext r)\<rparr>"
  note D6 = heap_invD[OF p6(2)]
  have b7: "blocks (hs st7) b = Some rb" "hm L (hs st7)" using p6(3) D6(1) by (simp_all add: st7_def)
  have same: "(blocks (hs st7))(b \<mapsto> rb\<lparr>hb_flags := hb_flags rb OR FREE_BLK\<rparr>) = blocks (hs st7)"
    using b7(1) free_again[OF p6(4)] by auto
  obtain st8 where a8: "GC_add_to_fl st7 b (HDR (hs st7) b) = Ret st8"
    "heap_inv L st8 (ls6(fl_class rb := b # ls6 (fl_class rb))) ({b} - {b}) {}" "frame st7 st8"
    "same_core ((blocks (hs st7))(b \<mapsto> rb\<lparr>hb_flags := hb_flags rb OR FREE_BLK\<rparr>)) (blocks (hs st8))"
    "\<And>x. x \<noteq> b \<Longrightarrow> x \<notin> listed ls6 \<Longrightarrow> blocks (hs st8) x = blocks (hs st7) x"
    "GC_free_bytes st8 = (GC_free_bytes st7)(fl_class rb := GC_free_bytes st7 (fl_class rb) + of_nat (hb_sz rb))"
    by (rule inv_add[OF b7(2,1), of "{b}" ls6 "{}"])
      (use p6(2) that in \<open>simp_all only: same, simp_all add: heap_inv_def st7_def\<close>)
  have run: "GC_freehblk st h = Ret st8"
  proof -
    have signb: "\<not> has_SIZET_SIGNB (ext r)" using h(3) by (subst has_SIZET_SIGNB_iff) simp_all
    have used: "\<not> HBLK_IS_FREE (hdr_at (upd_hdr (HDR (hs st) h)
        (\<lambda>x. x\<lparr>hb_sz := ext r, hb_last_reclaimed := of_nat (GC_gc_no (hs st2))\<rparr>) st2) (HDR (hs st) h))"
      using h(2) rt(2) by (simp add: upd_hdr_mem)
    have first: "obind (coalesce_prev st5 prev h (HDR (hs st) h)) (\<lambda>(st, hbp, hhdr).
        GC_add_to_fl (st\<lparr>GC_large_free_bytes := GC_large_free_bytes st + of_nat (ext r)\<rparr>) hbp hhdr) = Ret st8"
      using p6(1) a8(1) n5(6) a4 by (simp add: st7_def)
    show ?thesis
      unfolding GC_freehblk_def Let_def hs_set_hs hm_GET_HDR[OF hm_invalidate[OF D(1)]] obind.simps
        invalidate_blocks invalidate_fields rh used_ext[OF ok(1)] rt(1) if_not_P[OF signb] if_not_P[OF used]
        st4[symmetric] hm_GET_HDR[OF D4(1)] prev
      using n5(1) a4 r4(3) first by simp
  qed
  have large: "GC_large_free_bytes st8 = GC_large_free_bytes st + of_nat (ext r)"
    using frame_large[OF a8(3)] frame_large[OF p6(7)] frame_large[OF n5(7)] frame_large[OF fr4] by (simp add: st7_def)
  have total: "fl_total st8 = fl_total st + of_nat (ext r)"
  proof -
    have "fl_total st8 = fl_total st6 + of_nat (hb_sz rb)"
      unfolding fl_total_def a8(6) by (subst sum_upd[OF GC_hblk_fl_from_blocks_le]) (simp add: st7_def)
    then show ?thesis using p6(4,10) n5(10) tot4 r4(3) by (simp add: ext_free)
  qed
  have core8: "same_core (blocks (hs st6)) (blocks (hs st8))" using a8(4) same by (simp add: st7_def)
  have area: "free_area (blocks (hs st8)) = free_area (blocks (hs st)) \<union> {h ..< h + ext r}"
    using free_area_core[OF core8] p6(9) n5(9) free_area_retag[of "blocks (hs st)" h, OF h(1,2) r4(2,3)] b4 by (simp add: r4_def)
  have used: "keeps_used ((blocks (hs st))(h := None)) (blocks (hs st8))"
  proof -
    have "keeps_used ((blocks (hs st))(h := None)) (blocks (hs st4))" by (auto simp: b4 keeps_used_def)
    moreover have "keeps_used (blocks (hs st6)) (blocks (hs st8))"
    proof (unfold keeps_used_def, intro allI impI)
      fix x rx assume x: "blocks (hs st6) x = Some rx" "\<not> HBLK_IS_FREE rx"
      then have "x \<noteq> b" "x \<notin> listed ls6"
        using p6(3,4) inv_on_listed[of _ "blocks (hs st6)" _ _ ls6, of _ _ _ "{b}" "{}" x] p6(2)
        by (auto simp: heap_inv_def)
      then show "blocks (hs st8) x = Some rx" using a8(5) x(1) by (simp add: st7_def)
    qed
    ultimately show ?thesis using n5(8) p6(8) keeps_used_trans by blast
  qed
  obtain rb8 where rb8: "blocks (hs st8) b = Some rb8" "core rb8 = core rb" by (rule same_core_Some[OF core8 p6(3)])
  have rb8': "HBLK_IS_FREE rb8" "ext rb8 = ext rb" "IS_MAPPED rb8 = IS_MAPPED rb"
    using ext_core[OF rb8(2), of b] core_eqD[OF rb8(2)] p6(4) by (auto simp: IS_MAPPED_def)
  show ?thesis
  proof (rule exI[of _ st8], rule exI[of _ "ls6(fl_class rb := b # ls6 (fl_class rb))"], rule exI[of _ b], rule exI[of _ rb8],
      intro conjI)
    show "heap_inv L st8 (ls6(fl_class rb := b # ls6 (fl_class rb))) {} {}" using a8(2) by simp
    show "h + ext r \<le> b + ext rb8" using p6(6) n5(5) r4(3) rb8'(2) by simp
    show "IS_MAPPED r \<longrightarrow> IS_MAPPED rb8" using p6(11) r5(2) r4(4) rb8'(3) by simp
    have pos: "0 < ext r" using ok(1) by (auto simp: blk_ok_def)
    show "\<forall>rn. blocks (hs st) (h + ext r) = Some rn \<longrightarrow> HBLK_IS_FREE rn \<longrightarrow> IS_MAPPED rn \<longrightarrow> ext r + ext rn < 2 ^ 63
          \<longrightarrow> b + ext rb8 = h + ext r + ext rn"
      using n5(11) r4(3) p6(6) rb8'(2) pos by (auto simp: b4)
    show "\<forall>p rp. blocks (hs st) p = Some rp \<longrightarrow> HBLK_IS_FREE rp \<longrightarrow> IS_MAPPED rp \<longrightarrow> p + ext rp = h
          \<longrightarrow> b = p \<or> 2 ^ 63 \<le> ext rp + (b + ext rb8 - h)"
    proof (intro allI impI)
      fix p rq assume p: "blocks (hs st) p = Some rq" "HBLK_IS_FREE rq" "IS_MAPPED rq" "p + ext rq = h"
      then have "p \<noteq> h" using h by auto
      then have bp: "blocks (hs st4) p = Some rq" using p by (simp add: b4)
      have "prev \<noteq> 0" using pspec bp p by (auto split: if_splits)
      then have eq: "prev = p"
        using rp cover_unique[OF D4(2,1) _ _ _ bp, of prev rp "h - 1"] p(4) before[OF bp] okc(2)
          parts_blk_ok(1)[OF D4(2,1), of prev rp] parts_blk_ok(1)[OF D4(2,1) bp] by (auto simp: blk_ok_def)
      then have "core rp5 = core rq" using rp rp5 bp \<open>prev \<noteq> 0\<close> by auto
      then have "ext rp5 = ext rq" "IS_MAPPED rp5" using ext_core[of rp5 rq p] core_eqD[of rp5 rq] p(3) by (auto simp: IS_MAPPED_def)
      then show "b = p \<or> 2 ^ 63 \<le> ext rq + (b + ext rb8 - h)"
        using p6(6,12) eq \<open>prev \<noteq> 0\<close> rb8'(2) by auto
    qed
  qed (use run large total area used rb8 rb8' p6(5) in simp_all)
qed

section \<open>Errors\<close>

lemma freehblk_again:
  assumes inv: "heap_inv L st ls {} {}" and h: "blocks (hs st) h = Some r" "HBLK_IS_FREE r" "ext r < 2 ^ 63"
  shows "GC_freehblk st h = Abort ''Duplicate large block deallocation''"
proof -
  note D = heap_invD[OF inv]
  note ok = parts_blk_ok(1)[OF D(2,1) h(1)]
  let ?s1 = "GC_INVALIDATE_HDR_CACHE (hs st)"
  have rh: "hdr_at st (HDR (hs st) h) = r" using h(1) by (simp add: blocks_Some)
  have signb: "\<not> has_SIZET_SIGNB (ext r)" using h(3) by (subst has_SIZET_SIGNB_iff) simp_all
  have "HDR (hs st) (h + BLK) = 0" if "BLK < ext r"
    using parts_in_inside[OF D(2) h(1), of "h + BLK"] h(2) ok blocks_below[OF D(1) h(1)] that
    by (auto simp: blk_ok_def BLK_def)
  moreover have "(h + BLK) mod 2 ^ 64 = h + BLK" using ok by (simp add: blk_ok_def BLK_def)
  ultimately have "GC_remove_counts ?s1 h (ext r) = Ret (GC_INVALIDATE_HDR_CACHE ?s1)"
    using hm_GET_HDR[OF hm_invalidate[OF hm_invalidate[OF D(1)]]] by (simp add: GC_remove_counts_def Let_def)
  then have run: "on_hdrs (set_hs st ?s1) (\<lambda>s. GC_remove_counts s h (ext r)) = Ret (set_hs (set_hs st ?s1) (GC_INVALIDATE_HDR_CACHE ?s1))"
    by (simp add: on_hdrs_def)
  show ?thesis
    unfolding GC_freehblk_def Let_def hs_set_hs hm_GET_HDR[OF hm_invalidate[OF D(1)]] obind.simps
      invalidate_blocks invalidate_fields rh used_ext[OF ok] run if_not_P[OF signb]
    using h(2) by (simp add: upd_hdr_mem rh)
qed

lemma freehblk_huge:
  assumes inv: "heap_inv L st ls {} {}" and h: "blocks (hs st) h = Some r" "2 ^ 63 \<le> ext r"
  shows "GC_freehblk st h = Abort ''Deallocating excessively large block.  Too large an allocation?''"
proof -
  note D = heap_invD[OF inv]
  note ok = parts_blk_ok(1)[OF D(2,1) h(1)]
  have rh: "hdr_at st (HDR (hs st) h) = r" using h(1) by (simp add: blocks_Some)
  have "ext r < 2 ^ 64" using ok by (simp add: blk_ok_def BLK_def)
  then have signb: "has_SIZET_SIGNB (ext r)" using h(2) by (subst has_SIZET_SIGNB_iff) simp_all
  show ?thesis
    unfolding GC_freehblk_def Let_def hs_set_hs hm_GET_HDR[OF hm_invalidate[OF D(1)]] obind.simps
      invalidate_blocks invalidate_fields rh used_ext[OF ok] if_P[OF signb] ..
qed

section \<open>Freeing is correct\<close>

text \<open>
  C3: in a heap whose headers partition it and whose free lists hold exactly the free blocks,
  \<open>GC_freehblk\<close> of a block in use returns, keeps this invariant, adds the size of the block to
  \<open>GC_large_free_bytes\<close> and to the counts of the lists, makes exactly the bytes of the block free in
  addition to those that were, leaves the headers of all other blocks in use as they were, and
  coalesces the block with its mapped free successor and predecessor unless the size of the
  result would have the sign bit.
\<close>

theorem GC_freehblk_correct:
  assumes "heap_inv L st ls {} {}" "blocks (hs st) h = Some r" "\<not> HBLK_IS_FREE r" "ext r < 2 ^ 63"
  shows "\<exists>st' ls' b rb. GC_freehblk st h = Ret st' \<and> heap_inv L st' ls' {} {}
    \<and> GC_large_free_bytes st' = GC_large_free_bytes st + of_nat (ext r) \<and> fl_total st' = fl_total st + of_nat (ext r)
    \<and> free_area (blocks (hs st')) = free_area (blocks (hs st)) \<union> {h ..< h + ext r}
    \<and> keeps_used ((blocks (hs st))(h := None)) (blocks (hs st'))
    \<and> blocks (hs st') b = Some rb \<and> HBLK_IS_FREE rb \<and> b \<le> h \<and> h + ext r \<le> b + ext rb \<and> (IS_MAPPED r \<longrightarrow> IS_MAPPED rb)
    \<and> (\<forall>rn. blocks (hs st) (h + ext r) = Some rn \<longrightarrow> HBLK_IS_FREE rn \<longrightarrow> IS_MAPPED rn \<longrightarrow> ext r + ext rn < 2 ^ 63
          \<longrightarrow> b + ext rb = h + ext r + ext rn)
    \<and> (\<forall>p rp. blocks (hs st) p = Some rp \<longrightarrow> HBLK_IS_FREE rp \<longrightarrow> IS_MAPPED rp \<longrightarrow> p + ext rp = h
          \<longrightarrow> b = p \<or> 2 ^ 63 \<le> ext rp + (b + ext rb - h))"
  by (rule GC_freehblk_spec[OF assms])

text \<open>
  C7: \<open>GC_freehblk\<close> aborts on a block that is already free, and on a block whose size has the sign
  bit, before any change to the lists.
\<close>

theorem GC_freehblk_errors:
  assumes "heap_inv L st ls {} {}" "blocks (hs st) h = Some r" "HBLK_IS_FREE r \<or> 2 ^ 63 \<le> ext r"
  shows "GC_freehblk st h = (if 2 ^ 63 \<le> ext r
    then Abort ''Deallocating excessively large block.  Too large an allocation?''
    else Abort ''Duplicate large block deallocation'')"
  using freehblk_huge[OF assms(1,2)] freehblk_again[OF assms(1,2)] assms(3) by auto

section \<open>An example\<close>

text \<open>An object of two blocks at block 5, a free block of two blocks at block 8 on the second list.\<close>

definition heap_ex :: heap_state where
  "heap_ex = \<lparr>bls = bl_ex, GC_hblkfreelist = (\<lambda>_. 0)(2 := 32768), GC_free_bytes = (\<lambda>_. 0)(2 := 8192),
     GC_large_free_bytes = 8192, GC_large_allocd_bytes = 0, GC_max_large_allocd_bytes = 0, GC_bytes_dropped = 0,
     GC_finalizer_bytes_freed = 0, GC_requested_heapsize = 0, GC_drop_blacklisted_count = 0,
     GC_large_alloc_warn_suppressed = 0, GC_large_alloc_warn_interval = 5, GC_alloc_fail_count = 0,
     GC_use_entire_heap = False, GC_dont_gc = False, GC_incremental = False, GC_find_leak_inner = False,
     GC_manual_vdb = False, clear_refs_fd = -1,
     GC_obj_kinds = (\<lambda>_. \<lparr>ok_descriptor = 0, ok_relocate_descr = False, ok_mark_unconditionally = False, ok_disclaim_proc = False\<rparr>),
     GC_obj_map = (\<lambda>_. 0), obj_map_mem = (\<lambda>_ _. 0), os_calls = []\<rparr>"

definition ls_ex :: "nat \<Rightarrow> nat list" where
  "ls_ex = (\<lambda>_. [])(2 := [32768])"

lemma hdr_of_free: "HBLK_IS_FREE (hdr_of b sz 0) = False" "HBLK_IS_FREE (hdr_of b sz FREE_BLK) = True"
  by (simp_all add: HBLK_IS_FREE_def hdr_of_def FREE_BLK_def)

lemma hdr_of_ext: "ext (hdr_of b 8192 0) = 8192" "ext (hdr_of b 8192 FREE_BLK) = 8192"
  by (simp_all add: ext_def hdr_of_free OBJ_SZ_TO_BLOCKS_def BLK_def) (simp_all add: hdr_of_def)

lemma heap_ex_fields [simp]: "hs heap_ex = hdr_ex" "GC_hblkfreelist heap_ex = (\<lambda>_. 0)(2 := 32768)"
  "GC_free_bytes heap_ex = (\<lambda>_. 0)(2 := 8192)"
  by (simp_all add: heap_ex_def bl_ex_def)

lemma blocks_ex: "blocks hdr_ex = [20480 \<mapsto> hdr_of 20480 8192 0, 32768 \<mapsto> hdr_of 32768 8192 FREE_BLK]"
proof
  fix h
  have five: "h div 4096 = 5 \<longleftrightarrow> h = 20480" and eight: "h div 4096 = 8 \<longleftrightarrow> h = 32768" if "BLK dvd h"
    using that by (auto simp: BLK_def elim: dvdE)
  consider "\<not> BLK dvd h" | "BLK dvd h" "h = 20480 \<or> h = 32768" | "BLK dvd h" "h \<noteq> 20480" "h \<noteq> 32768" by blast
  then show "blocks hdr_ex h = [20480 \<mapsto> hdr_of 20480 8192 0, 32768 \<mapsto> hdr_of 32768 8192 FREE_BLK] h"
  proof cases
    case 1
    then have "h \<noteq> 20480" "h \<noteq> 32768" by (auto simp: BLK_def)
    then show ?thesis using 1 by (simp add: blocks_def)
  next
    case 2
    then show ?thesis by (elim disjE) (simp_all add: blocks_def hdr_ex_HDR hdr_ex_hdrs gc_consts)
  next
    case 3
    then show ?thesis using five eight by (simp add: blocks_def hdr_ex_HDR MAX_JUMP_def) (simp add: BLK_def)
  qed
qed

lemma blocks_ex_cases:
  assumes "blocks hdr_ex h = Some r"
  obtains "h = 20480" "r = hdr_of 20480 8192 0" | "h = 32768" "r = hdr_of 32768 8192 FREE_BLK"
  using assms unfolding blocks_ex by (auto split: if_splits)

lemma heap_ex_parts: "heap_parts hdr_ex"
  unfolding parts_in_def
proof (intro conjI allI impI)
  fix h r assume "blocks hdr_ex h = Some r"
  then show "blk_ok h r" by (cases rule: blocks_ex_cases) (simp_all add: blk_ok_def hdr_of_ext BLK_def, simp_all add: hdr_of_def)
  show "h + ext r \<le> 2 ^ 64" using \<open>blocks hdr_ex h = Some r\<close> by (cases rule: blocks_ex_cases) (simp_all add: hdr_of_ext)
next
  fix h r h' r' assume "blocks hdr_ex h = Some r" "blocks hdr_ex h' = Some r'" "h < h'"
  then show "h + ext r \<le> h'" by (auto elim!: blocks_ex_cases simp: hdr_of_ext)
next
  fix h r q assume b: "blocks hdr_ex h = Some r" and q: "BLK dvd q" "h < q" "q < h + ext r"
  obtain k where k: "q = k * 4096" using q(1) by (auto simp: BLK_def elim: dvdE)
  from b show "HDR hdr_ex q = (if HBLK_IS_FREE r then 0 else min ((q - h) div BLK) MAX_JUMP)"
  proof (cases rule: blocks_ex_cases)
    case 1
    then have "k = 6" using q k by (simp add: hdr_of_ext)
    then show ?thesis using 1 k by (simp add: hdr_ex_HDR hdr_of_free gc_consts)
  next
    case 2
    then have "k = 9" using q k by (simp add: hdr_of_ext)
    then show ?thesis using 2 k by (simp add: hdr_ex_HDR hdr_of_free)
  qed
next
  fix q assume q: "BLK dvd q" "HDR hdr_ex q \<noteq> 0"
  obtain k where k: "q = k * 4096" using q(1) by (auto simp: BLK_def elim: dvdE)
  then have "k = 5 \<or> k = 6 \<or> k = 8" using q(2) by (auto simp: hdr_ex_HDR split: if_splits)
  then have "20480 \<le> q \<and> q < 20480 + 8192 \<or> 32768 \<le> q \<and> q < 32768 + 8192" using k by auto
  then show "\<exists>h r. blocks hdr_ex h = Some r \<and> 0 \<le> h \<and> h \<le> q \<and> q < h + ext r"
  proof
    assume "20480 \<le> q \<and> q < 20480 + 8192"
    then show ?thesis by (intro exI[of _ 20480] exI[of _ "hdr_of 20480 8192 0"]) (simp add: blocks_ex hdr_of_ext)
  next
    assume "32768 \<le> q \<and> q < 32768 + 8192"
    then show ?thesis by (intro exI[of _ 32768] exI[of _ "hdr_of 32768 8192 FREE_BLK"]) (simp add: blocks_ex hdr_of_ext)
  qed
qed

lemma heap_ex_inv: "heap_inv 65536 heap_ex ls_ex {} {}"
proof -
  have cls: "fl_class (hdr_of 32768 8192 FREE_BLK) = 2" by (simp add: hdr_of_def GC_hblk_fl_from_blocks_def gc_consts)
  have "seg (blocks hdr_ex) 0 32768 [32768] 0" by (simp add: blocks_ex hdr_of_def)
  moreover have "list_bytes (blocks hdr_ex) [32768] = 8192" by (simp add: list_bytes_def blocks_ex hdr_of_def)
  ultimately have "fl_ok heap_ex ls_ex" by (auto simp: lists_ok_def ls_ex_def gc_consts list_bytes_def)
  moreover have "listed ls_ex = {32768}" by (auto simp: listed_def ls_ex_def)
  moreover have "h \<in> listed ls_ex" if "blocks hdr_ex h = Some r" "HBLK_IS_FREE r" for h r
    using that(1) that(2) \<open>listed ls_ex = {32768}\<close> by (cases rule: blocks_ex_cases) (simp_all add: hdr_of_free)
  moreover have "\<exists>r. blocks hdr_ex h = Some r \<and> HBLK_IS_FREE r \<and> fl_class r = i" if "h \<in> set (ls_ex i)" for h i
    using that cls by (auto simp: ls_ex_def blocks_ex hdr_of_free split: if_splits)
  ultimately show ?thesis
    using hdr_ex_inv heap_ex_parts unfolding heap_inv_def inv_on_def hm_def heap_ex_fields by auto
qed

theorem GC_freehblk_correct_witness:
  "\<exists>st'. GC_freehblk heap_ex 20480 = Ret st' \<and> GC_large_free_bytes st' = 16384
     \<and> free_area (blocks (hs st')) = {20480 ..< 28672} \<union> {32768 ..< 40960}"
proof -
  have r: "blocks (hs heap_ex) 20480 = Some (hdr_of 20480 8192 0)" "\<not> HBLK_IS_FREE (hdr_of 20480 8192 0)"
    "ext (hdr_of 20480 8192 0) < 2 ^ 63" by (simp_all add: blocks_ex hdr_of_free hdr_of_ext)
  have "free_area (blocks hdr_ex) = {32768 ..< 40960}"
  proof (intro set_eqI iffI)
    fix a assume "a \<in> free_area (blocks hdr_ex)"
    then obtain h r where h: "blocks hdr_ex h = Some r" "HBLK_IS_FREE r" "h \<le> a" "a < h + ext r" by (auto simp: free_area_def)
    from h(1) show "a \<in> {32768 ..< 40960}" by (cases rule: blocks_ex_cases) (use h in \<open>simp_all add: hdr_of_free hdr_of_ext\<close>)
  next
    fix a :: nat assume "a \<in> {32768 ..< 40960}"
    then show "a \<in> free_area (blocks hdr_ex)"
      by (intro free_areaI[of "blocks hdr_ex" 32768 "hdr_of 32768 8192 FREE_BLK"]) (simp_all add: blocks_ex hdr_of_free hdr_of_ext)
  qed
  then show ?thesis using GC_freehblk_correct[OF heap_ex_inv r] by (auto simp: hdr_of_ext) (auto simp: heap_ex_def)
qed

theorem GC_freehblk_errors_witness:
  "GC_freehblk heap_ex 32768 = Abort ''Duplicate large block deallocation''"
  using GC_freehblk_errors[OF heap_ex_inv, of 32768 "hdr_of 32768 8192 FREE_BLK"] by (simp add: blocks_ex hdr_of_free hdr_of_ext)

end
