(* ===== verification/Hblk_Merge.thy ===== *)
theory Hblk_Merge
  imports Hblk_Free
begin

text \<open>
  Merging and unmapping of free heap blocks in \<^verbatim>\<open>allchblk.c\<close>: \<open>GC_merge_unmapped\<close> coalesces all
  neighbouring free blocks, also those that differ in being mapped, \<open>GC_merge_free_blocks_for_alloc\<close>
  coalesces one chain of blocks that is large enough for a request, \<open>GC_unmap_old\<close> unmaps blocks
  that have been free for long.
\<close>

section \<open>Unmapping and merging\<close>

fun unmap_old_list :: "nat \<Rightarrow> heap_state \<Rightarrow> 16 word \<Rightarrow> nat \<Rightarrow> heap_state outcome" where
  "unmap_old_list 0 st threshold h = Stuck"
| "unmap_old_list (Suc fuel) st threshold h =
     (if h \<noteq> 0 then
        obind (GET_HDR st h) (\<lambda>hhdr.
          let r = hdr_at st hhdr;
              st = (if IS_MAPPED r \<and> of_nat (GC_gc_no (hs st)) - hb_last_reclaimed r \<ge> threshold
                    then upd_hdr hhdr (\<lambda>r. r\<lparr>hb_flags := hb_flags r OR WAS_UNMAPPED\<rparr>)
                           (os_call (GC_unmap h (hb_sz r)) st)
                    else st)
          in unmap_old_list fuel st threshold (hb_next (hdr_at st hhdr)))
      else Ret st)"

fun unmap_old_lists :: "heap_state \<Rightarrow> 16 word \<Rightarrow> nat list \<Rightarrow> heap_state outcome" where
  "unmap_old_lists st threshold [] = Ret st"
| "unmap_old_lists st threshold (i # is) =
     obind (unmap_old_list FL_FUEL st threshold (GC_hblkfreelist st i)) (\<lambda>st. unmap_old_lists st threshold is)"

definition GC_unmap_old :: "heap_state \<Rightarrow> nat \<Rightarrow> heap_state outcome" where
  "GC_unmap_old st threshold = unmap_old_lists st (of_nat threshold) [0 ..< N_HBLK_FLS + 1]"

text \<open>
  \<open>GC_merge_unmapped\<close>: when one of two neighbours is mapped and the other is not, the smaller one
  is unmapped or remapped. \<open>a\<close> and \<open>b\<close> are the addresses of the headers of \<open>h\<close> and \<open>next\<close>.
\<close>

definition make_consistent :: "heap_state \<Rightarrow> nat \<Rightarrow> nat \<Rightarrow> nat \<Rightarrow> nat \<Rightarrow> heap_state" where
  "make_consistent st h a next b =
     (let size = hb_sz (hdr_at st a); next_size = hb_sz (hdr_at st b)
      in if IS_MAPPED (hdr_at st a) \<and> \<not> IS_MAPPED (hdr_at st b) then
           if size > next_size then os_call (GC_remap next next_size) st
           else upd_hdr a (\<lambda>r. r\<lparr>hb_flags := hb_flags r OR WAS_UNMAPPED\<rparr>)
                  (os_call (GC_unmap_gap h size next next_size) (os_call (GC_unmap h size) st))
         else if IS_MAPPED (hdr_at st b) \<and> \<not> IS_MAPPED (hdr_at st a) then
           if size > next_size
           then os_call (GC_unmap_gap h size next next_size) (os_call (GC_unmap next next_size) st)
           else upd_hdr a (\<lambda>r. r\<lparr>hb_flags := hb_flags r AND NOT WAS_UNMAPPED,
                                 hb_last_reclaimed := hb_last_reclaimed (hdr_at st b)\<rparr>)
                  (os_call (GC_remap h size) st)
         else if \<not> IS_MAPPED (hdr_at st a) \<and> \<not> IS_MAPPED (hdr_at st b)
         then os_call (GC_unmap_gap h size next next_size) st
         else st)"

text \<open>
  With \<open>h\<close> off its list, \<open>next\<close> is taken off its list and becomes part of \<open>h\<close>, which is put on the list
  of its new size.
\<close>

definition join_next :: "heap_state \<Rightarrow> nat \<Rightarrow> nat \<Rightarrow> nat \<Rightarrow> nat \<Rightarrow> heap_state outcome" where
  "join_next st h hhdr next nexthdr =
     obind (GC_remove_from_fl st nexthdr) (\<lambda>st.
       let st = upd_hdr hhdr (\<lambda>r. r\<lparr>hb_sz := hb_sz r + hb_sz (hdr_at st nexthdr)\<rparr>) st
       in obind (on_hdrs st (\<lambda>s. GC_remove_header s next)) (\<lambda>st. GC_add_to_fl st h hhdr))"

text \<open>Every round moves on along the list or merges two blocks and starts over.\<close>

fun merge_unmapped_list :: "nat \<Rightarrow> heap_state \<Rightarrow> nat \<Rightarrow> nat \<Rightarrow> bool \<Rightarrow> (bool \<times> heap_state) outcome" where
  "merge_unmapped_list 0 st i h merged = Stuck"
| "merge_unmapped_list (Suc fuel) st i h merged =
     (if h \<noteq> 0 then
        obind (GET_HDR st h) (\<lambda>hhdr.
          let next = h + hb_sz (hdr_at st hhdr)
          in obind (GET_HDR st next) (\<lambda>nexthdr.
            if nexthdr = 0 \<or> \<not> HBLK_IS_FREE (hdr_at st nexthdr)
               \<or> BLOCKS_MERGE_OVERFLOW (hdr_at st hhdr) (hdr_at st nexthdr)
            then merge_unmapped_list fuel st i (hb_next (hdr_at st hhdr)) merged
            else
              let st = make_consistent st h hhdr next nexthdr
              in obind (GC_remove_from_fl_at st hhdr i) (\<lambda>st.
                obind (join_next st h hhdr next nexthdr) (\<lambda>st.
                  merge_unmapped_list fuel st i (GC_hblkfreelist st i) True))))
      else Ret (merged, st))"

definition MERGE_FUEL :: nat where "MERGE_FUEL = (2 ^ 52 + 1) * (2 ^ 52 + 1) + 1"

fun merge_unmapped_lists :: "heap_state \<Rightarrow> bool \<Rightarrow> nat list \<Rightarrow> (bool \<times> heap_state) outcome" where
  "merge_unmapped_lists st merged [] = Ret (merged, st)"
| "merge_unmapped_lists st merged (i # is) =
     obind (merge_unmapped_list MERGE_FUEL st i (GC_hblkfreelist st i) merged) (\<lambda>(merged, st).
       merge_unmapped_lists st merged is)"

definition GC_merge_unmapped :: "heap_state \<Rightarrow> (bool \<times> heap_state) outcome" where
  "GC_merge_unmapped st = merge_unmapped_lists st False [0 ..< N_HBLK_FLS + 1]"

text \<open>\<open>GC_merge_free_blocks_for_alloc\<close>, first the macro \<open>ALIGN_PAD_SZ\<close>.\<close>

definition ALIGN_PAD_SZ :: "nat \<Rightarrow> nat \<Rightarrow> nat" where
  "ALIGN_PAD_SZ p align_m1 = (align_m1 + 1 + (2 ^ 64 - p)) mod 2 ^ 64 AND align_m1"

fun merge_scan :: "nat \<Rightarrow> heap_state \<Rightarrow> nat \<Rightarrow> nat \<Rightarrow> nat \<Rightarrow> nat \<Rightarrow> nat \<Rightarrow> (nat \<times> nat) outcome" where
  "merge_scan 0 st hhdr next nexthdr total_size required_size = Stuck"
| "merge_scan (Suc fuel) st hhdr next nexthdr total_size required_size =
     (if nexthdr \<noteq> 0 \<and> HBLK_IS_FREE (hdr_at st nexthdr)
         \<and> \<not> BLOCKS_MERGE_OVERFLOW (hdr_at st hhdr) (hdr_at st nexthdr) then
        let total_size = total_size + hb_sz (hdr_at st nexthdr)
        in if total_size \<ge> required_size then Ret (nexthdr, total_size)
           else let next = next + hb_sz (hdr_at st nexthdr)
                in obind (GET_HDR st next) (\<lambda>nexthdr. merge_scan fuel st hhdr next nexthdr total_size required_size)
      else Ret (nexthdr, total_size))"

definition make_unmapped :: "heap_state \<Rightarrow> nat \<Rightarrow> nat \<Rightarrow> nat \<Rightarrow> nat \<Rightarrow> heap_state" where
  "make_unmapped st h a next b =
     (let size = hb_sz (hdr_at st a); next_size = hb_sz (hdr_at st b)
      in if IS_MAPPED (hdr_at st a) \<and> \<not> IS_MAPPED (hdr_at st b) then
           upd_hdr a (\<lambda>r. r\<lparr>hb_flags := hb_flags r OR WAS_UNMAPPED\<rparr>)
             (os_call (GC_unmap_gap h size next next_size) (os_call (GC_unmap h size) st))
         else if \<not> IS_MAPPED (hdr_at st a) \<and> IS_MAPPED (hdr_at st b) then
           os_call (GC_unmap_gap h size next next_size) (os_call (GC_unmap next next_size) st)
         else if \<not> IS_MAPPED (hdr_at st a) then os_call (GC_unmap_gap h size next next_size) st
         else st)"

fun merge_chain :: "nat \<Rightarrow> heap_state \<Rightarrow> nat \<Rightarrow> nat \<Rightarrow> nat \<Rightarrow> heap_state outcome" where
  "merge_chain 0 st h hhdr required_size = Stuck"
| "merge_chain (Suc fuel) st h hhdr required_size =
     (let next = h + hb_sz (hdr_at st hhdr)
      in obind (GET_HDR st next) (\<lambda>nexthdr.
        let st = make_unmapped st h hhdr next nexthdr
        in obind (GC_remove_from_fl st hhdr) (\<lambda>st.
          obind (join_next st h hhdr next nexthdr) (\<lambda>st.
            if hb_sz (hdr_at st hhdr) < required_size then merge_chain fuel st h hhdr required_size
            else Ret st))))"

fun merge_for_alloc_list :: "nat \<Rightarrow> heap_state \<Rightarrow> nat \<Rightarrow> nat \<Rightarrow> nat \<Rightarrow> (bool \<times> heap_state) outcome" where
  "merge_for_alloc_list 0 st size_needed align_m1 h = Stuck"
| "merge_for_alloc_list (Suc fuel) st size_needed align_m1 h =
     (if h \<noteq> 0 then
        let required_size = (size_needed + ALIGN_PAD_SZ h align_m1) mod 2 ^ 64
        in obind (GET_HDR st h) (\<lambda>hhdr.
          let total_size = hb_sz (hdr_at st hhdr)
          in if total_size \<ge> required_size
             then merge_for_alloc_list fuel st size_needed align_m1 (hb_next (hdr_at st hhdr))
             else
               let next = h + total_size
               in obind (GET_HDR st next) (\<lambda>nexthdr.
                 obind (merge_scan FL_FUEL st hhdr next nexthdr total_size required_size) (\<lambda>(nexthdr, total_size).
                   if nexthdr = 0 \<or> \<not> HBLK_IS_FREE (hdr_at st nexthdr) \<or> total_size < required_size
                   then merge_for_alloc_list fuel st size_needed align_m1 (hb_next (hdr_at st hhdr))
                   else obind (merge_chain FL_FUEL st h hhdr required_size) (\<lambda>st. Ret (True, st)))))
      else Ret (False, st))"

fun merge_for_alloc_lists :: "heap_state \<Rightarrow> nat \<Rightarrow> nat \<Rightarrow> nat list \<Rightarrow> (bool \<times> heap_state) outcome" where
  "merge_for_alloc_lists st size_needed align_m1 [] = Ret (False, st)"
| "merge_for_alloc_lists st size_needed align_m1 (i # is) =
     obind (merge_for_alloc_list FL_FUEL st size_needed align_m1 (GC_hblkfreelist st i)) (\<lambda>(merged, st).
       if merged then Ret (True, st) else merge_for_alloc_lists st size_needed align_m1 is)"

definition GC_merge_free_blocks_for_alloc :: "heap_state \<Rightarrow> nat \<Rightarrow> nat \<Rightarrow> (bool \<times> heap_state) outcome" where
  "GC_merge_free_blocks_for_alloc st size_needed align_m1 =
     merge_for_alloc_lists st size_needed align_m1 [0 ..< N_HBLK_FLS + 1]"

section \<open>Changes that do not move blocks\<close>

lemma os_call_simps [simp]:
  "bls (os_call c st) = bls st" "GC_hblkfreelist (os_call c st) = GC_hblkfreelist st"
  "GC_free_bytes (os_call c st) = GC_free_bytes st" "GC_large_free_bytes (os_call c st) = GC_large_free_bytes st"
  by (simp_all add: os_call_def)

lemma heap_inv_os_call [simp]: "heap_inv L (os_call c st) ls X W = heap_inv L st ls X W"
  by (simp add: heap_inv_def)

text \<open>A change of a header that keeps its links and what the partition depends on.\<close>

definition touch :: "(hdr \<Rightarrow> hdr) \<Rightarrow> hdr \<Rightarrow> bool" where
  "touch f r \<longleftrightarrow> shape (f r) = shape r \<and> links (f r) = links r"

lemma lists_ok_touch:
  assumes ok: "lists_ok F fl fb ls" and h: "F h = Some r" "touch f r"
  shows "lists_ok (F(h \<mapsto> f r)) fl fb ls"
proof -
  have "seg (F(h \<mapsto> f r)) 0 (fl i) (ls i) 0 = seg F 0 (fl i) (ls i) 0" for i
    using h by (intro seg_cong) (auto simp: touch_def)
  moreover have "list_bytes (F(h \<mapsto> f r)) (ls i) = list_bytes F (ls i)" for i
    using h by (intro list_bytes_cong) (auto simp: touch_def shape_def)
  ultimately show ?thesis using ok by (simp add: lists_ok_def)
qed

lemma inv_touch:
  assumes inv: "heap_inv L st ls X W" and h: "blocks (hs st) h = Some r" "touch f r"
  shows "heap_inv L (upd_hdr (HDR (hs st) h) f st) ls X W"
    "blocks (hs (upd_hdr (HDR (hs st) h) f st)) = (blocks (hs st))(h \<mapsto> f r)"
proof -
  note D = heap_invD[OF inv]
  note u = upd_hdr_ok[OF D(1) h(1) refl, of f]
  show B: "blocks (hs (upd_hdr (HDR (hs st) h) f st)) = (blocks (hs st))(h \<mapsto> f r)" by (rule u)
  have HDR: "HDR (hs (upd_hdr (HDR (hs st) h) f st)) = HDR (hs st)" by auto
  have fl: "GC_hblkfreelist (upd_hdr (HDR (hs st) h) f st) = GC_hblkfreelist st"
    "GC_free_bytes (upd_hdr (HDR (hs st) h) f st) = GC_free_bytes st"
    by (simp_all add: upd_hdr_def set_hs_def)
  have sh: "HBLK_IS_FREE (f r) = HBLK_IS_FREE r" "fl_class (f r) = fl_class r"
    using h(2) by (auto simp: touch_def shape_def)
  show "heap_inv L (upd_hdr (HDR (hs st) h) f st) ls X W"
    unfolding heap_inv_def inv_on_def B HDR fl
  proof (intro conjI allI impI)
    show "parts (HDR (hs st)) ((blocks (hs st))(h \<mapsto> f r))"
      by (rule parts_in_shape[OF same_shape_upd[of "blocks (hs st)" h, OF h(1)] D(2)]) (use h(2) in \<open>simp add: touch_def\<close>)
    show "lists_ok ((blocks (hs st))(h \<mapsto> f r)) (GC_hblkfreelist st) (GC_free_bytes st) ls"
      by (rule lists_ok_touch[OF D(3) h])
    show "\<exists>r'. ((blocks (hs st))(h \<mapsto> f r)) x = Some r' \<and> HBLK_IS_FREE r' \<and> (x \<in> W \<or> fl_class r' = i)"
      if "x \<in> set (ls i)" for x i
      using D(5)[OF that] h(1) sh by auto
    show "x \<in> X \<or> x \<in> listed ls" if "((blocks (hs st))(h \<mapsto> f r)) x = Some rx" "HBLK_IS_FREE rx" for x rx
      using that D(6)[of x] h(1) sh(1) by (auto split: if_splits)
  qed (use u D(4) in auto)
qed

lemma bit_WAS_UNMAPPED: "bit WAS_UNMAPPED n \<longleftrightarrow> n = 1"
  using bit_exp_iff[of 1 n, where ?'a="8 word"] by (auto simp: WAS_UNMAPPED_def)

lemma touch_flags:
  "touch (\<lambda>r. r\<lparr>hb_flags := hb_flags r OR WAS_UNMAPPED\<rparr>) r"
  "touch (\<lambda>r. r\<lparr>hb_flags := hb_flags r AND NOT WAS_UNMAPPED\<rparr>) r"
  "touch (\<lambda>r. r\<lparr>hb_flags := hb_flags r AND NOT WAS_UNMAPPED, hb_last_reclaimed := w\<rparr>) r"
  by (simp_all add: touch_def shape_def links_def free_flag_iff bit_simps bit_WAS_UNMAPPED)

text \<open>Like \<^const>\<open>frame\<close>, with the calls of the operating system layer left open.\<close>

definition frame_os :: "heap_state \<Rightarrow> heap_state \<Rightarrow> bool" where
  "frame_os st st' \<longleftrightarrow> (\<exists>c. frame (st\<lparr>os_calls := c\<rparr>) st')"

lemma frame_osI: "frame st st' \<Longrightarrow> frame_os st st'"
  unfolding frame_os_def by (intro exI[of _ "os_calls st"]) simp

lemma frame_os_refl [simp]: "frame_os st st"
  by (simp add: frame_osI)

lemma frame_os_trans: "frame_os a b \<Longrightarrow> frame_os b c \<Longrightarrow> frame_os a c"
proof -
  assume "frame_os a b" "frame_os b c"
  then obtain x y where x: "frame (a\<lparr>os_calls := x\<rparr>) b" and y: "frame (b\<lparr>os_calls := y\<rparr>) c"
    by (auto simp: frame_os_def)
  obtain s fl fb where "GC_gc_no s = GC_gc_no (hs a)"
    "b = a\<lparr>os_calls := x, bls := (bls a)\<lparr>bl_hdrs := s\<rparr>, GC_hblkfreelist := fl, GC_free_bytes := fb\<rparr>"
    using x by (auto simp: frame_def)
  note s = this
  have eq: "b\<lparr>os_calls := y\<rparr> = a\<lparr>os_calls := y, bls := (bls (a\<lparr>os_calls := y\<rparr>))\<lparr>bl_hdrs := s\<rparr>, GC_hblkfreelist := fl, GC_free_bytes := fb\<rparr>"
    unfolding s(2) by (cases a) simp
  have "frame (a\<lparr>os_calls := y\<rparr>) (b\<lparr>os_calls := y\<rparr>)"
    unfolding eq by (rule frameI) (simp add: s(1))
  then have "frame (a\<lparr>os_calls := y\<rparr>) c" using y frame_trans by blast
  then show "frame_os a c" unfolding frame_os_def by blast
qed

lemma frame_os_call: "frame_os st (os_call c st)"
  unfolding frame_os_def by (rule exI[of _ "c # os_calls st"]) (simp add: os_call_def)

lemma frame_osD:
  assumes "frame_os st st'"
  shows "GC_large_free_bytes st' = GC_large_free_bytes st" "GC_gc_no (hs st') = GC_gc_no (hs st)"
    "bls st' = (bls st)\<lparr>bl_hdrs := hs st'\<rparr>"
  using assms by (auto simp: frame_os_def frame_def)

text \<open>
  What the functions that bring two neighbours to the same state do: calls of the operating system
  layer and changes of flags of the first block.
\<close>

definition adjusted ::
    "nat \<Rightarrow> heap_state \<Rightarrow> (nat \<Rightarrow> nat list) \<Rightarrow> nat set \<Rightarrow> nat set \<Rightarrow> nat \<Rightarrow> heap_state \<Rightarrow> bool" where
  "adjusted L st ls X W h st' \<longleftrightarrow> heap_inv L st' ls X W \<and> HDR (hs st') = HDR (hs st) \<and> frame_os st st'
     \<and> os_mem (hs st') = os_mem (hs st) \<and> GC_hblkfreelist st' = GC_hblkfreelist st \<and> GC_free_bytes st' = GC_free_bytes st
     \<and> (\<exists>r r'. blocks (hs st) h = Some r \<and> shape r' = shape r \<and> links r' = links r \<and> blocks (hs st') = (blocks (hs st))(h \<mapsto> r'))"

lemma adjusted_refl: "heap_inv L st ls X W \<Longrightarrow> blocks (hs st) h = Some r \<Longrightarrow> adjusted L st ls X W h st"
  unfolding adjusted_def by (auto intro!: exI[of _ r])

lemma adjusted_call: "adjusted L st ls X W h s \<Longrightarrow> adjusted L st ls X W h (os_call c s)"
  unfolding adjusted_def using frame_os_trans[OF _ frame_os_call] by auto

lemma adjusted_upd:
  assumes adj: "adjusted L st ls X W h s" and f: "\<And>r. touch f r"
  shows "adjusted L st ls X W h (upd_hdr (HDR (hs st) h) f s)"
proof -
  obtain r r' where r: "blocks (hs st) h = Some r" "shape r' = shape r" "links r' = links r"
    "blocks (hs s) = (blocks (hs st))(h \<mapsto> r')" and inv: "heap_inv L s ls X W" and HDR: "HDR (hs s) = HDR (hs st)"
    and rest: "frame_os st s" "os_mem (hs s) = os_mem (hs st)" "GC_hblkfreelist s = GC_hblkfreelist st"
      "GC_free_bytes s = GC_free_bytes st"
    using adj unfolding adjusted_def by blast
  note t = inv_touch[OF inv _ f, of h r', unfolded HDR]
  have "frame_os st (upd_hdr (HDR (hs st) h) f s)"
    by (rule frame_os_trans[OF rest(1) frame_osI[OF frame_upd_hdr]])
  moreover have "GC_hblkfreelist (upd_hdr (HDR (hs st) h) f s) = GC_hblkfreelist st"
    "GC_free_bytes (upd_hdr (HDR (hs st) h) f s) = GC_free_bytes st"
    using rest by (simp_all add: upd_hdr_def set_hs_def)
  moreover have "shape (f r') = shape r" "links (f r') = links r" using f[of r'] r by (simp_all add: touch_def)
  ultimately show ?thesis
    unfolding adjusted_def using t r HDR rest by (intro conjI exI[of _ r] exI[of _ "f r'"]) auto
qed

lemma make_consistent_adjusted:
  "heap_inv L st ls X W \<Longrightarrow> blocks (hs st) h = Some r \<Longrightarrow> adjusted L st ls X W h (make_consistent st h (HDR (hs st) h) n b)"
  unfolding make_consistent_def Let_def
  by (simp add: adjusted_refl adjusted_call adjusted_upd touch_flags)

lemma make_unmapped_adjusted:
  "heap_inv L st ls X W \<Longrightarrow> blocks (hs st) h = Some r \<Longrightarrow> adjusted L st ls X W h (make_unmapped st h (HDR (hs st) h) n b)"
  unfolding make_unmapped_def Let_def
  by (simp add: adjusted_refl adjusted_call adjusted_upd touch_flags)

section \<open>Merging two blocks\<close>

lemma join_next_ok:
  assumes inv: "heap_inv L st ls {h} {}" and h: "blocks (hs st) h = Some r" "HBLK_IS_FREE r"
    and n: "blocks (hs st) (h + ext r) = Some rn" "HBLK_IS_FREE rn"
  defines "r' \<equiv> r\<lparr>hb_sz := ext r + ext rn\<rparr>"
  obtains st' ls' where "join_next st h (HDR (hs st) h) (h + ext r) (HDR (hs st) (h + ext r)) = Ret st'"
    "heap_inv L st' ls' {} {}" "frame st st'" "os_mem (hs st') = os_mem (hs st)" "HDR (hs st') h = HDR (hs st) h"
    "keeps_used (blocks (hs st)) (blocks (hs st'))" "free_area (blocks (hs st')) = free_area (blocks (hs st))"
    "fl_total st' = fl_total st + of_nat (ext r)"
    "same_core ((blocks (hs st))(h \<mapsto> r', h + ext r := None)) (blocks (hs st'))"
    "\<And>i x. x \<in> set (ls' i) \<Longrightarrow> x \<noteq> h + ext r \<and> (x \<in> set (ls i) \<or> x = h \<and> i = fl_class r')"
    "listed ls' = insert h (listed ls - {h + ext r})"
proof -
  note D = heap_invD[OF inv]
  define n where "n = h + ext r"
  have ok: "blk_ok h r" by (rule parts_blk_ok(1)[OF D(2,1) h(1)])
  then have hn: "h \<noteq> n" by (auto simp: n_def blk_ok_def)
  have rn: "blocks (hs st) n = Some rn" using n by (simp add: n_def)
  obtain st1 ls1 where st1: "GC_remove_from_fl st (HDR (hs st) n) = Ret st1" "heap_inv L st1 ls1 {n, h} {}"
    "HDR (hs st1) = HDR (hs st)" "frame st st1" "same_core (blocks (hs st)) (blocks (hs st1))"
    "\<And>x. x = n \<or> x \<in> {h} \<Longrightarrow> blocks (hs st1) x = blocks (hs st) x" "os_mem (hs st1) = os_mem (hs st)"
    "keeps_used (blocks (hs st)) (blocks (hs st1))" "free_area (blocks (hs st1)) = free_area (blocks (hs st))"
    "fl_total st1 = fl_total st - of_nat (ext rn)" "listed ls1 = listed ls - {n}"
    "n \<in> set (ls (fl_class rn))" "ls1 = ls(fl_class rn := remove1 n (ls (fl_class rn)))"
    by (rule unlist[OF inv rn n(2)]) (use hn that in auto)
  have b1: "blocks (hs st1) h = Some r" "blocks (hs st1) n = Some rn" using st1(6) h rn by simp_all
  define f :: "hdr \<Rightarrow> hdr" where "f = (\<lambda>r. r\<lparr>hb_sz := hb_sz r + hb_sz rn\<rparr>)"
  have sz: "hb_sz r = ext r" "hb_sz rn = ext rn" using h(2) n(2) by (simp_all add: ext_def)
  then have fr: "f r = r'" by (simp add: f_def r'_def)
  have r': "HBLK_IS_FREE r'" "hb_sz r' = ext r + ext rn" "ext r' = ext r + ext rn"
    using h(2) by (simp_all add: r'_def ext_free)
  obtain st2 where st2: "on_hdrs (upd_hdr (HDR (hs st1) h) f st1) (\<lambda>s. GC_remove_header s n) = Ret st2"
    "heap_inv L st2 ls1 ({n, h} - {n}) {}" "blocks (hs st2) = (blocks (hs st1))(h \<mapsto> f r, n := None)" "frame st1 st2"
    "GC_hblkfreelist st2 = GC_hblkfreelist st1" "GC_free_bytes st2 = GC_free_bytes st1" "os_mem (hs st2) = os_mem (hs st1)"
    "HDR (hs st2) h = HDR (hs st1) h" "keeps_used (blocks (hs st1)) (blocks (hs st2))"
    "free_area (blocks (hs st2)) = free_area (blocks (hs st1))"
    by (rule inv_absorb[OF st1(2) b1(1) _ n_def b1(2) _ h(2), of f])
      (use n h ok sz that in \<open>simp_all add: f_def blk_ok_def\<close>)
  have inv2: "heap_inv L st2 ls1 {h} {}" using st2(2) hn by (simp add: insert_Diff_if)
  have b2: "blocks (hs st2) h = Some r'" using st2(3) hn fr by simp
  have same: "(blocks (hs st2))(h \<mapsto> r'\<lparr>hb_flags := hb_flags r' OR FREE_BLK\<rparr>) = blocks (hs st2)"
    using b2 free_again[OF r'(1)] by auto
  note D2 = heap_invD[OF inv2]
  obtain st3 where st3: "GC_add_to_fl st2 h (HDR (hs st2) h) = Ret st3"
    "heap_inv L st3 (ls1(fl_class r' := h # ls1 (fl_class r'))) ({h} - {h}) {}" "HDR (hs st3) = HDR (hs st2)" "frame st2 st3"
    "same_core ((blocks (hs st2))(h \<mapsto> r'\<lparr>hb_flags := hb_flags r' OR FREE_BLK\<rparr>)) (blocks (hs st3))"
    "\<And>x. x \<noteq> h \<Longrightarrow> x \<notin> listed ls1 \<Longrightarrow> blocks (hs st3) x = blocks (hs st2) x" "os_mem (hs st3) = os_mem (hs st2)"
    "GC_free_bytes st3 = (GC_free_bytes st2)(fl_class r' := GC_free_bytes st2 (fl_class r') + of_nat (hb_sz r'))"
    by (rule inv_add[OF D2(1) b2, of "{h}" ls1 "{}"])
      (use inv2 that in \<open>simp_all only: same, simp_all add: heap_inv_def\<close>)
  have core3: "same_core (blocks (hs st2)) (blocks (hs st3))" using st3(5) same by simp
  have run: "join_next st h (HDR (hs st) h) n (HDR (hs st) n) = Ret st3"
  proof -
    have "hdr_at st1 (HDR (hs st) n) = rn" using b1(2) st1(3) by (simp add: blocks_Some)
    then show ?thesis using st1(1,3) st2(1,8) st3(1) by (simp add: join_next_def Let_def f_def)
  qed
  have used3: "keeps_used (blocks (hs st2)) (blocks (hs st3))"
  proof (unfold keeps_used_def, intro allI impI)
    fix x rx assume x: "blocks (hs st2) x = Some rx" "\<not> HBLK_IS_FREE rx"
    have "x \<notin> listed ls1"
      using inv_on_listed[of _ "blocks (hs st2)" _ _ ls1 "{h}" "{}" x] inv2 x by (auto simp: heap_inv_def)
    moreover have "x \<noteq> h" using b2 r'(1) x by auto
    ultimately show "blocks (hs st3) x = Some rx" using st3(6) x(1) by simp
  qed
  have core: "same_core ((blocks (hs st))(h \<mapsto> r', n := None)) (blocks (hs st3))"
  proof (rule same_core_trans[OF _ core3])
    show "same_core ((blocks (hs st))(h \<mapsto> r', n := None)) (blocks (hs st2))"
      using st1(5) fr by (simp add: st2(3) same_core_def)
  qed
  have total: "fl_total st3 = fl_total st + of_nat (ext r)"
  proof -
    have "fl_total st3 = fl_total st2 + of_nat (hb_sz r')"
      unfolding fl_total_def st3(8) by (subst sum_upd[OF GC_hblk_fl_from_blocks_le]) simp
    moreover have "fl_total st2 = fl_total st1" by (simp add: fl_total_def st2(6))
    ultimately show ?thesis using st1(10) r'(2) by simp
  qed
  have lists: "x \<noteq> n \<and> (x \<in> set (ls i) \<or> x = h \<and> i = fl_class r')"
    if x: "x \<in> set ((ls1(fl_class r' := h # ls1 (fl_class r'))) i)" for x i
  proof -
    have "x \<in> set (ls1 i) \<or> x = h \<and> i = fl_class r'" using x by (auto split: if_splits)
    moreover have "x \<in> set (ls i) \<and> x \<noteq> n" if "x \<in> set (ls1 i)"
      using that st1(11,13) listedI[of x ls1 i] notin_set_remove1[of x "ls (fl_class rn)" n] by (auto split: if_splits)
    ultimately show ?thesis using hn by auto
  qed
  show thesis
  proof (rule that[of st3])
    show "join_next st h (HDR (hs st) h) (h + ext r) (HDR (hs st) (h + ext r)) = Ret st3" using run by (simp add: n_def)
    show "heap_inv L st3 (ls1(fl_class r' := h # ls1 (fl_class r'))) {} {}" using st3(2) by simp
    show "frame st st3" using frame_trans[OF frame_trans[OF st1(4) st2(4)] st3(4)] .
    show "keeps_used (blocks (hs st)) (blocks (hs st3))"
      using keeps_used_trans[OF keeps_used_trans[OF st1(8) st2(9)] used3] .
    show "free_area (blocks (hs st3)) = free_area (blocks (hs st))"
      using free_area_core[OF core3] st2(10) st1(9) by simp
    show "listed (ls1(fl_class r' := h # ls1 (fl_class r'))) = insert h (listed ls - {h + ext r})"
      using listed_upd(2)[OF D2(3)] st1(11) by (simp add: n_def)
    show "os_mem (hs st3) = os_mem (hs st)" using st1(7) st2(7) st3(7) by simp
    show "HDR (hs st3) h = HDR (hs st) h" using st1(3) st2(8) st3(3) by simp
    show "same_core ((blocks (hs st))(h \<mapsto> r', h + ext r := None)) (blocks (hs st3))" using core by (simp only: n_def)
    show "x \<noteq> h + ext r \<and> (x \<in> set (ls i) \<or> x = h \<and> i = fl_class r')"
      if "x \<in> set ((ls1(fl_class r' := h # ls1 (fl_class r'))) i)" for i x
      unfolding n_def[symmetric] by (rule lists[OF that])
  qed (rule total)
qed

text \<open>What merging keeps.\<close>

definition merges :: "heap_state \<Rightarrow> heap_state \<Rightarrow> bool" where
  "merges st st' \<longleftrightarrow> frame_os st st' \<and> keeps_used (blocks (hs st)) (blocks (hs st'))
     \<and> free_area (blocks (hs st')) = free_area (blocks (hs st)) \<and> fl_total st' = fl_total st
     \<and> os_mem (hs st') = os_mem (hs st)"

lemma merges_refl [simp]: "merges st st"
  by (simp add: merges_def keeps_used_def)

lemma merges_trans: "merges a b \<Longrightarrow> merges b c \<Longrightarrow> merges a c"
  unfolding merges_def using frame_os_trans keeps_used_trans by auto

lemma free_area_shape: "same_shape F G \<Longrightarrow> free_area F = free_area G"
proof -
  have "free_area F \<subseteq> free_area G" if "same_shape F G" for F G
  proof
    fix a assume "a \<in> free_area F"
    then obtain h r where h: "F h = Some r" "HBLK_IS_FREE r" "h \<le> a" "a < h + ext r" by (auto simp: free_area_def)
    obtain r' where "G h = Some r'" "shape r' = shape r" by (rule same_shape_Some[OF \<open>same_shape F G\<close> h(1)])
    then show "a \<in> free_area G" using h shape_ext[of r' r h] by (intro free_areaI[of G h r']) auto
  qed
  then show "same_shape F G \<Longrightarrow> free_area F = free_area G" using same_shape_sym by blast
qed

lemma same_shape_trans: "same_shape F G \<Longrightarrow> same_shape G H \<Longrightarrow> same_shape F H"
  by (simp add: same_shape_def)

lemma shape_class: "shape r = shape r' \<Longrightarrow> fl_class r = fl_class r'"
  by (simp add: shape_def)

lemma merge_pair:
  assumes inv: "heap_inv L st ls {} {}" and h: "blocks (hs st) h = Some r" "HBLK_IS_FREE r"
    and n: "blocks (hs st) (h + ext r) = Some rn" "HBLK_IS_FREE rn" and adj: "adjusted L st ls {} {} h st0"
  defines "r' \<equiv> r\<lparr>hb_sz := ext r + ext rn\<rparr>"
  obtains st1 st' ls' where "GC_remove_from_fl_at st0 (HDR (hs st) h) (fl_class r) = Ret st1"
    "GC_remove_from_fl st0 (HDR (hs st) h) = Ret st1"
    "join_next st1 h (HDR (hs st) h) (h + ext r) (HDR (hs st) (h + ext r)) = Ret st'"
    "heap_inv L st' ls' {} {}" "merges st st'" "HDR (hs st') h = HDR (hs st) h"
    "same_shape ((blocks (hs st))(h \<mapsto> r', h + ext r := None)) (blocks (hs st'))"
    "\<And>i x. x \<in> set (ls' i) \<Longrightarrow> x \<noteq> h + ext r \<and> (x \<noteq> h \<and> x \<in> set (ls i) \<or> x = h \<and> i = fl_class r')"
    "listed ls' = listed ls - {h + ext r}" "h \<in> listed ls" "h + ext r \<in> listed ls"
proof -
  note D = heap_invD[OF inv]
  have hn: "h \<noteq> h + ext r" using parts_blk_ok(1)[OF D(2,1) h(1)] by (auto simp: blk_ok_def)
  obtain r0 where a: "heap_inv L st0 ls {} {}" "HDR (hs st0) = HDR (hs st)" "frame_os st st0" "os_mem (hs st0) = os_mem (hs st)"
    "GC_free_bytes st0 = GC_free_bytes st" "shape r0 = shape r" "blocks (hs st0) = (blocks (hs st))(h \<mapsto> r0)"
    using adj h(1) unfolding adjusted_def by auto
  have sh0: "ext r0 = ext r" "HBLK_IS_FREE r0" "fl_class r0 = fl_class r"
    using shape_ext[OF a(6)] shape_class[OF a(6)] h(2) by auto
  have b0: "blocks (hs st0) h = Some r0" "blocks (hs st0) (h + ext r) = Some rn" using a(7) n(1) hn by auto
  have shape0: "same_shape (blocks (hs st)) (blocks (hs st0))"
    unfolding a(7) by (rule same_shape_upd[of "blocks (hs st)" h, OF h(1) a(6)])
  have used0: "keeps_used (blocks (hs st)) (blocks (hs st0))" unfolding a(7) by (rule keeps_used_upd[of "blocks (hs st)" h, OF h])
  obtain st1 ls1 where st1: "GC_remove_from_fl st0 (HDR (hs st0) h) = Ret st1" "heap_inv L st1 ls1 {h} {}"
    "HDR (hs st1) = HDR (hs st0)" "frame st0 st1" "same_core (blocks (hs st0)) (blocks (hs st1))"
    "\<And>x. x = h \<or> x \<in> {} \<Longrightarrow> blocks (hs st1) x = blocks (hs st0) x" "os_mem (hs st1) = os_mem (hs st0)"
    "keeps_used (blocks (hs st0)) (blocks (hs st1))" "free_area (blocks (hs st1)) = free_area (blocks (hs st0))"
    "fl_total st1 = fl_total st0 - of_nat (ext r0)" "listed ls1 = listed ls - {h}"
    "h \<in> set (ls (fl_class r0))" "ls1 = ls(fl_class r0 := remove1 h (ls (fl_class r0)))"
    by (rule unlist[OF a(1) b0(1) sh0(2)]) (use that in auto)
  have at: "GC_remove_from_fl_at st0 (HDR (hs st) h) (fl_class r) = Ret st1"
    using st1(1) b0(1) a(2) sh0(3) by (simp add: GC_remove_from_fl_def blocks_Some)
  obtain rn1 where rn1: "blocks (hs st1) (h + ext r) = Some rn1" "core rn1 = core rn"
    by (rule same_core_Some[OF st1(5) b0(2)])
  have rn1': "HBLK_IS_FREE rn1" "ext rn1 = ext rn" using ext_core[OF rn1(2)] n(2) by auto
  have b1: "blocks (hs st1) h = Some r0" using st1(6) b0(1) by simp
  obtain st' ls' where st': "join_next st1 h (HDR (hs st1) h) (h + ext r0) (HDR (hs st1) (h + ext r0)) = Ret st'"
    "heap_inv L st' ls' {} {}" "frame st1 st'" "os_mem (hs st') = os_mem (hs st1)" "HDR (hs st') h = HDR (hs st1) h"
    "keeps_used (blocks (hs st1)) (blocks (hs st'))" "free_area (blocks (hs st')) = free_area (blocks (hs st1))"
    "fl_total st' = fl_total st1 + of_nat (ext r0)"
    "same_core ((blocks (hs st1))(h \<mapsto> r0\<lparr>hb_sz := ext r0 + ext rn1\<rparr>, h + ext r0 := None)) (blocks (hs st'))"
    "\<And>i x. x \<in> set (ls' i) \<Longrightarrow> x \<noteq> h + ext r0 \<and> (x \<in> set (ls1 i) \<or> x = h \<and> i = fl_class (r0\<lparr>hb_sz := ext r0 + ext rn1\<rparr>))"
    "listed ls' = insert h (listed ls1 - {h + ext r0})"
    by (rule join_next_ok[OF st1(2) b1 sh0(2), of rn1]) (use rn1(1) rn1'(1) sh0(1) that in simp_all)
  have hl: "h \<in> listed ls" by (rule listedI[of h ls, OF st1(12)])
  have nl: "h + ext r \<in> listed ls" using D(6)[OF n] by simp
  have shape': "same_shape ((blocks (hs st))(h \<mapsto> r', h + ext r := None)) (blocks (hs st'))"
  proof (rule same_shape_trans)
    show "same_shape ((blocks (hs st))(h \<mapsto> r', h + ext r := None))
       ((blocks (hs st1))(h \<mapsto> r0\<lparr>hb_sz := ext r0 + ext rn1\<rparr>, h + ext r0 := None))"
      using same_core_shape[OF st1(5)] shape0 sh0(1) rn1'(2) a(6) h(2) sh0(2) unfolding same_shape_def
      by (auto simp: r'_def shape_def)
    show "same_shape ((blocks (hs st1))(h \<mapsto> r0\<lparr>hb_sz := ext r0 + ext rn1\<rparr>, h + ext r0 := None)) (blocks (hs st'))"
      by (rule same_core_shape[OF st'(9)])
  qed
  show thesis
  proof (rule that[OF at])
    show "GC_remove_from_fl st0 (HDR (hs st) h) = Ret st1" using st1(1) a(2) by simp
    show "join_next st1 h (HDR (hs st) h) (h + ext r) (HDR (hs st) (h + ext r)) = Ret st'"
      using st'(1) st1(3) a(2) sh0(1) by simp
    show "heap_inv L st' ls' {} {}" by (rule st'(2))
    show "merges st st'"
      unfolding merges_def
    proof (intro conjI)
      show "frame_os st st'" using frame_os_trans[OF a(3) frame_os_trans[OF frame_osI[OF st1(4)] frame_osI[OF st'(3)]]] .
      show "keeps_used (blocks (hs st)) (blocks (hs st'))"
        using keeps_used_trans[OF used0 keeps_used_trans[OF st1(8) st'(6)]] .
      show "free_area (blocks (hs st')) = free_area (blocks (hs st))"
        using st'(7) st1(9) free_area_shape[OF shape0] by simp
      show "fl_total st' = fl_total st" using st'(8) st1(10) a(5) by (simp add: fl_total_def)
      show "os_mem (hs st') = os_mem (hs st)" using st'(4) st1(7) a(4) by simp
    qed
    show "HDR (hs st') h = HDR (hs st) h" using st'(5) st1(3) a(2) by simp
    show "x \<noteq> h + ext r \<and> (x \<noteq> h \<and> x \<in> set (ls i) \<or> x = h \<and> i = fl_class r')" if x: "x \<in> set (ls' i)" for i x
    proof -
      have "x \<in> set (ls i) \<and> x \<noteq> h" if "x \<in> set (ls1 i)"
        using that st1(11,13) listedI[of x ls1 i] notin_set_remove1[of x "ls (fl_class r0)" h] by (auto split: if_splits)
      then show ?thesis using st'(10)[OF x] sh0(1) rn1'(2) by (auto simp: r'_def)
    qed
    show "listed ls' = listed ls - {h + ext r}" using st'(11) st1(11) hl hn sh0(1) by auto
  qed (use shape' hl nl in simp_all)
qed

section \<open>The merging loops\<close>

lemma GC_hblk_fl_from_blocks_mono:
  assumes "a \<le> b"
  shows "GC_hblk_fl_from_blocks a \<le> GC_hblk_fl_from_blocks b"
proof -
  have "(a - 32) div 8 \<le> (b - 32) div 8" using assms by (intro div_le_mono) simp
  then show ?thesis using assms by (auto simp: GC_hblk_fl_from_blocks_def gc_consts)
qed

text \<open>The blocks of \<open>S\<close> have no successor they could be merged with.\<close>

definition settled :: "(nat \<Rightarrow> hdr option) \<Rightarrow> nat set \<Rightarrow> bool" where
  "settled F S \<longleftrightarrow> (\<forall>h \<in> S. \<forall>r rn. F h = Some r \<longrightarrow> F (h + ext r) = Some rn \<longrightarrow> HBLK_IS_FREE rn \<longrightarrow> 2 ^ 63 \<le> ext r + ext rn)"

lemma settled_merge:
  assumes S: "settled F S" "h \<notin> S" "h + ext r \<notin> S" and h: "F h = Some r" "HBLK_IS_FREE r"
    and r': "ext r \<le> ext r'" and shape: "same_shape (F(h \<mapsto> r', h + ext r := None)) G"
  shows "settled G S"
  unfolding settled_def
proof (intro ballI allI impI)
  fix y ry rz assume y: "y \<in> S" "G y = Some ry" "G (y + ext ry) = Some rz" "HBLK_IS_FREE rz"
  note pre = same_shape_Some[OF same_shape_sym[OF shape]]
  obtain ry' where ry': "(F(h \<mapsto> r', h + ext r := None)) y = Some ry'" "shape ry' = shape ry" by (rule pre[OF y(2)])
  obtain rz' where rz': "(F(h \<mapsto> r', h + ext r := None)) (y + ext ry) = Some rz'" "shape rz' = shape rz" by (rule pre[OF y(3)])
  have e: "ext ry' = ext ry" "ext rz' = ext rz" "HBLK_IS_FREE rz'" using shape_ext[OF ry'(2)] shape_ext[OF rz'(2)] y(4) by auto
  have "F y = Some ry'" using ry'(1) S(2,3) y(1) by (auto split: if_splits)
  moreover have "F (y + ext ry') = Some rz' \<or> y + ext ry' = h \<and> rz' = r'" using rz'(1) e(1) by (auto split: if_splits)
  ultimately show "2 ^ 63 \<le> ext ry + ext rz"
    using S(1) y(1) e h r' unfolding settled_def by fastforce
qed

lemma finite_blocks: "finite {x. BLK dvd x \<and> x < 2 ^ 64}" "card {x. BLK dvd x \<and> x < 2 ^ 64} = 2 ^ 52"
proof -
  define M :: nat where "M = 2 ^ 52"
  have M: "M * BLK = 2 ^ 64" by (simp add: M_def BLK_def)
  have "{x. BLK dvd x \<and> x < M * BLK} = (\<lambda>k. k * BLK) ` {..< M}"
  proof (intro set_eqI iffI)
    fix x assume x: "x \<in> {x. BLK dvd x \<and> x < M * BLK}"
    then have "x = x div BLK * BLK" by simp
    moreover have "x div BLK < M" using x by (simp add: less_mult_imp_div_less)
    ultimately show "x \<in> (\<lambda>k. k * BLK) ` {..< M}" by blast
  next
    fix x assume "x \<in> (\<lambda>k. k * BLK) ` {..< M}"
    then obtain k where "x = k * BLK" "k < M" by blast
    then show "x \<in> {x. BLK dvd x \<and> x < M * BLK}" by (simp add: BLK_def)
  qed
  moreover have "inj_on (\<lambda>k. k * BLK) {..< M}" by (auto simp: inj_on_def BLK_def)
  ultimately show "finite {x. BLK dvd x \<and> x < 2 ^ 64}" "card {x. BLK dvd x \<and> x < 2 ^ 64} = 2 ^ 52"
    unfolding M[symmetric] M_def[symmetric] by (simp_all only: card_image finite_imageI finite_lessThan card_lessThan)
qed

lemma heap_inv_lengths:
  assumes inv: "heap_inv L st ls X W"
  shows "finite (listed ls)" "card (listed ls) \<le> 2 ^ 52" "length (ls i) \<le> 2 ^ 52"
proof -
  have sub: "listed ls \<subseteq> {x. BLK dvd x \<and> x < 2 ^ 64}"
    using heap_invD(1,5)[OF inv] blocks_below by (fastforce simp: listed_def blocks_Some)
  then show "finite (listed ls)" using finite_blocks(1) finite_subset by blast
  show "card (listed ls) \<le> 2 ^ 52" using card_mono[OF finite_blocks(1) sub] finite_blocks(2) by simp
  have "distinct (ls i)" using heap_invD(3)[OF inv] by (simp add: lists_ok_def)
  then have "length (ls i) = card (set (ls i))" by (simp add: distinct_card)
  also have "\<dots> \<le> card {x. BLK dvd x \<and> x < 2 ^ 64}"
    using sub by (intro card_mono[OF finite_blocks(1)]) (auto simp: listed_def)
  finally show "length (ls i) \<le> 2 ^ 52" using finite_blocks(2) by simp
qed

lemma list_next:
  assumes inv: "heap_inv L st ls X W" and ls: "ls i = as @ h # bs" and h: "blocks (hs st) h = Some r"
  shows "hb_next r = (if bs = [] then 0 else hd bs)" "h \<noteq> 0"
proof -
  note D = heap_invD[OF inv]
  have "h \<in> set (ls i)" using ls by simp
  then have i: "i \<le> N_HBLK_FLS" by (rule listed_le[OF D(3)])
  then have "seg (blocks (hs st)) 0 (GC_hblkfreelist st i) (as @ h # bs) 0" "distinct (as @ h # bs)"
    using D(3) ls unfolding lists_ok_def by metis+
  then show "hb_next r = (if bs = [] then 0 else hd bs)" "h \<noteq> 0"
    using seg_remove(2)[of "blocks (hs st)", OF _ _ h] seg_nonzero by fastforce+
qed

lemma free_listed:
  assumes inv: "heap_inv L st ls {} {}" and h: "blocks (hs st) h = Some r" "HBLK_IS_FREE r"
  shows "\<exists>j \<in> set [0 ..< N_HBLK_FLS + 1]. h \<in> set (ls j)"
proof -
  obtain j where j: "h \<in> set (ls j)" using heap_invD(6)[OF inv h] by (auto simp: listed_def)
  then have "j \<le> N_HBLK_FLS" by (rule listed_le[OF heap_invD(3)[OF inv]])
  then have "j \<in> set [0 ..< N_HBLK_FLS + 1]" by auto
  then show ?thesis using j by blast
qed

lemma list_head:
  assumes "heap_inv L st ls X W" "i \<le> N_HBLK_FLS"
  shows "GC_hblkfreelist st i = (if ls i = [] then 0 else hd (ls i))"
proof -
  have "seg (blocks (hs st)) 0 (GC_hblkfreelist st i) (ls i) 0"
    using heap_invD(3)[OF assms(1)] assms(2) by (simp add: lists_ok_def)
  then show ?thesis by (cases "ls i") auto
qed

lemma merge_unmapped_list_ok:
  assumes "heap_inv L st ls {} {}" "i \<le> N_HBLK_FLS" "ls i = as @ rest" "h = (if rest = [] then 0 else hd rest)"
    "settled (blocks (hs st)) ((\<Union>j < i. set (ls j)) \<union> set as)" "card (listed ls) * (2 ^ 52 + 1) + length rest < fuel"
  shows "\<exists>m st' ls'. merge_unmapped_list fuel st i h merged = Ret (m, st') \<and> heap_inv L st' ls' {} {}
    \<and> settled (blocks (hs st')) (\<Union>j \<le> i. set (ls' j)) \<and> merges st st' \<and> (merged \<longrightarrow> m) \<and> (\<not> m \<longrightarrow> st' = st)"
  using assms
proof (induction fuel arbitrary: st ls as rest h merged)
  case (Suc fuel)
  note inv = Suc.prems(1) and i = Suc.prems(2) and ls = Suc.prems(3) and settled = Suc.prems(5)
  note D = heap_invD[OF inv]
  show ?case
  proof (cases rest)
    case Nil
    have "(\<Union>j < i. set (ls j)) \<union> set as = (\<Union>j \<le> i. set (ls j))"
      using ls Nil by (auto simp: le_less)
    then show ?thesis using Nil Suc.prems by (auto intro!: exI[of _ ls])
  next
    case (Cons x bs)
    then have h: "h = x" and lsi: "ls i = as @ h # bs" using Suc.prems(4) ls by simp_all
    have "h \<in> set (ls i)" using lsi by simp
    then obtain r where r: "blocks (hs st) h = Some r" "HBLK_IS_FREE r" "fl_class r = i" using D(5)[of h i] by auto
    note nx = list_next[OF inv lsi r(1)]
    have rh: "hdr_at st (HDR (hs st) h) = r" using r(1) by (simp add: blocks_Some)
    have sz: "hb_sz r = ext r" using r(2) by (simp add: ext_free)
    define n where "n = h + ext r"
    note GET = hm_GET_HDR[OF D(1)]
    note ok = parts_blk_ok[OF D(2,1) r(1)]
    have al: "BLK dvd n" using ok(1) by (simp add: n_def blk_ok_def)
    have move: ?thesis if skip: "HDR (hs st) n = 0 \<or> \<not> HBLK_IS_FREE (hdr_at st (HDR (hs st) n))
        \<or> BLOCKS_MERGE_OVERFLOW r (hdr_at st (HDR (hs st) n))"
      and no: "\<And>rn. blocks (hs st) n = Some rn \<Longrightarrow> HBLK_IS_FREE rn \<Longrightarrow> 2 ^ 63 \<le> ext r + ext rn"
    proof -
      have "merge_unmapped_list (Suc fuel) st i h merged = merge_unmapped_list fuel st i (if bs = [] then 0 else hd bs) merged"
        using skip nx by (simp add: GET rh Let_def sz n_def)
      moreover have "\<exists>m st' ls'. merge_unmapped_list fuel st i (if bs = [] then 0 else hd bs) merged = Ret (m, st')
        \<and> heap_inv L st' ls' {} {} \<and> settled (blocks (hs st')) (\<Union>j \<le> i. set (ls' j)) \<and> merges st st'
        \<and> (merged \<longrightarrow> m) \<and> (\<not> m \<longrightarrow> st' = st)"
      proof (rule Suc.IH[OF inv i, of "as @ [h]" bs])
        show "settled (blocks (hs st)) ((\<Union>j < i. set (ls j)) \<union> set (as @ [h]))"
          using settled no r(1) unfolding settled_def n_def by auto
        show "ls i = (as @ [h]) @ bs" using lsi by simp
        show "card (listed ls) * (2 ^ 52 + 1) + length bs < fuel" using Suc.prems(6) unfolding Cons by simp
      qed simp
      ultimately show ?thesis by simp
    qed
    show ?thesis
    proof (cases "HDR (hs st) n = 0")
      case True
      then show ?thesis by (intro move) (simp_all add: blocks_def)
    next
      case False
      obtain rn where rn: "blocks (hs st) n = Some rn"
        using boundary_HDR[OF D(2,1) ok(3)[folded n_def] al False] by blast
      have rn': "hdr_at st (HDR (hs st) n) = rn" using rn by (simp add: blocks_Some)
      have below: "ext r + ext rn < 2 ^ 64"
        using parts_blk_ok(1)[OF D(2,1) rn] unfolding blk_ok_def n_def BLK_def by linarith
      show ?thesis
      proof (cases "HBLK_IS_FREE rn \<and> ext r + ext rn < 2 ^ 63")
        case no: False
        then show ?thesis
          using merge_overflow_iff[OF r(2) _ below] rn rn' by (intro move) auto
      next
        case yes: True
        define st0 where "st0 = make_consistent st h (HDR (hs st) h) n (HDR (hs st) n)"
        have adj: "adjusted L st ls {} {} h st0" unfolding st0_def by (rule make_consistent_adjusted[OF inv r(1)])
        obtain st1 st' ls' where m: "GC_remove_from_fl_at st0 (HDR (hs st) h) (fl_class r) = Ret st1"
          "join_next st1 h (HDR (hs st) h) (h + ext r) (HDR (hs st) (h + ext r)) = Ret st'"
          "heap_inv L st' ls' {} {}" "merges st st'"
          "same_shape ((blocks (hs st))(h \<mapsto> r\<lparr>hb_sz := ext r + ext rn\<rparr>, h + ext r := None)) (blocks (hs st'))"
          "\<And>i x. x \<in> set (ls' i) \<Longrightarrow> x \<noteq> h + ext r \<and> (x \<noteq> h \<and> x \<in> set (ls i) \<or> x = h \<and> i = fl_class (r\<lparr>hb_sz := ext r + ext rn\<rparr>))"
          "listed ls' = listed ls - {h + ext r}" "h \<in> listed ls" "h + ext r \<in> listed ls"
          by (rule merge_pair[OF inv r(1,2) rn[unfolded n_def] _ adj]) (use yes that in auto)
        have step: "merge_unmapped_list (Suc fuel) st i h merged = merge_unmapped_list fuel st' i (GC_hblkfreelist st' i) True"
          using False yes merge_overflow_iff[OF r(2) _ below] m(1,2) nx(2) r(3)
          by (simp add: GET rh rn' Let_def sz flip: n_def st0_def)
        have "\<exists>m st'' ls'. merge_unmapped_list fuel st' i (GC_hblkfreelist st' i) True = Ret (m, st'') \<and> heap_inv L st'' ls' {} {}
          \<and> settled (blocks (hs st'')) (\<Union>j \<le> i. set (ls' j)) \<and> merges st' st'' \<and> (True \<longrightarrow> m) \<and> (\<not> m \<longrightarrow> st'' = st')"
        proof (rule Suc.IH[OF m(3) i, of "[]" "ls' i"])
          show "GC_hblkfreelist st' i = (if ls' i = [] then 0 else hd (ls' i))" by (rule list_head[OF m(3) i])
          have cls: "i \<le> fl_class (r\<lparr>hb_sz := ext r + ext rn\<rparr>)"
            unfolding r(3)[symmetric] sz by (simp add: GC_hblk_fl_from_blocks_mono div_le_mono)
          have "settled (blocks (hs st')) (\<Union>j < i. set (ls' j))"
          proof (rule settled_merge[OF _ _ _ r(1,2) _ m(5)])
            have sub: "(\<Union>j < i. set (ls' j)) \<subseteq> (\<Union>j < i. set (ls j)) - {h, h + ext r}"
              using m(6) cls by fastforce
            show "settled (blocks (hs st)) (\<Union>j < i. set (ls' j))" using settled sub unfolding settled_def by blast
            show "h \<notin> (\<Union>j < i. set (ls' j))" "h + ext r \<notin> (\<Union>j < i. set (ls' j))" using sub by auto
            show "ext r \<le> ext (r\<lparr>hb_sz := ext r + ext rn\<rparr>)" using r(2) by (simp add: ext_free)
          qed
          then show "settled (blocks (hs st')) ((\<Union>j < i. set (ls' j)) \<union> set [])" by simp
          have fin: "finite (listed ls)" by (rule heap_inv_lengths(1)[OF inv])
          have "card (listed ls) = Suc (card (listed ls'))" unfolding m(7) by (rule card.remove[OF fin m(9)])
          moreover have "length (ls' i) \<le> 2 ^ 52" by (rule heap_inv_lengths(3)[OF m(3)])
          ultimately show "card (listed ls') * (2 ^ 52 + 1) + length (ls' i) < fuel" using Suc.prems(6) by simp
        qed simp
        then show ?thesis unfolding step using merges_trans[OF m(4)] by blast
      qed
    qed
  qed
qed simp

lemma merge_unmapped_lists_ok:
  assumes "heap_inv L st ls {} {}" "i \<le> N_HBLK_FLS + 1" "settled (blocks (hs st)) (\<Union>j < i. set (ls j))"
  shows "\<exists>m st' ls'. merge_unmapped_lists st merged [i ..< N_HBLK_FLS + 1] = Ret (m, st') \<and> heap_inv L st' ls' {} {}
    \<and> settled (blocks (hs st')) (\<Union>j < N_HBLK_FLS + 1. set (ls' j)) \<and> merges st st' \<and> (merged \<longrightarrow> m) \<and> (\<not> m \<longrightarrow> st' = st)"
  using assms
proof (induction "N_HBLK_FLS + 1 - i" arbitrary: i st ls merged)
  case 0
  then have "i = N_HBLK_FLS + 1" by simp
  then show ?case using 0 by auto
next
  case (Suc k)
  then have i: "i \<le> N_HBLK_FLS" by simp
  then have upt: "[i ..< N_HBLK_FLS + 1] = i # [Suc i ..< N_HBLK_FLS + 1]" by (simp add: upt_conv_Cons)
  note len = heap_inv_lengths[OF Suc.prems(1)]
  have "card (listed ls) * (2 ^ 52 + 1) \<le> 2 ^ 52 * (2 ^ 52 + 1)" by (rule mult_le_mono1[OF len(2)])
  then have fuel: "card (listed ls) * (2 ^ 52 + 1) + length (ls i) < MERGE_FUEL"
    using len(3)[of i] unfolding MERGE_FUEL_def by simp
  obtain m st' ls' where m: "merge_unmapped_list MERGE_FUEL st i (GC_hblkfreelist st i) merged = Ret (m, st')" "heap_inv L st' ls' {} {}"
    "settled (blocks (hs st')) (\<Union>j \<le> i. set (ls' j))" "merges st st'" "merged \<longrightarrow> m" "\<not> m \<longrightarrow> st' = st"
    using merge_unmapped_list_ok[OF Suc.prems(1) i, of "[]" "ls i", OF _ list_head[OF Suc.prems(1) i] _ fuel, of merged] Suc.prems(3) by auto
  have k: "k = N_HBLK_FLS + 1 - Suc i" using Suc.hyps(2) by simp
  have "settled (blocks (hs st')) (\<Union>j < Suc i. set (ls' j))" using m(3) by (simp only: lessThan_Suc_atMost)
  then obtain m' st'' ls'' where "merge_unmapped_lists st' m [Suc i ..< N_HBLK_FLS + 1] = Ret (m', st'')" "heap_inv L st'' ls'' {} {}"
    "settled (blocks (hs st'')) (\<Union>j < N_HBLK_FLS + 1. set (ls'' j))" "merges st' st''" "m \<longrightarrow> m'" "\<not> m' \<longrightarrow> st'' = st'"
    using Suc.hyps(1)[OF k m(2), of m] i by auto
  moreover have "merge_unmapped_lists st merged [i ..< N_HBLK_FLS + 1] = merge_unmapped_lists st' m [Suc i ..< N_HBLK_FLS + 1]"
    unfolding upt by (simp add: m(1))
  ultimately show ?case using m(4,5,6) merges_trans by (intro exI[of _ m'] exI[of _ st''] exI[of _ ls'']) auto
qed

lemma GC_merge_unmapped_spec:
  assumes inv: "heap_inv L st ls {} {}"
  obtains m st' ls' where "GC_merge_unmapped st = Ret (m, st')" "heap_inv L st' ls' {} {}" "merges st st'"
    "\<not> m \<Longrightarrow> st' = st" "\<And>h r n. blocks (hs st') h = Some r \<Longrightarrow> HBLK_IS_FREE r \<Longrightarrow>
       blocks (hs st') (h + ext r) = Some n \<Longrightarrow> HBLK_IS_FREE n \<Longrightarrow> 2 ^ 63 \<le> ext r + ext n"
proof -
  note result = that
  obtain m st' ls' where m: "GC_merge_unmapped st = Ret (m, st')" "heap_inv L st' ls' {} {}"
    "settled (blocks (hs st')) (\<Union>j < N_HBLK_FLS + 1. set (ls' j))" "merges st st'" "\<not> m \<longrightarrow> st' = st"
    using merge_unmapped_lists_ok[OF inv, of 0 False] by (auto simp: GC_merge_unmapped_def settled_def)
  have "2 ^ 63 \<le> ext r + ext n" if h: "blocks (hs st') h = Some r" "HBLK_IS_FREE r"
    and n: "blocks (hs st') (h + ext r) = Some n" "HBLK_IS_FREE n" for h r n
  proof -
    have "h \<in> (\<Union>j < N_HBLK_FLS + 1. set (ls' j))" using free_listed[OF m(2) h] by force
    then show ?thesis using m(3) h n unfolding settled_def by blast
  qed
  then show ?thesis using result[OF m(1,2,4)] m(5) by blast
qed

section \<open>Merging for one request\<close>

text \<open>Free blocks of the sizes \<open>xs\<close> that follow each other from the address \<open>a\<close> on.\<close>

fun free_run :: "(nat \<Rightarrow> hdr option) \<Rightarrow> nat \<Rightarrow> nat list \<Rightarrow> bool" where
  "free_run F a [] = True"
| "free_run F a (x # xs) = ((case F a of None \<Rightarrow> False | Some r \<Rightarrow> HBLK_IS_FREE r \<and> ext r = x) \<and> free_run F (a + x) xs)"

lemma free_run_Cons: "free_run F a (x # xs) \<longleftrightarrow> (\<exists>r. F a = Some r \<and> HBLK_IS_FREE r \<and> ext r = x \<and> free_run F (a + x) xs)"
  by (auto split: option.splits)

lemma free_run_None: "F a = None \<Longrightarrow> free_run F a xs \<longleftrightarrow> xs = []"
  by (cases xs) simp_all

lemma free_run_cong:
  assumes "\<And>a'. a \<le> a' \<Longrightarrow> map_option shape (G a') = map_option shape (F a')"
  shows "free_run F a xs \<Longrightarrow> free_run G a xs"
  using assms
proof (induction xs arbitrary: a)
  case (Cons x xs)
  then obtain r where r: "F a = Some r" "HBLK_IS_FREE r" "ext r = x" and c: "free_run F (a + x) xs" unfolding free_run_Cons by blast
  obtain r' where r': "G a = Some r'" "shape r' = shape r" using Cons.prems(2)[of a] r(1) by (cases "G a") auto
  moreover have "free_run G (a + x) xs" by (rule Cons.IH[OF c]) (simp add: Cons.prems(2))
  ultimately show ?case using shape_ext[OF r'(2)] r unfolding free_run_Cons by blast
qed simp

lemma free_run_length:
  assumes "hm L s" "heap_parts s"
  shows "free_run (blocks s) a xs \<Longrightarrow> length xs \<le> 2 ^ 52 - a div BLK"
proof (induction xs arbitrary: a)
  case (Cons x xs)
  then obtain r where r: "blocks s a = Some r" "ext r = x" and c: "free_run (blocks s) (a + x) xs" unfolding free_run_Cons by blast
  have ok: "blk_ok a r" by (rule parts_blk_ok(1)[OF assms(2,1) r(1)])
  then have "a div BLK + 1 \<le> (a + x) div BLK" using r(2) by (auto simp: blk_ok_def BLK_def dvd_def)
  moreover have "a div BLK < 2 ^ 52" using ok by (auto simp: blk_ok_def BLK_def less_mult_imp_div_less)
  ultimately show ?case using Cons.IH[OF c] unfolding length_Cons by linarith
qed simp

lemma merge_scan_ok:
  assumes hm: "hm L (hs st)" and parts: "heap_parts (hs st)" and h: "blocks (hs st) h = Some r" "HBLK_IS_FREE r"
  defines "F \<equiv> blocks (hs st)"
  assumes "boundary F n" "BLK dvd n" "h + ext r \<le> n" "2 ^ 52 - n div BLK < fuel" "tot < req"
  shows "\<exists>b t. merge_scan fuel st (HDR (hs st) h) n (HDR (hs st) n) tot req = Ret (b, t) \<and>
    (b \<noteq> 0 \<and> HBLK_IS_FREE (hdr_at st b) \<and> req \<le> t
       \<and> (\<exists>xs. free_run F n xs \<and> xs \<noteq> [] \<and> req \<le> tot + sum_list xs \<and> tot + sum_list (butlast xs) < req)
     \<or> t < req \<and> (\<forall>xs. free_run F n xs \<longrightarrow> (\<forall>x \<in> set xs. ext r + x < 2 ^ 63) \<longrightarrow> tot + sum_list xs < req))"
  using assms(6-10)
proof (induction fuel arbitrary: n tot)
  case (Suc fuel)
  note n = Suc.prems
  have rh: "hdr_at st (HDR (hs st) h) = r" using h(1) by (simp add: blocks_Some)
  show ?case
  proof (cases "HDR (hs st) n = 0")
    case True
    then have "F n = None" by (simp add: F_def blocks_def)
    then show ?thesis using True n(5) by (simp add: free_run_None)
  next
    case False
    obtain rn where rn: "F n = Some rn" using boundary_HDR[OF parts hm n(1)[unfolded F_def] n(2) False] by (auto simp: F_def)
    have rn': "hdr_at st (HDR (hs st) n) = rn" using rn by (simp add: blocks_Some F_def)
    note ok = parts_blk_ok[OF parts hm rn[unfolded F_def]]
    have below: "ext r + ext rn < 2 ^ 64" using ok(1) n(3) unfolding blk_ok_def BLK_def by linarith
    show ?thesis
    proof (cases "HBLK_IS_FREE rn \<and> ext r + ext rn < 2 ^ 63")
      case no: False
      then have "\<not> HBLK_IS_FREE rn \<or> BLOCKS_MERGE_OVERFLOW r rn" using merge_overflow_iff[OF h(2) _ below] by auto
      then have "merge_scan (Suc fuel) st (HDR (hs st) h) n (HDR (hs st) n) tot req = Ret (HDR (hs st) n, tot)"
        using False by (auto simp: rh rn')
      moreover have "tot + sum_list xs < req" if "free_run F n xs" "\<forall>x \<in> set xs. ext r + x < 2 ^ 63" for xs
        using that no rn n(5) by (cases xs) auto
      ultimately show ?thesis using n(5) by auto
    next
      case yes: True
      note sz = ext_free[OF conjunct1[OF yes], symmetric]
      have ov: "\<not> BLOCKS_MERGE_OVERFLOW r rn" using yes merge_overflow_iff[OF h(2) _ below] by auto
      show ?thesis
      proof (cases "req \<le> tot + ext rn")
        case True
        have "merge_scan (Suc fuel) st (HDR (hs st) h) n (HDR (hs st) n) tot req = Ret (HDR (hs st) n, tot + ext rn)"
          using False yes ov True by (simp add: rh rn' Let_def sz)
        moreover have "free_run F n [ext rn]" using rn yes by simp
        ultimately show ?thesis using False yes True n(5) rn'
          by (intro exI[of _ "HDR (hs st) n"] exI[of _ "tot + ext rn"] conjI disjI1 exI[of _ "[ext rn]"]) simp_all
      next
        case False2: False
        have step: "merge_scan (Suc fuel) st (HDR (hs st) h) n (HDR (hs st) n) tot req =
            merge_scan fuel st (HDR (hs st) h) (n + ext rn) (HDR (hs st) (n + ext rn)) (tot + ext rn) req"
          using False yes ov False2 by (simp add: rh rn' Let_def sz hm_GET_HDR[OF hm])
        have "n div BLK + 1 \<le> (n + ext rn) div BLK" "n div BLK < 2 ^ 52"
          using ok(1) by (auto simp: blk_ok_def BLK_def dvd_def less_mult_imp_div_less)
        then have "2 ^ 52 - (n + ext rn) div BLK < fuel" using n(4) by linarith
        moreover have "BLK dvd n + ext rn" using ok(1) n(2) by (simp add: blk_ok_def)
        ultimately obtain b t where bt: "merge_scan fuel st (HDR (hs st) h) (n + ext rn) (HDR (hs st) (n + ext rn)) (tot + ext rn) req = Ret (b, t)"
          "b \<noteq> 0 \<and> HBLK_IS_FREE (hdr_at st b) \<and> req \<le> t
             \<and> (\<exists>xs. free_run F (n + ext rn) xs \<and> xs \<noteq> [] \<and> req \<le> tot + ext rn + sum_list xs \<and> tot + ext rn + sum_list (butlast xs) < req)
           \<or> t < req \<and> (\<forall>xs. free_run F (n + ext rn) xs \<longrightarrow> (\<forall>x \<in> set xs. ext r + x < 2 ^ 63) \<longrightarrow> tot + ext rn + sum_list xs < req)"
          using Suc.IH[of "n + ext rn" "tot + ext rn"] ok(3)[folded F_def] n(3) False2 by auto
        show ?thesis
        proof (cases "t < req")
          case True
          have "tot + sum_list xs < req" if "free_run F n xs" "\<forall>x \<in> set xs. ext r + x < 2 ^ 63" for xs
          proof (cases xs)
            case (Cons x ys)
            then have "x = ext rn" "free_run F (n + ext rn) ys" using that(1) rn by simp_all
            then show ?thesis using bt(2) True that(2) Cons by (auto simp: add.assoc)
          qed (simp add: n(5))
          then show ?thesis unfolding step bt(1) using True by auto
        next
          case big: False
          then obtain xs where "free_run F (n + ext rn) xs" "xs \<noteq> []" "req \<le> tot + ext rn + sum_list xs"
            "tot + ext rn + sum_list (butlast xs) < req" "b \<noteq> 0" "HBLK_IS_FREE (hdr_at st b)" using bt(2) by blast
          then show ?thesis unfolding step bt(1) using rn yes big
            by (intro exI[of _ b] exI[of _ t] conjI disjI1 exI[of _ "ext rn # xs"]) simp_all
        qed
      qed
    qed
  qed
qed simp


lemma merge_chain_round:
  assumes inv: "heap_inv L st ls {} {}" and h: "blocks (hs st) h = Some r" "HBLK_IS_FREE r"
    and run: "free_run (blocks (hs st)) (h + ext r) (x # xs)"
  obtains st' ls' r' where "heap_inv L st' ls' {} {}" "merges st st'" "blocks (hs st') h = Some r'" "HBLK_IS_FREE r'"
    "ext r' = ext r + x" "free_run (blocks (hs st')) (h + ext r') xs"
    "merge_chain (Suc fuel) st h (HDR (hs st) h) req =
       (if ext r' < req then merge_chain fuel st' h (HDR (hs st') h) req else Ret st')"
proof -
  note result = that and D = heap_invD[OF inv]
  obtain rn where rn: "blocks (hs st) (h + ext r) = Some rn" "HBLK_IS_FREE rn" "ext rn = x"
    and c: "free_run (blocks (hs st)) (h + ext r + x) xs" using run unfolding free_run_Cons by blast
  define st0 where "st0 = make_unmapped st h (HDR (hs st) h) (h + ext r) (HDR (hs st) (h + ext r))"
  have adj: "adjusted L st ls {} {} h st0" unfolding st0_def by (rule make_unmapped_adjusted[OF inv h(1)])
  obtain st1 st' ls' where m: "GC_remove_from_fl st0 (HDR (hs st) h) = Ret st1"
    "join_next st1 h (HDR (hs st) h) (h + ext r) (HDR (hs st) (h + ext r)) = Ret st'"
    "heap_inv L st' ls' {} {}" "merges st st'" "HDR (hs st') h = HDR (hs st) h"
    "same_shape ((blocks (hs st))(h \<mapsto> r\<lparr>hb_sz := ext r + ext rn\<rparr>, h + ext r := None)) (blocks (hs st'))"
    by (rule merge_pair[OF inv h rn(1,2) adj])
  have pos: "0 < ext r" "0 < ext rn" using parts_blk_ok(1)[OF D(2,1) h(1)] parts_blk_ok(1)[OF D(2,1) rn(1)] by (simp_all add: blk_ok_def)
  have "((blocks (hs st))(h \<mapsto> r\<lparr>hb_sz := ext r + ext rn\<rparr>, h + ext r := None)) h = Some (r\<lparr>hb_sz := ext r + ext rn\<rparr>)"
    using pos by simp
  then obtain r' where r': "blocks (hs st') h = Some r'" "shape r' = shape (r\<lparr>hb_sz := ext r + ext rn\<rparr>)"
    by (rule same_shape_Some[OF m(6)])
  have e: "HBLK_IS_FREE r'" "ext r' = ext r + x" "hb_sz r' = ext r + x"
    using shape_ext[OF r'(2)] h(2) rn(3) r'(2) by (simp_all add: ext_free shape_def)
  have "free_run (blocks (hs st')) (h + ext r + x) xs"
  proof (rule free_run_cong[OF _ c])
    fix a assume "h + ext r + x \<le> a"
    then show "map_option shape (blocks (hs st') a) = map_option shape (blocks (hs st) a)"
      using m(6) pos rn(3) unfolding same_shape_def by (auto dest!: spec[of _ a])
  qed
  moreover have rh: "hdr_at st' (HDR (hs st) h) = r'" "hdr_at st (HDR (hs st) h) = r" "hb_sz r = ext r"
    using r'(1) h by (simp_all add: blocks_Some m(5) ext_free)
  have "merge_chain (Suc fuel) st h (HDR (hs st) h) req =
      (if ext r' < req then merge_chain fuel st' h (HDR (hs st') h) req else Ret st')"
    unfolding m(5) using m(1,2) by (simp add: hm_GET_HDR[OF D(1)] Let_def rh e flip: st0_def)
  ultimately show thesis using result[OF m(3,4) r'(1) e(1,2)] e(2) by (simp add: add.assoc)
qed

lemma merge_chain_ok:
  assumes "heap_inv L st ls {} {}" "blocks (hs st) h = Some r" "HBLK_IS_FREE r" "free_run (blocks (hs st)) (h + ext r) (x # xs)"
    "req \<le> ext r + sum_list (x # xs)" "ext r + sum_list (butlast (x # xs)) < req" "length xs < fuel"
  shows "\<exists>st' ls' r'. merge_chain fuel st h (HDR (hs st) h) req = Ret st' \<and> heap_inv L st' ls' {} {} \<and> merges st st'
    \<and> blocks (hs st') h = Some r' \<and> HBLK_IS_FREE r' \<and> req \<le> ext r'"
  using assms
proof (induction xs arbitrary: st ls r x fuel)
  case Nil
  then obtain f where f: "fuel = Suc f" by (cases fuel) auto
  obtain st' ls' r' where m: "heap_inv L st' ls' {} {}" "merges st st'" "blocks (hs st') h = Some r'" "HBLK_IS_FREE r'"
    "ext r' = ext r + x" "merge_chain fuel st h (HDR (hs st) h) req =
       (if ext r' < req then merge_chain f st' h (HDR (hs st') h) req else Ret st')"
    unfolding f by (rule merge_chain_round[OF Nil.prems(1-4)])
  then show ?case using Nil.prems(5) by auto
next
  case (Cons y ys)
  then obtain f where f: "fuel = Suc f" by (cases fuel) auto
  obtain st' ls' r' where m: "heap_inv L st' ls' {} {}" "merges st st'" "blocks (hs st') h = Some r'" "HBLK_IS_FREE r'"
    "ext r' = ext r + x" "free_run (blocks (hs st')) (h + ext r') (y # ys)" "merge_chain fuel st h (HDR (hs st) h) req =
       (if ext r' < req then merge_chain f st' h (HDR (hs st') h) req else Ret st')"
    unfolding f by (rule merge_chain_round[OF Cons.prems(1-4)])
  have "ext r' < req" "req \<le> ext r' + sum_list (y # ys)" "ext r' + sum_list (butlast (y # ys)) < req"
    using Cons.prems(5,6) m(5) by simp_all
  then show ?case using Cons.IH[OF m(1,3,4,6), of f] m(2,7) Cons.prems(7) f merges_trans by fastforce
qed

lemma ALIGN_PAD_SZ_le: "ALIGN_PAD_SZ p m \<le> m"
proof -
  have "int (a AND m) \<le> int m" for a unfolding of_nat_and_eq by (rule AND_upper2) simp
  then show ?thesis unfolding ALIGN_PAD_SZ_def by simp
qed

definition no_run :: "(nat \<Rightarrow> hdr option) \<Rightarrow> nat \<Rightarrow> nat \<Rightarrow> nat \<Rightarrow> bool" where
  "no_run F sz al h \<longleftrightarrow> (\<forall>r xs. F h = Some r \<longrightarrow> ext r < sz + ALIGN_PAD_SZ h al \<longrightarrow> free_run F (h + ext r) xs \<longrightarrow>
     (\<forall>x \<in> set xs. ext r + x < 2 ^ 63) \<longrightarrow> ext r + sum_list xs < sz + ALIGN_PAD_SZ h al)"

lemma merge_for_alloc_list_ok:
  assumes inv: "heap_inv L st ls {} {}" and sz: "sz + al < 2 ^ 64"
    and "ls i = as @ rest" "h = (if rest = [] then 0 else hd rest)" "length rest < fuel"
  shows "\<exists>m st'. merge_for_alloc_list fuel st sz al h = Ret (m, st')
    \<and> (if m then \<exists>ls' b r. heap_inv L st' ls' {} {} \<and> merges st st' \<and> blocks (hs st') b = Some r \<and> HBLK_IS_FREE r
                       \<and> sz + ALIGN_PAD_SZ b al \<le> ext r
       else st' = st \<and> (\<forall>x \<in> set rest. no_run (blocks (hs st)) sz al x))"
  using assms(3-)
proof (induction fuel arbitrary: as rest h)
  case (Suc fuel)
  note D = heap_invD[OF inv]
  note GET = hm_GET_HDR[OF D(1)]
  show ?case
  proof (cases rest)
    case (Cons x bs)
    then have lsi: "ls i = as @ h # bs" using Suc.prems by simp
    have "h \<in> set (ls i)" using lsi by simp
    then obtain r where r: "blocks (hs st) h = Some r" "HBLK_IS_FREE r" using D(5)[of h i] by auto
    note nx = list_next[OF inv lsi r(1)]
    have rh: "hdr_at st (HDR (hs st) h) = r" "hb_sz r = ext r" using r by (simp_all add: blocks_Some ext_free)
    define n where "n = h + ext r"
    define req where "req = sz + ALIGN_PAD_SZ h al"
    have req: "(sz + ALIGN_PAD_SZ h al) mod 18446744073709551616 = req" using sz ALIGN_PAD_SZ_le[of h al] by (simp add: req_def)
    have skip: ?thesis
      if "merge_for_alloc_list (Suc fuel) st sz al h = merge_for_alloc_list fuel st sz al (if bs = [] then 0 else hd bs)"
        "no_run (blocks (hs st)) sz al h"
    proof -
      have "ls i = (as @ [h]) @ bs" "length bs < fuel" using lsi Suc.prems(3) Cons by simp_all
      then obtain m st' where m: "merge_for_alloc_list fuel st sz al (if bs = [] then 0 else hd bs) = Ret (m, st')"
        "if m then \<exists>ls' b r. heap_inv L st' ls' {} {} \<and> merges st st' \<and> blocks (hs st') b = Some r \<and> HBLK_IS_FREE r
                       \<and> sz + ALIGN_PAD_SZ b al \<le> ext r
         else st' = st \<and> (\<forall>x \<in> set bs. no_run (blocks (hs st)) sz al x)"
        using Suc.IH[OF _ refl] by blast
      have hx: "x = h" using Cons Suc.prems(2) by simp
      show ?thesis using m(2) that(2) unfolding that(1) m(1) Cons hx by (intro exI[of _ m] exI[of _ st']) (cases m; simp)
    qed
    show ?thesis
    proof (cases "req \<le> ext r")
      case True
      show ?thesis
      proof (rule skip)
        show "merge_for_alloc_list (Suc fuel) st sz al h = merge_for_alloc_list fuel st sz al (if bs = [] then 0 else hd bs)"
          using True nx by (simp add: GET rh Let_def req)
        show "no_run (blocks (hs st)) sz al h" using True r(1) by (simp add: no_run_def req_def)
      qed
    next
      case False
      note ok = parts_blk_ok[OF D(2,1) r(1)]
      have "BLK dvd n" "2 ^ 52 - n div BLK < FL_FUEL" using ok(1) by (simp_all add: n_def blk_ok_def FL_FUEL_def)
      then obtain b t where bt: "merge_scan FL_FUEL st (HDR (hs st) h) n (HDR (hs st) n) (ext r) req = Ret (b, t)"
        "b \<noteq> 0 \<and> HBLK_IS_FREE (hdr_at st b) \<and> req \<le> t
         \<and> (\<exists>xs. free_run (blocks (hs st)) n xs \<and> xs \<noteq> [] \<and> req \<le> ext r + sum_list xs \<and> ext r + sum_list (butlast xs) < req)
         \<or> t < req \<and> (\<forall>xs. free_run (blocks (hs st)) n xs \<longrightarrow> (\<forall>x \<in> set xs. ext r + x < 2 ^ 63) \<longrightarrow> ext r + sum_list xs < req)"
        using merge_scan_ok[OF D(1,2) r, of n FL_FUEL "ext r" req] ok(3) False by (auto simp: n_def)
      show ?thesis
      proof (cases "t < req")
        case True
        show ?thesis
        proof (rule skip)
          show "merge_for_alloc_list (Suc fuel) st sz al h = merge_for_alloc_list fuel st sz al (if bs = [] then 0 else hd bs)"
            using True False bt(1) nx by (simp add: GET rh Let_def req flip: n_def)
          have "ext r + sum_list xs < req" if "free_run (blocks (hs st)) n xs" "\<forall>x \<in> set xs. ext r + x < 2 ^ 63" for xs
            using bt(2) True that by auto
          then show "no_run (blocks (hs st)) sz al h" using r(1) by (simp add: no_run_def n_def req_def)
        qed
      next
        case big: False
        then obtain xs where xs: "free_run (blocks (hs st)) n xs" "xs \<noteq> []" "req \<le> ext r + sum_list xs"
          "ext r + sum_list (butlast xs) < req" "b \<noteq> 0" "HBLK_IS_FREE (hdr_at st b)" using bt(2) by blast
        then obtain y ys where ys: "xs = y # ys" by (cases xs) auto
        have "length ys < FL_FUEL" using free_run_length[OF D(1,2) xs(1)] ys by (simp add: FL_FUEL_def)
        then obtain st' ls' r' where m: "merge_chain FL_FUEL st h (HDR (hs st) h) req = Ret st'" "heap_inv L st' ls' {} {}"
          "merges st st'" "blocks (hs st') h = Some r'" "HBLK_IS_FREE r'" "req \<le> ext r'"
          using merge_chain_ok[OF inv r] xs ys unfolding n_def by blast
        have "merge_for_alloc_list (Suc fuel) st sz al h = Ret (True, st')"
          using False bt(1) nx(2) big xs(5,6) m(1) by (simp add: GET rh Let_def req flip: n_def)
        then show ?thesis using m unfolding req_def by auto
      qed
    qed
  qed (use Suc.prems in \<open>simp add: exI[of _ False]\<close>)
qed simp

lemma merge_for_alloc_lists_ok:
  assumes inv: "heap_inv L st ls {} {}" and sz: "sz + al < 2 ^ 64" and "set is \<subseteq> {.. N_HBLK_FLS}"
  shows "\<exists>m st'. merge_for_alloc_lists st sz al is = Ret (m, st')
    \<and> (if m then \<exists>ls' b r. heap_inv L st' ls' {} {} \<and> merges st st' \<and> blocks (hs st') b = Some r \<and> HBLK_IS_FREE r
                       \<and> sz + ALIGN_PAD_SZ b al \<le> ext r
       else st' = st \<and> (\<forall>i \<in> set is. \<forall>x \<in> set (ls i). no_run (blocks (hs st)) sz al x))"
  using assms(3)
proof (induction "is")
  case (Cons i "is")
  have fuel: "length (ls i) < FL_FUEL" using heap_inv_lengths(3)[OF inv, of i] by (simp add: FL_FUEL_def)
  have i: "i \<le> N_HBLK_FLS" using Cons.prems by simp
  obtain m st' where m: "merge_for_alloc_list FL_FUEL st sz al (GC_hblkfreelist st i) = Ret (m, st')"
    "if m then \<exists>ls' b r. heap_inv L st' ls' {} {} \<and> merges st st' \<and> blocks (hs st') b = Some r \<and> HBLK_IS_FREE r
                       \<and> sz + ALIGN_PAD_SZ b al \<le> ext r
     else st' = st \<and> (\<forall>x \<in> set (ls i). no_run (blocks (hs st)) sz al x)"
    using merge_for_alloc_list_ok[OF inv sz, of i "[]" "ls i", OF _ list_head[OF inv i] fuel] by auto
  show ?case
  proof (cases m)
    case True
    then show ?thesis using m by (intro exI[of _ True] exI[of _ st']) simp
  next
    case False
    then have st': "st' = st" and no: "\<forall>x \<in> set (ls i). no_run (blocks (hs st)) sz al x" using m(2) by auto
    have eq: "merge_for_alloc_lists st sz al (i # is) = merge_for_alloc_lists st sz al is"
      using m(1) False unfolding st' by simp
    obtain m' st'' where "merge_for_alloc_lists st sz al is = Ret (m', st'')"
      "if m' then \<exists>ls' b r. heap_inv L st'' ls' {} {} \<and> merges st st'' \<and> blocks (hs st'') b = Some r \<and> HBLK_IS_FREE r
                       \<and> sz + ALIGN_PAD_SZ b al \<le> ext r
       else st'' = st \<and> (\<forall>i \<in> set is. \<forall>x \<in> set (ls i). no_run (blocks (hs st)) sz al x)"
      using Cons.IH Cons.prems by auto
    then show ?thesis using no unfolding eq by (intro exI[of _ m'] exI[of _ st'']) (cases m'; simp)
  qed
qed (simp add: exI[of _ False])

lemma GC_merge_free_blocks_for_alloc_spec:
  assumes inv: "heap_inv L st ls {} {}" and sz: "sz + al < 2 ^ 64"
  obtains (merged) st' ls' b r where "GC_merge_free_blocks_for_alloc st sz al = Ret (True, st')" "heap_inv L st' ls' {} {}"
      "merges st st'" "blocks (hs st') b = Some r" "HBLK_IS_FREE r" "sz + ALIGN_PAD_SZ b al \<le> ext r"
    | (none) "GC_merge_free_blocks_for_alloc st sz al = Ret (False, st)"
      "\<And>h r. blocks (hs st) h = Some r \<Longrightarrow> HBLK_IS_FREE r \<Longrightarrow> no_run (blocks (hs st)) sz al h"
proof -
  obtain m st' where m: "GC_merge_free_blocks_for_alloc st sz al = Ret (m, st')"
    "if m then \<exists>ls' b r. heap_inv L st' ls' {} {} \<and> merges st st' \<and> blocks (hs st') b = Some r \<and> HBLK_IS_FREE r
                       \<and> sz + ALIGN_PAD_SZ b al \<le> ext r
     else st' = st \<and> (\<forall>i \<in> set [0 ..< N_HBLK_FLS + 1]. \<forall>x \<in> set (ls i). no_run (blocks (hs st)) sz al x)"
    using merge_for_alloc_lists_ok[OF inv sz, of "[0 ..< N_HBLK_FLS + 1]"]
    unfolding GC_merge_free_blocks_for_alloc_def by (metis atMost_iff less_Suc_eq_le Suc_eq_plus1 atLeastLessThan_iff set_upt subsetI)
  show thesis
  proof (cases m)
    case True
    then show thesis using m merged by auto
  next
    case False
    have "no_run (blocks (hs st)) sz al h" if h: "blocks (hs st) h = Some r" "HBLK_IS_FREE r" for h r
    proof -
      obtain j where j: "j \<in> set [0 ..< N_HBLK_FLS + 1]" "h \<in> set (ls j)" using free_listed[OF inv h] by blast
      then show ?thesis using m(2) False j by auto
    qed
    then show thesis using m False none by auto
  qed
qed

section \<open>Unmapping\<close>

text \<open>The blocks that have been free for \<open>thr\<close> collections and are mapped, and the headers after unmapping those in \<open>S\<close>.\<close>

definition due :: "nat \<Rightarrow> 16 word \<Rightarrow> hdr \<Rightarrow> bool" where
  "due gc thr r \<longleftrightarrow> IS_MAPPED r \<and> thr \<le> of_nat gc - hb_last_reclaimed r"

definition unmapped :: "nat \<Rightarrow> 16 word \<Rightarrow> nat set \<Rightarrow> (nat \<Rightarrow> hdr option) \<Rightarrow> nat \<Rightarrow> hdr option" where
  "unmapped gc thr S F x = map_option (\<lambda>r. if x \<in> S \<and> due gc thr r then r\<lparr>hb_flags := hb_flags r OR WAS_UNMAPPED\<rparr> else r) (F x)"

definition unmap_calls :: "nat \<Rightarrow> 16 word \<Rightarrow> (nat \<Rightarrow> hdr option) \<Rightarrow> nat list \<Rightarrow> os_call list" where
  "unmap_calls gc thr F xs = [GC_unmap x (hb_sz (the (F x))). x \<leftarrow> xs, due gc thr (the (F x))]"

lemma unmap_calls_simps [simp]:
  "unmap_calls gc thr F [] = []"
  "unmap_calls gc thr F (x # xs) =
     (if due gc thr (the (F x)) then [GC_unmap x (hb_sz (the (F x)))] else []) @ unmap_calls gc thr F xs"
  by (simp_all add: unmap_calls_def)

lemma unmap_calls_cong:
  "(\<And>x. x \<in> set xs \<Longrightarrow> F x = G x) \<Longrightarrow> unmap_calls gc thr F xs = unmap_calls gc thr G xs"
  by (induction xs) auto

lemma unmap_calls_append [simp]: "unmap_calls gc thr F (xs @ ys) = unmap_calls gc thr F xs @ unmap_calls gc thr F ys"
  by (simp add: unmap_calls_def)

lemma unmapped_Un:
  "S \<inter> T = {} \<Longrightarrow> unmapped gc thr T (unmapped gc thr S F) = unmapped gc thr (S \<union> T) F"
  by (rule ext) (auto simp: unmapped_def option.map_comp intro!: option.map_cong)

lemma unmapped_other: "x \<notin> S \<Longrightarrow> unmapped gc thr S F x = F x"
  by (simp add: unmapped_def option.map_ident)

text \<open>What unmapping keeps.\<close>

definition relabels :: "nat \<Rightarrow> (nat \<Rightarrow> nat list) \<Rightarrow> heap_state \<Rightarrow> heap_state \<Rightarrow> bool" where
  "relabels L ls st st' \<longleftrightarrow> heap_inv L st' ls {} {} \<and> frame_os st st' \<and> os_mem (hs st') = os_mem (hs st)
     \<and> HDR (hs st') = HDR (hs st) \<and> GC_hblkfreelist st' = GC_hblkfreelist st \<and> GC_free_bytes st' = GC_free_bytes st"

lemma relabels_trans: "relabels L ls a b \<Longrightarrow> relabels L ls b c \<Longrightarrow> relabels L ls a c"
  unfolding relabels_def using frame_os_trans by auto

lemma adjusted_relabels: "adjusted L st ls {} {} h st' \<Longrightarrow> relabels L ls st st'"
  by (auto simp: adjusted_def relabels_def)

lemma unmap_old_list_ok:
  assumes "heap_inv L st ls {} {}" "ls i = as @ rest" "h = (if rest = [] then 0 else hd rest)" "length rest < fuel"
  defines "F \<equiv> blocks (hs st)" and "gc \<equiv> GC_gc_no (hs st)"
  shows "\<exists>st'. unmap_old_list fuel st thr h = Ret st' \<and> relabels L ls st st'
    \<and> blocks (hs st') = unmapped gc thr (set rest) F \<and> os_calls st' = rev (unmap_calls gc thr F rest) @ os_calls st"
  using assms(1-4) unfolding F_def gc_def
proof (induction fuel arbitrary: st as rest h)
  case (Suc fuel)
  note inv = Suc.prems(1)
  note D = heap_invD[OF inv]
  define gc where "gc = GC_gc_no (hs st)"
  define F where "F = blocks (hs st)"
  show ?case
  proof (cases rest)
    case Nil
    then show ?thesis using Suc.prems by (auto simp: unmapped_def relabels_def option.map_ident)
  next
    case (Cons x bs)
    then have lsi: "ls i = as @ h # bs" and rest: "rest = h # bs" using Suc.prems by simp_all
    have "h \<in> set (ls i)" using lsi by simp
    then obtain r where r: "F h = Some r" "HBLK_IS_FREE r" using D(5)[of h i] by (auto simp: F_def)
    note nx = list_next[OF inv lsi r(1)[unfolded F_def]]
    have h: "h \<notin> set bs" using D(3) lsi unfolding lists_ok_def by (metis distinct.simps(2) distinct_append)
    have rh: "hdr_at st (HDR (hs st) h) = r" using r(1) by (simp add: blocks_Some F_def)
    define f :: "hdr \<Rightarrow> hdr" where "f = (\<lambda>r. r\<lparr>hb_flags := hb_flags r OR WAS_UNMAPPED\<rparr>)"
    define st1 where "st1 = (if due gc thr r then upd_hdr (HDR (hs st) h) f (os_call (GC_unmap h (hb_sz r)) st) else st)"
    note a = inv_touch[OF inv r(1)[unfolded F_def], of f, unfolded f_def, OF touch_flags(1), folded f_def]
    have adj: "adjusted L st ls {} {} h st1"
      unfolding st1_def f_def using adjusted_refl[OF inv r(1)[unfolded F_def]] by (simp add: adjusted_call adjusted_upd touch_flags)
    have rel: "relabels L ls st st1" by (rule adjusted_relabels[OF adj])
    then have st1: "heap_inv L st1 ls {} {}" "HDR (hs st1) = HDR (hs st)" "GC_gc_no (hs st1) = gc"
      using frame_osD(2) by (auto simp: relabels_def gc_def)
    have B: "blocks (hs st1) = unmapped gc thr {h} F"
    proof (rule ext)
      fix x
      have "hs (upd_hdr (HDR (hs st) h) f (os_call (GC_unmap h (hb_sz r)) st)) = hs (upd_hdr (HDR (hs st) h) f st)"
        by (simp add: upd_hdr_def set_hs_def)
      then show "blocks (hs st1) x = unmapped gc thr {h} F x"
        using r(1) a(2) by (simp add: st1_def unmapped_def f_def F_def option.map_ident)
    qed
    obtain r1 where "blocks (hs st1) h = Some r1" "hb_next r1 = hb_next r" using r(1) by (auto simp: B unmapped_def)
    then have nx1: "hb_next (hdr_at st1 (HDR (hs st) h)) = (if bs = [] then 0 else hd bs)"
      using nx(1) by (simp add: blocks_Some st1(2))
    have step: "unmap_old_list (Suc fuel) st thr h = unmap_old_list fuel st1 thr (if bs = [] then 0 else hd bs)"
      unfolding nx1[symmetric] using nx(2) by (simp add: hm_GET_HDR[OF D(1)] rh Let_def st1_def due_def gc_def f_def)
    have "ls i = (as @ [h]) @ bs" "length bs < fuel" using lsi Suc.prems(4) rest by simp_all
    then obtain st' where st': "unmap_old_list fuel st1 thr (if bs = [] then 0 else hd bs) = Ret st'" "relabels L ls st1 st'"
      "blocks (hs st') = unmapped gc thr (set bs) (blocks (hs st1))"
      "os_calls st' = rev (unmap_calls gc thr (blocks (hs st1)) bs) @ os_calls st1"
      using Suc.IH[OF st1(1) _ refl] st1(3) by blast
    have "unmap_calls gc thr (blocks (hs st1)) bs = unmap_calls gc thr F bs"
      unfolding B by (intro unmap_calls_cong unmapped_other) (use h in auto)
    moreover have "os_calls st1 = rev (unmap_calls gc thr F [h]) @ os_calls st"
      using r(1) by (simp add: st1_def upd_hdr_def set_hs_def os_call_def)
    moreover have "unmapped gc thr (set bs) (unmapped gc thr {h} F) = unmapped gc thr (set rest) F"
      using h by (subst unmapped_Un) (auto simp: rest)
    ultimately show ?thesis
      unfolding step using st' relabels_trans[OF rel st'(2)] by (simp add: rest B gc_def F_def)
  qed
qed simp

lemma unmap_old_lists_ok:
  assumes "heap_inv L st ls {} {}" "set is \<subseteq> {.. N_HBLK_FLS}" "distinct is"
  defines "F \<equiv> blocks (hs st)" and "gc \<equiv> GC_gc_no (hs st)"
  shows "\<exists>st'. unmap_old_lists st thr is = Ret st' \<and> relabels L ls st st'
    \<and> blocks (hs st') = unmapped gc thr (\<Union>i \<in> set is. set (ls i)) F
    \<and> os_calls st' = rev (unmap_calls gc thr F (concat (map ls is))) @ os_calls st"
  using assms(1-3) unfolding F_def gc_def
proof (induction "is" arbitrary: st)
  case Nil
  then show ?case by (auto simp: unmapped_def relabels_def option.map_ident)
next
  case (Cons i "is")
  note inv = Cons.prems(1)
  define gc where "gc = GC_gc_no (hs st)"
  define F where "F = blocks (hs st)"
  have fuel: "length (ls i) < FL_FUEL" using heap_inv_lengths(3)[OF inv, of i] by (simp add: FL_FUEL_def)
  have i: "i \<le> N_HBLK_FLS" using Cons.prems by simp
  obtain st1 where st1: "unmap_old_list FL_FUEL st thr (GC_hblkfreelist st i) = Ret st1" "relabels L ls st st1"
    "blocks (hs st1) = unmapped gc thr (set (ls i)) F" "os_calls st1 = rev (unmap_calls gc thr F (ls i)) @ os_calls st"
    using unmap_old_list_ok[OF inv, of i "[]" "ls i", OF _ list_head[OF inv i] fuel] by (auto simp: gc_def F_def)
  have g: "heap_inv L st1 ls {} {}" "GC_gc_no (hs st1) = gc" using st1(2) frame_osD(2) by (auto simp: relabels_def gc_def)
  have dis: "set (ls i) \<inter> (\<Union>j \<in> set is. set (ls j)) = {}"
  proof -
    have "set (ls i) \<inter> set (ls j) = {}" if "j \<in> set is" for j
    proof -
      have "i \<noteq> j" using that Cons.prems(3) by auto
      then show ?thesis using heap_invD(3)[OF inv] unfolding lists_ok_def by blast
    qed
    then show ?thesis by blast
  qed
  obtain st' where st': "unmap_old_lists st1 thr is = Ret st'" "relabels L ls st1 st'"
    "blocks (hs st') = unmapped gc thr (\<Union>i \<in> set is. set (ls i)) (blocks (hs st1))"
    "os_calls st' = rev (unmap_calls gc thr (blocks (hs st1)) (concat (map ls is))) @ os_calls st1"
    using Cons.IH[OF g(1)] g(2) Cons.prems(2,3) by auto
  have "unmap_calls gc thr (blocks (hs st1)) (concat (map ls is)) = unmap_calls gc thr F (concat (map ls is))"
    unfolding st1(3) by (intro unmap_calls_cong unmapped_other) (use dis in auto)
  then show ?case
    using st1(1,4) st' relabels_trans[OF st1(2) st'(2)] unmapped_Un[OF dis, of gc thr F] by (simp add: gc_def F_def st1(3))
qed

lemma GC_unmap_old_spec:
  assumes inv: "heap_inv L st ls {} {}"
  obtains st' where "GC_unmap_old st threshold = Ret st'" "relabels L ls st st'"
    "\<And>h. blocks (hs st') h = map_option (\<lambda>r. if HBLK_IS_FREE r \<and> due (GC_gc_no (hs st)) (of_nat threshold) r
       then r\<lparr>hb_flags := hb_flags r OR WAS_UNMAPPED\<rparr> else r) (blocks (hs st) h)"
    "os_calls st' = rev (unmap_calls (GC_gc_no (hs st)) (of_nat threshold) (blocks (hs st))
       (concat (map ls [0 ..< N_HBLK_FLS + 1]))) @ os_calls st"
proof -
  note result = that
  define S where "S = (\<Union>i \<in> set [0 ..< N_HBLK_FLS + 1]. set (ls i))"
  have "set [0 ..< N_HBLK_FLS + 1] \<subseteq> {.. N_HBLK_FLS}" by auto
  then obtain st' where st': "GC_unmap_old st threshold = Ret st'" "relabels L ls st st'"
    "blocks (hs st') = unmapped (GC_gc_no (hs st)) (of_nat threshold) S (blocks (hs st))"
    "os_calls st' = rev (unmap_calls (GC_gc_no (hs st)) (of_nat threshold) (blocks (hs st))
       (concat (map ls [0 ..< N_HBLK_FLS + 1]))) @ os_calls st"
    using unmap_old_lists_ok[OF inv, of "[0 ..< N_HBLK_FLS + 1]" "of_nat threshold"] distinct_upt
    unfolding GC_unmap_old_def S_def by blast
  have S: "h \<in> S \<longleftrightarrow> HBLK_IS_FREE r" if h: "blocks (hs st) h = Some r" for h r
  proof
    assume "h \<in> S"
    then show "HBLK_IS_FREE r" using heap_invD(5)[OF inv, of h] h by (auto simp: S_def)
  next
    assume "HBLK_IS_FREE r"
    then show "h \<in> S" unfolding S_def using free_listed[OF inv h] by blast
  qed
  show thesis
    by (rule result[OF st'(1,2) _ st'(4)]) (auto simp: st'(3) unmapped_def S intro!: option.map_cong)
qed

section \<open>Merging and unmapping are correct\<close>

text \<open>
  C4: \<open>GC_merge_unmapped\<close> returns, keeps the invariant of the heap, the blocks in use, the bytes that
  are free and the counters of free bytes. Afterwards no two free blocks are neighbours unless
  their joint size has the sign bit, and if it reports that nothing was merged, the state is
  what it was.
\<close>

theorem GC_merge_unmapped_correct:
  assumes inv: "heap_inv L st ls {} {}"
  shows "\<exists>m st' ls'. GC_merge_unmapped st = Ret (m, st') \<and> heap_inv L st' ls' {} {}
    \<and> keeps_used (blocks (hs st)) (blocks (hs st')) \<and> free_area (blocks (hs st')) = free_area (blocks (hs st))
    \<and> fl_total st' = fl_total st \<and> GC_large_free_bytes st' = GC_large_free_bytes st \<and> (\<not> m \<longrightarrow> st' = st)
    \<and> (\<forall>h r n. blocks (hs st') h = Some r \<longrightarrow> HBLK_IS_FREE r \<longrightarrow> blocks (hs st') (h + ext r) = Some n \<longrightarrow> HBLK_IS_FREE n
         \<longrightarrow> 2 ^ 63 \<le> ext r + ext n)"
proof -
  obtain m st' ls' where m: "GC_merge_unmapped st = Ret (m, st')" "heap_inv L st' ls' {} {}" "merges st st'"
    "\<not> m \<Longrightarrow> st' = st" "\<And>h r n. blocks (hs st') h = Some r \<Longrightarrow> HBLK_IS_FREE r \<Longrightarrow>
       blocks (hs st') (h + ext r) = Some n \<Longrightarrow> HBLK_IS_FREE n \<Longrightarrow> 2 ^ 63 \<le> ext r + ext n"
    using GC_merge_unmapped_spec[OF inv] by blast
  note M = m(3)[unfolded merges_def]
  show ?thesis using m(1,2,4,5) M frame_osD(1)[OF conjunct1[OF M]] by blast
qed

text \<open>
  C5: if \<open>GC_merge_free_blocks_for_alloc\<close> succeeds, the heap keeps its invariant, its blocks in use
  and its free bytes, and has a free block that is large enough for the request including the
  padding its alignment needs. If it fails, it has changed nothing, and no free block that is too
  small for the request by itself begins a run of neighbouring free blocks that is large enough,
  where the blocks of the run can be merged with the first one (their sizes together stay below
  \<open>2 ^ 63\<close>). Blocks that are large enough by themselves are passed over, with the runs they begin.
\<close>

theorem GC_merge_free_blocks_for_alloc_correct:
  assumes inv: "heap_inv L st ls {} {}" and sz: "size_needed + align_m1 < 2 ^ 64"
  shows "\<exists>m st'. GC_merge_free_blocks_for_alloc st size_needed align_m1 = Ret (m, st')
    \<and> (if m then (\<exists>ls'. heap_inv L st' ls' {} {}) \<and> keeps_used (blocks (hs st)) (blocks (hs st'))
            \<and> free_area (blocks (hs st')) = free_area (blocks (hs st)) \<and> fl_total st' = fl_total st
            \<and> (\<exists>b r. blocks (hs st') b = Some r \<and> HBLK_IS_FREE r \<and> size_needed + ALIGN_PAD_SZ b align_m1 \<le> ext r)
       else st' = st \<and> (\<forall>h r xs. blocks (hs st) h = Some r \<longrightarrow> HBLK_IS_FREE r \<longrightarrow>
            ext r < size_needed + ALIGN_PAD_SZ h align_m1 \<longrightarrow> free_run (blocks (hs st)) (h + ext r) xs \<longrightarrow>
            (\<forall>x \<in> set xs. ext r + x < 2 ^ 63) \<longrightarrow> ext r + sum_list xs < size_needed + ALIGN_PAD_SZ h align_m1))"
proof (cases rule: GC_merge_free_blocks_for_alloc_spec[OF inv sz])
  case (1 st' ls' b r)
  then show ?thesis unfolding merges_def by (intro exI[of _ True] exI[of _ st']) auto
next
  case 2
  show ?thesis
  proof (intro exI[of _ False] exI[of _ st] conjI, goal_cases)
    case 2
    then show ?case using \<open>\<And>h r. blocks (hs st) h = Some r \<Longrightarrow> HBLK_IS_FREE r \<Longrightarrow> no_run (blocks (hs st)) size_needed align_m1 h\<close>
      unfolding no_run_def by simp
  qed (rule 2)
qed

text \<open>
  C6: \<open>GC_unmap_old\<close> marks as unmapped exactly the free blocks that are mapped and whose age, the
  number of collections modulo \<open>2\<^sup>1\<^sup>6\<close> since they were freed, is at least the threshold, and
  calls \<open>GC_unmap\<close> once for each of them in the order of the lists. Lists, counters and the
  invariant of the heap stay as they are.
\<close>

theorem GC_unmap_old_correct:
  assumes inv: "heap_inv L st ls {} {}"
  shows "\<exists>st'. GC_unmap_old st threshold = Ret st' \<and> heap_inv L st' ls {} {}
    \<and> GC_hblkfreelist st' = GC_hblkfreelist st \<and> GC_free_bytes st' = GC_free_bytes st
    \<and> (\<forall>h. blocks (hs st') h = map_option (\<lambda>r. if HBLK_IS_FREE r \<and> due (GC_gc_no (hs st)) (of_nat threshold) r
         then r\<lparr>hb_flags := hb_flags r OR WAS_UNMAPPED\<rparr> else r) (blocks (hs st) h))
    \<and> os_calls st' = rev (unmap_calls (GC_gc_no (hs st)) (of_nat threshold) (blocks (hs st))
         (concat (map ls [0 ..< N_HBLK_FLS + 1]))) @ os_calls st"
proof -
  obtain st' where st': "GC_unmap_old st threshold = Ret st'" "relabels L ls st st'"
    "\<And>h. blocks (hs st') h = map_option (\<lambda>r. if HBLK_IS_FREE r \<and> due (GC_gc_no (hs st)) (of_nat threshold) r
       then r\<lparr>hb_flags := hb_flags r OR WAS_UNMAPPED\<rparr> else r) (blocks (hs st) h)"
    "os_calls st' = rev (unmap_calls (GC_gc_no (hs st)) (of_nat threshold) (blocks (hs st))
       (concat (map ls [0 ..< N_HBLK_FLS + 1]))) @ os_calls st"
    by (rule GC_unmap_old_spec[OF inv, of threshold]) (rule that)
  show ?thesis
  proof (intro exI[of _ st'] conjI allI)
    show "heap_inv L st' ls {} {}" "GC_hblkfreelist st' = GC_hblkfreelist st" "GC_free_bytes st' = GC_free_bytes st"
      using st'(2) by (simp_all add: relabels_def)
  qed (rule st')+
qed

theorem GC_merge_unmapped_correct_witness:
  "\<exists>m st'. GC_merge_unmapped heap_ex = Ret (m, st') \<and> blocks (hs st') 20480 = Some (hdr_of 20480 8192 0)
     \<and> GC_large_free_bytes st' = 8192"
proof -
  have "blocks hdr_ex 20480 = Some (hdr_of 20480 8192 0)" by (simp add: blocks_ex)
  then show ?thesis using GC_merge_unmapped_correct[OF heap_ex_inv] hdr_of_free
    unfolding keeps_used_def by (fastforce simp: heap_ex_def bl_ex_def)
qed

text \<open>
  A fragmented heap: free blocks of three and two blocks next to each other, on the lists of their sizes.
  The entries of blocks 5 and 8 of the index are those of the example before; block 6 has none.
\<close>

definition frag_hdrs :: hdr_state where
  "frag_hdrs = (case SET_HDR hdr_ex 24576 0 of Ret s \<Rightarrow> s\<lparr>hdr_mem := (hdr_mem s)(200000 := hdr_of 20480 12288 FREE_BLK)\<rparr>
     | _ \<Rightarrow> hdr_ex)"

definition frag_ex :: heap_state where
  "frag_ex = heap_ex\<lparr>bls := bl_ex\<lparr>bl_hdrs := frag_hdrs\<rparr>, GC_hblkfreelist := (\<lambda>_. 0)(2 := 32768, 3 := 20480),
     GC_free_bytes := (\<lambda>_. 0)(2 := 8192, 3 := 12288), GC_large_free_bytes := 20480\<rparr>"

definition frag_ls :: "nat \<Rightarrow> nat list" where
  "frag_ls = (\<lambda>_. [])(2 := [32768], 3 := [20480])"

lemma frag_fields: "hs frag_ex = frag_hdrs" "GC_hblkfreelist frag_ex = (\<lambda>_. 0)(2 := 32768, 3 := 20480)"
  "GC_free_bytes frag_ex = (\<lambda>_. 0)(2 := 8192, 3 := 12288)"
  by (simp_all add: frag_ex_def)

lemma frag_hdrs_ok:
  "hm 65536 frag_hdrs" "HDR frag_hdrs q = (if q div 4096 = 5 then 200000 else if q div 4096 = 8 then 200200 else 0)"
  "hdr_mem frag_hdrs 200000 = hdr_of 20480 12288 FREE_BLK" "hdr_mem frag_hdrs 200200 = hdr_of 32768 8192 FREE_BLK"
proof -
  have idx: "indexed hdr_ex 24576"
    unfolding indexed_iff[OF hdr_ex_ht] by (simp add: has_index_def hi_of_def gc_consts) (simp add: hdr_ex_def zero_bi_def)
  obtain s where s: "SET_HDR hdr_ex 24576 0 = Ret s" "hdr_inv 65536 s {100000 ..< 250000} [110000] []"
    "\<And>q. HDR s q = (if q div BLK = 24576 div BLK then 0 else HDR hdr_ex q)" "same_rest hdr_ex s"
    by (rule SET_HDR_inv[OF hdr_ex_inv idx, of 0]) (simp, rule that)
  note f = frag_hdrs_def[unfolded s(1) outcome.case]
  show "hm 65536 frag_hdrs" unfolding f hm_def using hdr_mem_upd_inv(1)[OF s(2), of 200000] by auto
  show "HDR frag_hdrs q = (if q div 4096 = 5 then 200000 else if q div 4096 = 8 then 200200 else 0)"
    unfolding f HDR_set_hdr_mem s(3) hdr_ex_HDR by (simp add: BLK_def)
  have "hdr_mem s = hdr_mem hdr_ex" using s(4) by (simp add: same_rest_def)
  then show "hdr_mem frag_hdrs 200000 = hdr_of 20480 12288 FREE_BLK" "hdr_mem frag_hdrs 200200 = hdr_of 32768 8192 FREE_BLK"
    unfolding f by (simp_all add: hdr_ex_def)
qed

lemma frag_blocks: "blocks frag_hdrs = [20480 \<mapsto> hdr_of 20480 12288 FREE_BLK, 32768 \<mapsto> hdr_of 32768 8192 FREE_BLK]"
proof
  fix h
  have "h div 4096 = 5 \<longleftrightarrow> h = 20480" "h div 4096 = 8 \<longleftrightarrow> h = 32768" if "BLK dvd h"
    using that by (auto simp: BLK_def elim: dvdE)
  moreover have "BLK dvd 20480" "BLK dvd 32768" "MAX_JUMP < 200000" "MAX_JUMP < 200200" by (simp_all add: gc_consts)
  ultimately show "blocks frag_hdrs h = [20480 \<mapsto> hdr_of 20480 12288 FREE_BLK, 32768 \<mapsto> hdr_of 32768 8192 FREE_BLK] h"
    by (cases "BLK dvd h") (auto simp: blocks_def frag_hdrs_ok(2-4))
qed

lemma frag_ext: "ext (hdr_of b 12288 FREE_BLK) = 12288" "fl_class (hdr_of b 12288 FREE_BLK) = 3" "fl_class (hdr_of b 8192 FREE_BLK) = 2"
  by (simp_all add: ext_free hdr_of_free) (simp_all add: hdr_of_def GC_hblk_fl_from_blocks_def gc_consts)

lemma frag_cases:
  assumes "blocks frag_hdrs h = Some r"
  obtains "h = 20480" "r = hdr_of 20480 12288 FREE_BLK" | "h = 32768" "r = hdr_of 32768 8192 FREE_BLK"
  using assms unfolding frag_blocks by (auto split: if_splits)

lemma frag_parts: "heap_parts frag_hdrs"
  unfolding parts_in_def
proof (intro conjI allI impI)
  fix h r assume b: "blocks frag_hdrs h = Some r"
  show "blk_ok h r"
    using b by (cases rule: frag_cases) (simp_all add: blk_ok_def hdr_of_ext frag_ext BLK_def, simp_all add: hdr_of_def)
  show "h + ext r \<le> 2 ^ 64" using b by (cases rule: frag_cases) (simp_all add: hdr_of_ext frag_ext)
next
  fix h r h' r' assume "blocks frag_hdrs h = Some r" "blocks frag_hdrs h' = Some r'" "h < h'"
  then show "h + ext r \<le> h'" by (auto elim!: frag_cases simp: hdr_of_ext frag_ext)
next
  fix h r q assume b: "blocks frag_hdrs h = Some r" and q: "BLK dvd q" "h < q" "q < h + ext r"
  obtain k where k: "q = k * 4096" using q(1) by (auto simp: BLK_def elim: dvdE)
  from b have "k \<noteq> 5 \<and> k \<noteq> 8 \<and> HBLK_IS_FREE r"
    by (cases rule: frag_cases) (use q k in \<open>auto simp: hdr_of_ext frag_ext hdr_of_free\<close>)
  then show "HDR frag_hdrs q = (if HBLK_IS_FREE r then 0 else min ((q - h) div BLK) MAX_JUMP)"
    using k by (simp add: frag_hdrs_ok(2))
next
  fix q assume q: "BLK dvd q" "HDR frag_hdrs q \<noteq> 0"
  obtain k where k: "q = k * 4096" using q(1) by (auto simp: BLK_def elim: dvdE)
  then have "k = 5 \<or> k = 8" using q(2) by (auto simp: frag_hdrs_ok(2) split: if_splits)
  then show "\<exists>h r. blocks frag_hdrs h = Some r \<and> 0 \<le> h \<and> h \<le> q \<and> q < h + ext r"
    unfolding frag_blocks k by (auto simp: hdr_of_ext frag_ext intro!: exI[of _ "k * 4096"])
qed

lemma frag_inv: "heap_inv 65536 frag_ex frag_ls {} {}"
proof -
  have "seg (blocks frag_hdrs) 0 32768 [32768] 0" "seg (blocks frag_hdrs) 0 20480 [20480] 0"
    by (simp_all add: frag_blocks hdr_of_def)
  moreover have "list_bytes (blocks frag_hdrs) [32768] = 8192" "list_bytes (blocks frag_hdrs) [20480] = 12288"
    by (simp_all add: list_bytes_def frag_blocks hdr_of_def)
  ultimately have "lists_ok (blocks frag_hdrs) (GC_hblkfreelist frag_ex) (GC_free_bytes frag_ex) frag_ls"
    unfolding frag_fields by (auto simp: lists_ok_def frag_ls_def gc_consts list_bytes_def)
  moreover have listed: "listed frag_ls = {20480, 32768}"
    by (auto simp: listed_def frag_ls_def split: if_splits intro!: exI[of _ 2])
  moreover have "h \<in> listed frag_ls" if "blocks frag_hdrs h = Some r" for h r
    using that listed by (cases rule: frag_cases) simp_all
  moreover have "\<exists>r. blocks frag_hdrs h = Some r \<and> HBLK_IS_FREE r \<and> fl_class r = i" if "h \<in> set (frag_ls i)" for h i
    using that frag_ext by (auto simp: frag_ls_def frag_blocks hdr_of_free split: if_splits)
  ultimately show ?thesis
    using frag_hdrs_ok(1) frag_parts unfolding heap_inv_def inv_on_def frag_fields(1) by auto
qed

theorem GC_merge_free_blocks_for_alloc_correct_witness:
  "GC_merge_free_blocks_for_alloc heap_ex 12288 4095 = Ret (False, heap_ex)
   \<and> (\<exists>st' b r. GC_merge_free_blocks_for_alloc frag_ex 16384 4095 = Ret (True, st')
        \<and> blocks (hs st') b = Some r \<and> HBLK_IS_FREE r \<and> 16384 \<le> ext r
        \<and> free_area (blocks (hs st')) = free_area (blocks (hs frag_ex)))"
proof
  have F: "free_area (blocks (hs heap_ex)) \<subseteq> {32768 ..< 40960}"
    by (auto simp: free_area_def hdr_of_free hdr_of_ext elim!: blocks_ex_cases)
  have "\<not> 12288 \<le> ext r" if s: "free_area (blocks s) \<subseteq> {32768 ..< 40960}" "blocks s b = Some r" "HBLK_IS_FREE r" for s b r
  proof
    assume big: "12288 \<le> ext r"
    have "b \<in> free_area (blocks s)" "b + 12287 \<in> free_area (blocks s)"
      using big by (auto intro!: free_areaI[of "blocks s" b r] s)
    then have "b \<in> {32768 ..< 40960}" "b + 12287 \<in> {32768 ..< 40960}" using s(1) by blast+
    then show False by simp
  qed
  note no = this[of "hs s" for s]
  obtain m st' where m: "GC_merge_free_blocks_for_alloc heap_ex 12288 4095 = Ret (m, st')"
    "m \<Longrightarrow> free_area (blocks (hs st')) = free_area (blocks (hs heap_ex))
       \<and> (\<exists>b r. blocks (hs st') b = Some r \<and> HBLK_IS_FREE r \<and> 12288 + ALIGN_PAD_SZ b 4095 \<le> ext r)"
    "\<not> m \<Longrightarrow> st' = heap_ex"
    using GC_merge_free_blocks_for_alloc_correct[OF heap_ex_inv, of 12288 4095] by (auto split: if_splits)
  have "\<not> m" using m(2) no[of st'] F by (metis add_leE)
  then show "GC_merge_free_blocks_for_alloc heap_ex 12288 4095 = Ret (False, heap_ex)" using m(1,3) by simp
next
  have sz: "16384 + 4095 < (2 :: nat) ^ 64" by simp
  have f: "blocks (hs frag_ex) 20480 = Some (hdr_of 20480 12288 FREE_BLK)" "HBLK_IS_FREE (hdr_of 20480 12288 FREE_BLK)"
    "ALIGN_PAD_SZ 20480 4095 = 0" "free_run (blocks (hs frag_ex)) (20480 + 12288) [8192]"
    by (simp_all add: frag_fields frag_blocks hdr_of_free hdr_of_ext, simp add: ALIGN_PAD_SZ_def)
  obtain m st' where m: "GC_merge_free_blocks_for_alloc frag_ex 16384 4095 = Ret (m, st')"
    "m \<Longrightarrow> free_area (blocks (hs st')) = free_area (blocks (hs frag_ex))
       \<and> (\<exists>b r. blocks (hs st') b = Some r \<and> HBLK_IS_FREE r \<and> 16384 + ALIGN_PAD_SZ b 4095 \<le> ext r)"
    "\<not> m \<Longrightarrow> \<forall>h r xs. blocks (hs frag_ex) h = Some r \<longrightarrow> HBLK_IS_FREE r \<longrightarrow>
            ext r < 16384 + ALIGN_PAD_SZ h 4095 \<longrightarrow> free_run (blocks (hs frag_ex)) (h + ext r) xs \<longrightarrow>
            (\<forall>x \<in> set xs. ext r + x < 2 ^ 63) \<longrightarrow> ext r + sum_list xs < 16384 + ALIGN_PAD_SZ h 4095"
    using GC_merge_free_blocks_for_alloc_correct[OF frag_inv sz]
    by (elim exE conjE) (rule that, assumption, simp_all only: if_True if_False simp_thms, erule conjunct2)
  have m
  proof (rule ccontr)
    assume "\<not> m"
    from m(3)[OF this, rule_format, OF f(1,2), of "[8192]"] show False using f(3,4) by (simp add: frag_ext)
  qed
  then obtain b r where "blocks (hs st') b = Some r" "HBLK_IS_FREE r" "16384 + ALIGN_PAD_SZ b 4095 \<le> ext r"
    "free_area (blocks (hs st')) = free_area (blocks (hs frag_ex))" using m(2) by blast
  moreover have "GC_merge_free_blocks_for_alloc frag_ex 16384 4095 = Ret (True, st')" using m(1) \<open>m\<close> by simp
  ultimately show "\<exists>st' b r. GC_merge_free_blocks_for_alloc frag_ex 16384 4095 = Ret (True, st')
        \<and> blocks (hs st') b = Some r \<and> HBLK_IS_FREE r \<and> 16384 \<le> ext r
        \<and> free_area (blocks (hs st')) = free_area (blocks (hs frag_ex))"
    by (intro exI[of _ st'] exI[of _ b] exI[of _ r]) simp
qed

theorem GC_unmap_old_correct_witness:
  "\<exists>st'. GC_unmap_old heap_ex 3 = Ret st' \<and> os_calls st' = [GC_unmap 32768 8192]"
proof -
  have l: "concat (map ls_ex [0 ..< N_HBLK_FLS + 1]) = [32768]"
    by (simp add: ls_ex_def gc_consts upt_rec)
  show ?thesis
    using GC_unmap_old_correct[OF heap_ex_inv, of 3] unfolding l
    by (auto simp: blocks_ex hdr_of_free IS_MAPPED_def due_def) (auto simp: hdr_of_def heap_ex_def FREE_BLK_def WAS_UNMAPPED_def bl_ex_def hdr_ex_def)
qed

end
