(* ===== verification/Hblk_Setup.thy ===== *)
theory Hblk_Setup
  imports Hblk_Merge
begin

text \<open>
  The header of a block that is being allocated: clearing the mark bits (\<^verbatim>\<open>mark.c\<close>), the tables that
  map displacements to object starts (\<^verbatim>\<open>new_hblk.c\<close>) and \<open>setup_header\<close> (\<^verbatim>\<open>allchblk.c\<close>).
\<close>

section \<open>Mark bits\<close>

definition MAXOBJBYTES :: nat where [gc_consts]: "MAXOBJBYTES = BLK div 2"
definition MAXOBJGRANULES :: nat where [gc_consts]: "MAXOBJGRANULES = MAXOBJBYTES div GC_GRANULE_BYTES"
definition OBJ_MAP_LEN :: nat where [gc_consts]: "OBJ_MAP_LEN = BLK div GC_GRANULE_BYTES"
definition MARK_BITS_PER_HBLK :: nat where [gc_consts]: "MARK_BITS_PER_HBLK = BLK div GC_GRANULE_BYTES"

definition HBLK_OBJS :: "nat \<Rightarrow> nat" where
  "HBLK_OBJS sz_in_bytes = BLK div sz_in_bytes"

definition FINAL_MARK_BIT :: "nat \<Rightarrow> nat" where
  "FINAL_MARK_BIT sz = (if sz > MAXOBJBYTES then MARK_BITS_PER_HBLK else HBLK_OBJS sz * sz div GC_GRANULE_BYTES)"

definition mark_bit_from_hdr :: "hdr \<Rightarrow> nat \<Rightarrow> bool" where
  "mark_bit_from_hdr hhdr n = (drop_bit (n mod 64) (hb_marks hhdr (n div 64)) AND 1 \<noteq> 0)"

definition set_mark_bit_from_hdr :: "hdr \<Rightarrow> nat \<Rightarrow> hdr" where
  "set_mark_bit_from_hdr hhdr n =
     hhdr\<lparr>hb_marks := (hb_marks hhdr)(n div 64 := hb_marks hhdr (n div 64) OR push_bit (n mod 64) 1)\<rparr>"

definition GC_clear_hdr_marks :: "hdr \<Rightarrow> hdr" where
  "GC_clear_hdr_marks hhdr =
     (let last_bit = FINAL_MARK_BIT (hb_sz hhdr)
      in (set_mark_bit_from_hdr (hhdr\<lparr>hb_marks := (\<lambda>_. 0)\<rparr>) last_bit)\<lparr>hb_n_marks := 0\<rparr>)"

section \<open>Object maps\<close>

text \<open>Entry \<open>displ\<close> of the table for objects of \<open>lg\<close> granules is the offset from the object that contains it.\<close>

definition GC_add_map_entry :: "heap_state \<Rightarrow> nat \<Rightarrow> bool \<times> heap_state" where
  "GC_add_map_entry st lg =
     (let lg = (if lg > MAXOBJGRANULES then 0 else lg)
      in if GC_obj_map st lg \<noteq> 0 then (True, st)
         else
           let (new_map, s) = GC_scratch_alloc (hs st) OBJ_MAP_LEN;
               st = set_hs st s
           in if new_map = 0 then (False, st)
              else (True, st\<lparr>obj_map_mem := (obj_map_mem st)(new_map := (\<lambda>displ.
                        if displ < OBJ_MAP_LEN then if lg = 0 then 1 else displ mod lg
                        else obj_map_mem st new_map displ)),
                      GC_obj_map := (GC_obj_map st)(lg := new_map)\<rparr>))"

section \<open>Setting up the header\<close>

definition HAS_DISCLAIM :: "32 word" where "HAS_DISCLAIM = 8"
definition MARK_UNCONDITIONALLY :: "32 word" where "MARK_UNCONDITIONALLY = 0x10"
definition LARGE_BLOCK :: "32 word" where "LARGE_BLOCK = 0x20"
definition IGNORE_OFF_PAGE :: "32 word" where "IGNORE_OFF_PAGE = 1"

definition setup_header :: "heap_state \<Rightarrow> nat \<Rightarrow> nat \<Rightarrow> nat \<Rightarrow> nat \<Rightarrow> 32 word \<Rightarrow> bool \<times> heap_state" where
  "setup_header st hhdr block lb_adjusted kind flags =
     (let flags = (if lb_adjusted > MAXOBJBYTES then flags OR LARGE_BLOCK else flags);
          ok = GC_obj_kinds st kind;
          flags = (if ok_disclaim_proc ok then flags OR HAS_DISCLAIM else flags);
          flags = (if ok_mark_unconditionally ok then flags OR MARK_UNCONDITIONALLY else flags);
          descr = ok_descriptor ok;
          descr = (if ok_relocate_descr ok then descr + of_nat lb_adjusted else descr);
          st = upd_hdr hhdr (\<lambda>r. r\<lparr>hb_sz := lb_adjusted, hb_obj_kind := of_nat kind, hb_flags := ucast flags,
                                   hb_block := block, hb_descr := descr\<rparr>) st;
          lg = lb_adjusted div GC_GRANULE_BYTES;
          (added, st) = GC_add_map_entry st lg
      in if \<not> added then
           (False, upd_hdr hhdr (\<lambda>r. r\<lparr>hb_sz := BLK, hb_descr := 0, hb_flags := hb_flags r OR ucast LARGE_BLOCK,
                                       hb_map := 0\<rparr>) st)
         else
           let st = upd_hdr hhdr (\<lambda>r. r\<lparr>hb_map := GC_obj_map st
                 (if hb_flags r AND ucast LARGE_BLOCK \<noteq> 0 then 0 else lg)\<rparr>) st;
               st = upd_hdr hhdr GC_clear_hdr_marks st
           in (True, upd_hdr hhdr (\<lambda>r. r\<lparr>hb_last_reclaimed := of_nat (GC_gc_no (hs st))\<rparr>) st))"

section \<open>Installing headers and counts\<close>

text \<open>The rest of the allocator's data stays as it is.\<close>

definition only_hdrs :: "heap_state \<Rightarrow> heap_state \<Rightarrow> bool" where
  "only_hdrs st st' \<longleftrightarrow> bls st' = (bls st)\<lparr>bl_hdrs := hs st'\<rparr> \<and> GC_gc_no (hs st') = GC_gc_no (hs st)
     \<and> GC_hblkfreelist st' = GC_hblkfreelist st \<and> GC_free_bytes st' = GC_free_bytes st
     \<and> GC_large_free_bytes st' = GC_large_free_bytes st \<and> GC_bytes_dropped st' = GC_bytes_dropped st
     \<and> GC_obj_kinds st' = GC_obj_kinds st"

lemma only_hdrs_refl [simp]: "only_hdrs st st"
  by (simp add: only_hdrs_def)

lemma only_hdrs_trans: "only_hdrs a b \<Longrightarrow> only_hdrs b c \<Longrightarrow> only_hdrs a c"
proof -
  have "x\<lparr>bl_hdrs := t\<rparr> = y\<lparr>bl_hdrs := t\<rparr>" if "x = y\<lparr>bl_hdrs := s\<rparr>" for x y :: bl_state and s t
    using that by simp
  then show "only_hdrs a b \<Longrightarrow> only_hdrs b c \<Longrightarrow> only_hdrs a c" unfolding only_hdrs_def by metis
qed

lemma only_hdrs_set: "GC_gc_no s = GC_gc_no (hs st) \<Longrightarrow> only_hdrs st (set_hs st s)"
  by (simp add: only_hdrs_def set_hs_def)

lemma only_hdrs_upd [simp]: "only_hdrs st (upd_hdr a f st)"
  unfolding upd_hdr_def by (rule only_hdrs_set) simp

lemma install_header_ok:
  assumes hm: "hm L (hs st)" and h: "BLK dvd h" "h < 2 ^ 64" "HDR (hs st) h = 0"
  obtains a st' where "GC_install_header (hs st) h = Ret (a, hs st')" "st' = set_hs st (hs st')" "hm L (hs st')" "only_hdrs st st'"
    "os_use (hs st) (hs st') (a \<noteq> 0)" "a = 0 \<Longrightarrow> HDR (hs st') = HDR (hs st) \<and> blocks (hs st') = blocks (hs st)"
    "a \<noteq> 0 \<Longrightarrow> HDR (hs st') h = a \<and> (\<forall>q. BLK dvd q \<longrightarrow> q \<noteq> h \<longrightarrow> HDR (hs st') q = HDR (hs st) q)
       \<and> (\<exists>r. blocks (hs st') = (blocks (hs st))(h \<mapsto> r))"
proof -
  obtain U bs fs where inv: "hdr_inv L (hs st) U bs fs" using hm by (auto simp: hm_def)
  obtain a s U' bs' fs' where i: "GC_install_header (hs st) h = Ret (a, s)" "hdr_inv L s U' bs' fs'"
    "\<forall>q. HDR s q = (if a \<noteq> 0 \<and> q div BLK = h div BLK then a else HDR (hs st) q)"
    "a \<noteq> 0 \<longrightarrow> MAX_JUMP < a \<and> (\<forall>q. HDR (hs st) q \<noteq> a)"
    "hdr_mem s = (if a = 0 then hdr_mem (hs st) else (hdr_mem (hs st))(a :=
          (hdr_mem (hs st) a)\<lparr>hb_last_reclaimed := of_nat (GC_gc_no (hs st))\<rparr>))" "GC_gc_no s = GC_gc_no (hs st)"
    using GC_install_header_spec[OF inv h(2)] by blast
  have os: "os_use (hs st) s (a \<noteq> 0)" by (rule os_use_install_header[OF inv h(2) i(1)])
  have same: "HDR s = HDR (hs st) \<and> blocks s = blocks (hs st)" if "a = 0"
    using i(3,5) that by (auto simp: blocks_def fun_eq_iff)
  have new: "HDR s h = a \<and> (\<forall>q. BLK dvd q \<longrightarrow> q \<noteq> h \<longrightarrow> HDR s q = HDR (hs st) q)
       \<and> (\<exists>r. blocks s = (blocks (hs st))(h \<mapsto> r))" if a: "a \<noteq> 0"
  proof (intro conjI allI impI exI)
    show "HDR s h = a" using i(3) a by simp
    show HDR: "HDR s q = HDR (hs st) q" if "BLK dvd q" "q \<noteq> h" for q
      using i(3) aligned_div_eq[OF h(1) that(1)] that(2) by simp
    show "blocks s = (blocks (hs st))(h \<mapsto> hdr_mem s a)"
    proof
      fix q
      show "blocks s q = ((blocks (hs st))(h \<mapsto> hdr_mem s a)) q"
      proof (cases "q = h")
        case True
        then show ?thesis using \<open>HDR s h = a\<close> i(4) a h(1) by (simp add: blocks_def)
      next
        case False
        then have "blocks s q = blocks (hs st) q" using HDR[of q] i(4,5) a by (auto simp: blocks_def)
        then show ?thesis using False by simp
      qed
    qed
  qed
  show thesis
    by (rule that[of a "set_hs st s"]) (use i(1,2,6) os same new in \<open>auto simp: hm_def intro: only_hdrs_set\<close>)
qed

lemma install_counts_ok:
  assumes hm: "hm L (hs st)" and h: "BLK dvd h" "0 < sz" "BLK dvd sz" "h + sz + BLK \<le> 2 ^ 64"
    and none: "\<And>q. BLK dvd q \<Longrightarrow> h < q \<Longrightarrow> q < h + sz \<Longrightarrow> HDR (hs st) q = 0"
  obtains ok st' where "GC_install_counts (hs st) h sz = Ret (ok, hs st')" "st' = set_hs st (hs st')" "hm L (hs st')" "only_hdrs st st'"
    "os_use (hs st) (hs st') ok" "blocks (hs st') = blocks (hs st)" "\<not> ok \<Longrightarrow> HDR (hs st') = HDR (hs st)"
    "ok \<Longrightarrow> (\<forall>q. BLK dvd q \<longrightarrow> HDR (hs st') q = (if h < q \<and> q < h + sz then min ((q - h) div BLK) MAX_JUMP else HDR (hs st) q))"
proof -
  obtain U bs fs where inv: "hdr_inv L (hs st) U bs fs" using hm by (auto simp: hm_def)
  obtain ok s U' bs' where i: "GC_install_counts (hs st) h sz = Ret (ok, s)" "hdr_inv L s U' bs' fs"
    "\<forall>q. HDR s q = (if ok \<and> h div BLK < q div BLK \<and> q div BLK * BLK < h + sz
            then min (q div BLK - h div BLK) MAX_JUMP else HDR (hs st) q)"
    "hdr_mem s = hdr_mem (hs st)" "GC_gc_no s = GC_gc_no (hs st)"
    using GC_install_counts_spec[OF inv h(1,2,4)] by blast
  have os: "os_use (hs st) s ok" by (rule os_use_install_counts[OF inv h(2,4) i(1)])
  have HDR: "HDR s q = (if ok \<and> h < q \<and> q < h + sz then min ((q - h) div BLK) MAX_JUMP else HDR (hs st) q)" if q: "BLK dvd q" for q
  proof -
    have "h div BLK < q div BLK \<longleftrightarrow> h < q" "q div BLK * BLK = q" "q div BLK - h div BLK = (q - h) div BLK"
      using h(1) q by (auto simp: BLK_def elim!: dvdE)
    then show ?thesis using i(3) by auto
  qed
  have "blocks s q = blocks (hs st) q" for q
    using HDR[of q] none[of q] i(4) by (auto simp: blocks_def)
  then show thesis
    by (intro that[of ok "set_hs st s"]) (use i(1,2,5) os HDR in \<open>auto simp: hm_def i(3) intro: only_hdrs_set\<close>)
qed

lemma add_map_entry_ok:
  assumes hm: "hm L (hs st)" and add: "GC_add_map_entry st lg = (b, st')"
  shows "hm L (hs st')" "HDR (hs st') = HDR (hs st)" "hdr_mem (hs st') = hdr_mem (hs st)" "only_hdrs st st'"
    "os_use (hs st) (hs st') b"
proof -
  obtain U bs fs where inv: "hdr_inv L (hs st) U bs fs" using hm by (auto simp: hm_def)
  obtain r s where a: "GC_scratch_alloc (hs st) OBJ_MAP_LEN = (r, s)" by fastforce
  have n: "0 < ROUNDUP_GRANULE_SIZE OBJ_MAP_LEN" "ROUNDUP_GRANULE_SIZE OBJ_MAP_LEN \<le> 16 * BLK"
    by (simp_all add: ROUNDUP_GRANULE_SIZE_def SIZET_SAT_ADD_def gc_consts)
  note s = scratch_alloc_hdr_inv[OF inv n a] and os = os_use_scratch_alloc[OF inv n(1) a]
  have mem: "hdr_mem s = hdr_mem (hs st)" "GC_gc_no s = GC_gc_no (hs st)" using s(1) by (auto simp: same_index_def)
  have "hm L s" using s(5) by (auto simp: hm_def)
  note facts = \<open>hm L s\<close> s(3) mem os
  define lg' where "lg' = (if lg > MAXOBJGRANULES then 0 else lg)"
  have "hm L (hs st') \<and> HDR (hs st') = HDR (hs st) \<and> hdr_mem (hs st') = hdr_mem (hs st) \<and> only_hdrs st st'
    \<and> os_use (hs st) (hs st') b"
  proof (cases "GC_obj_map st lg' = 0")
    case False
    then show ?thesis using add hm by (simp add: GC_add_map_entry_def Let_def os_use_refl flip: lg'_def)
  next
    case True
    then have "b = (r \<noteq> 0)" "hs st' = s \<and> only_hdrs (set_hs st s) st'"
      using add a by (simp_all add: GC_add_map_entry_def Let_def flip: lg'_def split: if_splits) (auto simp: only_hdrs_def set_hs_def)
    then show ?thesis using facts only_hdrs_trans[OF only_hdrs_set[OF mem(2)]] by simp
  qed
  then show "hm L (hs st')" "HDR (hs st') = HDR (hs st)" "hdr_mem (hs st') = hdr_mem (hs st)" "only_hdrs st st'"
    "os_use (hs st) (hs st') b" by blast+
qed

lemma blocks_cong: "HDR s' = HDR s \<Longrightarrow> hdr_mem s' = hdr_mem s \<Longrightarrow> blocks s' = blocks s"
  by (simp add: blocks_def fun_eq_iff)

lemma mark_bit_iff: "mark_bit_from_hdr r n \<longleftrightarrow> bit (hb_marks r (n div 64)) (n mod 64)"
proof -
  have "drop_bit (n mod 64) (hb_marks r (n div 64)) AND 1 = of_bool (bit (hb_marks r (n div 64)) (n mod 64))"
    by (simp add: and_one_eq bit_iff_odd_drop_bit mod_2_eq_odd)
  then show ?thesis by (simp add: mark_bit_from_hdr_def)
qed

lemma clear_hdr_marks_bits: "mark_bit_from_hdr (GC_clear_hdr_marks r) n \<longleftrightarrow> n = FINAL_MARK_BIT (hb_sz r)"
proof -
  let ?l = "FINAL_MARK_BIT (hb_sz r)"
  have "n mod 64 = ?l mod 64 \<longleftrightarrow> n = ?l" if "n div 64 = ?l div 64"
    using that by (metis div_mult_mod_eq)
  then show ?thesis
    by (auto simp: mark_bit_iff GC_clear_hdr_marks_def set_mark_bit_from_hdr_def Let_def bit_simps)
qed

lemma clear_hdr_marks_fields [simp]:
  "hb_sz (GC_clear_hdr_marks r) = hb_sz r" "hb_flags (GC_clear_hdr_marks r) = hb_flags r"
  "hb_block (GC_clear_hdr_marks r) = hb_block r" "hb_descr (GC_clear_hdr_marks r) = hb_descr r"
  "hb_obj_kind (GC_clear_hdr_marks r) = hb_obj_kind r" "hb_n_marks (GC_clear_hdr_marks r) = 0"
  "hb_map (GC_clear_hdr_marks r) = hb_map r"
  by (simp_all add: GC_clear_hdr_marks_def set_mark_bit_from_hdr_def Let_def)

text \<open>The header of a block in use of the given size and kind, without marks.\<close>

definition new_hdr :: "heap_state \<Rightarrow> nat \<Rightarrow> nat \<Rightarrow> nat \<Rightarrow> hdr \<Rightarrow> bool" where
  "new_hdr st h lb kind r \<longleftrightarrow> hb_block r = h \<and> hb_sz r = lb \<and> hb_obj_kind r = of_nat kind \<and> hb_n_marks r = 0
     \<and> (\<forall>n. mark_bit_from_hdr r n \<longleftrightarrow> n = FINAL_MARK_BIT lb)
     \<and> hb_descr r = ok_descriptor (GC_obj_kinds st kind) + (if ok_relocate_descr (GC_obj_kinds st kind) then of_nat lb else 0)
     \<and> hb_last_reclaimed r = of_nat (GC_gc_no (hs st))"

lemma setup_header_ok:
  assumes hm: "hm L (hs st)" and h: "blocks (hs st) h = Some r" and flags: "\<not> bit flags 1" "\<not> bit flags 2"
  obtains b st' r' where "setup_header st (HDR (hs st) h) h lb kind flags = (b, st')" "hm L (hs st')" "HDR (hs st') = HDR (hs st)"
    "blocks (hs st') = (blocks (hs st))(h \<mapsto> r')" "hb_block r' = h" "hb_sz r' = (if b then lb else BLK)"
    "\<not> HBLK_IS_FREE r'" "IS_MAPPED r'" "b \<Longrightarrow> new_hdr st h lb kind r'" "only_hdrs st st'" "os_use (hs st) (hs st') b"
proof -
  note result = that
  define a where "a = HDR (hs st) h"
  define ok where "ok = GC_obj_kinds st kind"
  define f1 where "f1 = (if lb > MAXOBJBYTES then flags OR LARGE_BLOCK else flags)"
  define f2 where "f2 = (if ok_disclaim_proc ok then f1 OR HAS_DISCLAIM else f1)"
  define f3 where "f3 = (if ok_mark_unconditionally ok then f2 OR MARK_UNCONDITIONALLY else f2)"
  define d where "d = (if ok_relocate_descr ok then ok_descriptor ok + of_nat lb else ok_descriptor ok)"
  define g :: "hdr \<Rightarrow> hdr" where "g = (\<lambda>r. r\<lparr>hb_sz := lb, hb_obj_kind := of_nat kind, hb_flags := ucast f3, hb_block := h, hb_descr := d\<rparr>)"
  define st1 where "st1 = upd_hdr a g st"
  obtain b st2 where add: "GC_add_map_entry st1 (lb div GC_GRANULE_BYTES) = (b, st2)" by fastforce
  note u1 = upd_hdr_ok[OF hm h a_def, of g, folded st1_def]
  note m = add_map_entry_ok[OF u1(1) add]
  have HDR: "HDR (hs st2) = HDR (hs st)" using m(2) by (auto simp: st1_def)
  have b2: "blocks (hs st2) = (blocks (hs st))(h \<mapsto> g r)" using blocks_cong[OF m(2,3)] u1(2) by simp
  have a2: "a = HDR (hs st2) h" "blocks (hs st2) h = Some (g r)" using HDR b2 by (simp_all add: a_def)
  have os: "os_use (hs st) (hs st2) b" using m(5) by (auto simp: st1_def os_use_def)
  have only: "only_hdrs st st2" using only_hdrs_trans[OF only_hdrs_upd m(4)[unfolded st1_def]] .
  have gc: "GC_gc_no (hs st2) = GC_gc_no (hs st)" using only by (simp add: only_hdrs_def)
  have bits: "\<not> bit (ucast f3 :: 8 word) 1" "\<not> bit (ucast f3 :: 8 word) 2"
    using flags by (simp_all add: f3_def f2_def f1_def bit_simps LARGE_BLOCK_def HAS_DISCLAIM_def MARK_UNCONDITIONALLY_def)
  show thesis
  proof (cases b)
    case False
    define g2 :: "hdr \<Rightarrow> hdr" where "g2 = (\<lambda>r. r\<lparr>hb_sz := BLK, hb_descr := 0, hb_flags := hb_flags r OR ucast LARGE_BLOCK, hb_map := 0\<rparr>)"
    note u2 = upd_hdr_ok[OF m(1) a2(2,1), of g2]
    have run: "setup_header st a h lb kind flags = (False, upd_hdr a g2 st2)"
      using add False unfolding setup_header_def Let_def g2_def st1_def g_def f3_def f2_def f1_def d_def ok_def by simp
    show thesis
    proof (rule result[OF run[unfolded a_def] u2(1)[unfolded a_def]])
      show "blocks (hs (upd_hdr (HDR (hs st) h) g2 st2)) = (blocks (hs st))(h \<mapsto> g2 (g r))"
        using u2(2) b2 by (simp add: a_def)
      show "\<not> HBLK_IS_FREE (g2 (g r))" "IS_MAPPED (g2 (g r))"
        using bits by (simp_all add: free_flag_iff mapped_flag_iff g2_def g_def bit_simps LARGE_BLOCK_def)
      show "only_hdrs st (upd_hdr (HDR (hs st) h) g2 st2)" by (rule only_hdrs_trans[OF only only_hdrs_upd])
      show "os_use (hs st) (hs (upd_hdr (HDR (hs st) h) g2 st2)) False" using os False by (simp add: os_use_def)
    qed (use HDR in \<open>auto simp: g2_def g_def\<close>)
  next
    case True
    define k :: "hdr \<Rightarrow> hdr" where "k = (\<lambda>r. r\<lparr>hb_map := GC_obj_map st2 (if hb_flags r AND ucast LARGE_BLOCK \<noteq> 0 then 0 else lb div GC_GRANULE_BYTES)\<rparr>)"
    define l :: "hdr \<Rightarrow> hdr" where "l = (\<lambda>r. r\<lparr>hb_last_reclaimed := of_nat (GC_gc_no (hs st))\<rparr>)"
    define st3 where "st3 = upd_hdr a k st2"
    define st4 where "st4 = upd_hdr a GC_clear_hdr_marks st3"
    define st5 where "st5 = upd_hdr a l st4"
    note u3 = upd_hdr_ok[OF m(1) a2(2,1), of k, folded st3_def]
    have a3: "a = HDR (hs st3) h" "blocks (hs st3) h = Some (k (g r))" using a2 u3(2) by (simp_all add: st3_def)
    note u4 = upd_hdr_ok[OF u3(1) a3(2,1), of GC_clear_hdr_marks, folded st4_def]
    have a4: "a = HDR (hs st4) h" "blocks (hs st4) h = Some (GC_clear_hdr_marks (k (g r)))" using a3 u4(2) by (simp_all add: st4_def)
    note u5 = upd_hdr_ok[OF u4(1) a4(2,1), of l, folded st5_def]
    have gc4: "GC_gc_no (hs st4) = GC_gc_no (hs st)" using gc by (simp add: st4_def st3_def)
    have run: "setup_header st a h lb kind flags = (True, st5)"
      using add True gc4 unfolding setup_header_def Let_def st5_def l_def st4_def st3_def k_def st1_def g_def f3_def f2_def f1_def d_def ok_def by simp
    define r' where "r' = l (GC_clear_hdr_marks (k (g r)))"
    have sz: "hb_sz (k (g r)) = lb" by (simp add: k_def g_def)
    have flags': "hb_flags r' = ucast f3" by (simp add: r'_def l_def k_def g_def)
    show thesis
    proof (rule result[OF run[unfolded a_def] u5(1)])
      show "blocks (hs st5) = (blocks (hs st))(h \<mapsto> r')" using u5(2) u4(2) u3(2) b2 by (simp add: r'_def)
      show "HDR (hs st5) = HDR (hs st)" using HDR by (auto simp: st5_def st4_def st3_def)
      show "\<not> HBLK_IS_FREE r'" "IS_MAPPED r'" using bits flags' by (simp_all add: free_flag_iff mapped_flag_iff)
      show "only_hdrs st st5" unfolding st5_def st4_def st3_def
        by (intro only_hdrs_trans[OF only_hdrs_trans[OF only_hdrs_trans[OF only only_hdrs_upd] only_hdrs_upd] only_hdrs_upd])
      show "os_use (hs st) (hs st5) True" using os True by (simp add: os_use_def st5_def st4_def st3_def)
      have "mark_bit_from_hdr r' n = mark_bit_from_hdr (GC_clear_hdr_marks (k (g r))) n" for n
        by (simp add: r'_def l_def mark_bit_from_hdr_def)
      then show "new_hdr st h lb kind r'"
        by (simp add: new_hdr_def clear_hdr_marks_bits sz) (simp add: r'_def l_def k_def g_def d_def ok_def)
    qed (simp_all add: r'_def l_def k_def g_def)
  qed
qed

end
