(* ===== verification/Hblk_Take.thy ===== *)
theory Hblk_Take
  imports Hblk_Setup
begin

text \<open>
  Taking the first part of a free heap block (\<^verbatim>\<open>allchblk.c\<close>): \<open>GC_get_first_part\<close> and the second half of
  \<open>GC_allochblk_nth\<close>, which makes the part a block in use.
\<close>

section \<open>Taking a part of a block\<close>

definition on_hdrs_res :: "heap_state \<Rightarrow> (hdr_state \<Rightarrow> ('a \<times> hdr_state) outcome) \<Rightarrow> ('a \<times> heap_state) outcome" where
  "on_hdrs_res st f = obind (f (hs st)) (\<lambda>(r, s). Ret (r, set_hs st s))"

definition GC_get_first_part :: "heap_state \<Rightarrow> nat \<Rightarrow> nat \<Rightarrow> nat \<Rightarrow> nat \<Rightarrow> (nat \<times> heap_state) outcome" where
  "GC_get_first_part st h hhdr size_needed index =
     (let total_size = hb_sz (hdr_at st hhdr)
      in obind (GC_remove_from_fl_at st hhdr index) (\<lambda>st.
        if total_size = size_needed then Ret (h, st)
        else
          let rest = h + size_needed
          in obind (on_hdrs_res st (\<lambda>s. GC_install_header s rest)) (\<lambda>(rest_hdr, st).
            if rest_hdr = 0 then Ret (0, st)
            else
              let st = upd_hdr rest_hdr (\<lambda>r. r\<lparr>hb_block := rest, hb_sz := total_size - size_needed, hb_flags := 0\<rparr>) st
              in obind (GC_add_to_fl st rest rest_hdr) (\<lambda>st. Ret (h, st)))))"

definition PTRFREE :: nat where "PTRFREE = 0"

definition IS_PTRFREE :: "hdr \<Rightarrow> bool" where
  "IS_PTRFREE hhdr \<longleftrightarrow> hb_descr hhdr = 0"

definition ensure_mapped :: "heap_state \<Rightarrow> nat \<Rightarrow> nat \<Rightarrow> heap_state" where
  "ensure_mapped st hbp hhdr =
     (if \<not> IS_MAPPED (hdr_at st hhdr)
      then upd_hdr hhdr (\<lambda>r. r\<lparr>hb_flags := hb_flags r AND NOT WAS_UNMAPPED\<rparr>)
             (os_call (GC_remap hbp (hb_sz (hdr_at st hhdr))) st)
      else st)"

definition take_part ::
    "heap_state \<Rightarrow> nat \<Rightarrow> nat \<Rightarrow> nat \<Rightarrow> nat \<Rightarrow> nat \<Rightarrow> 32 word \<Rightarrow> nat \<Rightarrow> (nat \<times> heap_state) outcome" where
  "take_part st hbp hhdr lb_adjusted size_needed kind flags index =
     (let st = ensure_mapped st hbp hhdr
      in obind (GC_get_first_part st hbp hhdr size_needed index) (\<lambda>(hbp, st).
        if hbp = 0 then Ret (0, st)
        else obind (on_hdrs_res st (\<lambda>s. GC_install_counts s hbp size_needed)) (\<lambda>(ok, st).
          if \<not> ok then Ret (0, st)
          else
            let (ok, st) = setup_header st hhdr hbp lb_adjusted kind flags
            in if \<not> ok then obind (on_hdrs st (\<lambda>s. GC_remove_counts s hbp size_needed)) (\<lambda>st. Ret (0, st))
               else
                 let st = os_call (GC_remove_protection hbp (size_needed div BLK) (IS_PTRFREE (hdr_at st hhdr))) st
                 in Ret (hbp, st\<lparr>GC_alloc_fail_count := 0,
                                GC_large_free_bytes := GC_large_free_bytes st - of_nat size_needed\<rparr>))))"

section \<open>Carving a block\<close>

definition below :: "(nat \<Rightarrow> hdr option) \<Rightarrow> bool" where
  "below F \<longleftrightarrow> (\<forall>x r. F x = Some r \<longrightarrow> x < 2 ^ 64)"

lemma hm_below: "hm L s \<Longrightarrow> below (blocks s)"
  using blocks_below by (auto simp: below_def)

lemma parts_unique:
  assumes p: "parts H F" and b: "below F" and x: "F x = Some r" "x \<le> q" "q < x + ext r" and y: "F y = Some r'" "y \<le> q" "q < y + ext r'"
  shows "x = y"
proof -
  have "x < 2 ^ 64" "y < 2 ^ 64" using b x(1) y(1) by (auto simp: below_def)
  then have "\<not> x < y" "\<not> y < x"
    using parts_in_disjoint[OF p x(1) y(1)] parts_in_disjoint[OF p y(1) x(1)] x(2,3) y(2,3) by linarith+
  then show ?thesis by simp
qed

lemma parts_no_start: "parts H F \<Longrightarrow> below F \<Longrightarrow> F h = Some r \<Longrightarrow> h < x \<Longrightarrow> x < h + ext r \<Longrightarrow> F x = None"
  using parts_in_disjoint[of 0 "2 ^ 64" H F h r x] by (cases "F x") (auto simp: below_def)

lemma free_area_at:
  assumes "parts H F" "below F" "F h = Some r" "h \<le> a" "a < h + ext r"
  shows "a \<in> free_area F \<longleftrightarrow> HBLK_IS_FREE r"
proof
  assume "a \<in> free_area F"
  then obtain x rx where x: "F x = Some rx" "HBLK_IS_FREE rx" "x \<le> a" "a < x + ext rx" by (auto simp: free_area_def)
  then have "x = h" using parts_unique[OF assms(1,2) x(1,3,4) assms(3-5)] by simp
  then show "HBLK_IS_FREE r" using x assms(3) by simp
qed (use assms in \<open>auto intro: free_areaI\<close>)

text \<open>A block is replaced by one that ends earlier, followed by another block or by nothing.\<close>

definition carved :: "(nat \<Rightarrow> hdr option) \<Rightarrow> nat \<Rightarrow> hdr \<Rightarrow> hdr \<Rightarrow> hdr option \<Rightarrow> (nat \<Rightarrow> hdr option) \<Rightarrow> bool" where
  "carved F h r rn rest F' \<longleftrightarrow> F h = Some r \<and> blk_ok h rn \<and> ext rn \<le> ext r
     \<and> F' = (if ext rn < ext r then F(h \<mapsto> rn, h + ext rn := rest) else F(h \<mapsto> rn))
     \<and> (ext rn < ext r \<longrightarrow> (\<forall>rr. rest = Some rr \<longrightarrow> blk_ok (h + ext rn) rr \<and> HBLK_IS_FREE rr \<and> ext rr = ext r - ext rn))"

lemma carvedD:
  assumes "carved F h r rn rest F'"
  shows "F h = Some r" "blk_ok h rn" "ext rn \<le> ext r" "0 < ext rn" "F' h = Some rn"
    "x \<noteq> h \<Longrightarrow> x \<noteq> h + ext rn \<Longrightarrow> F' x = F x" "ext rn < ext r \<Longrightarrow> F' (h + ext rn) = rest"
    "ext rn = ext r \<Longrightarrow> F' (h + ext rn) = F (h + ext rn)"
    "ext rn < ext r \<Longrightarrow> rest = Some rr \<Longrightarrow> blk_ok (h + ext rn) rr \<and> HBLK_IS_FREE rr \<and> h + ext rn + ext rr = h + ext r"
proof -
  note c = assms[unfolded carved_def]
  show "F h = Some r" "blk_ok h rn" "ext rn \<le> ext r" using c by blast+
  then show pos: "0 < ext rn" unfolding blk_ok_def by linarith
  have F': "F' = (if ext rn < ext r then F(h \<mapsto> rn, h + ext rn := rest) else F(h \<mapsto> rn))" using c by blast
  show "F' h = Some rn" "x \<noteq> h \<Longrightarrow> x \<noteq> h + ext rn \<Longrightarrow> F' x = F x" "ext rn < ext r \<Longrightarrow> F' (h + ext rn) = rest"
    "ext rn = ext r \<Longrightarrow> F' (h + ext rn) = F (h + ext rn)"
    unfolding F' using pos by simp_all
  show "blk_ok (h + ext rn) rr \<and> HBLK_IS_FREE rr \<and> h + ext rn + ext rr = h + ext r" if "ext rn < ext r" "rest = Some rr"
  proof -
    have "blk_ok (h + ext rn) rr \<and> HBLK_IS_FREE rr \<and> ext rr = ext r - ext rn" using c that by blast
    then show ?thesis using that(1) by simp
  qed
qed

lemma parts_carve:
  assumes p: "parts H F" and b: "below F" and c: "carved F h r rn rest F'"
    and H: "\<And>q. BLK dvd q \<Longrightarrow> h < q \<Longrightarrow> q < h + ext rn \<Longrightarrow> H' q = (if HBLK_IS_FREE rn then 0 else min ((q - h) div BLK) MAX_JUMP)"
      "\<And>q. BLK dvd q \<Longrightarrow> h + ext rn < q \<Longrightarrow> q < h + ext r \<Longrightarrow> H' q = 0"
      "ext rn < ext r \<Longrightarrow> rest = None \<Longrightarrow> H' (h + ext rn) = 0"
      "\<And>q. BLK dvd q \<Longrightarrow> q < h \<or> h + ext r \<le> q \<Longrightarrow> H' q = H q"
  shows "parts H' F'"
proof -
  note h = carvedD(1)[OF c] and rn = carvedD(2,3)[OF c] and F' = carvedD(5-8)[OF c] and pos = carvedD(4)[OF c]
  have h64: "h < 2 ^ 64" using b h by (simp add: below_def)
  have ok: "blk_ok h r" "h + ext r \<le> 2 ^ 64" using parts_in_ok[OF p h] h64 by simp_all
  have none: "F x = None" if "h < x" "x < h + ext r" for x by (rule parts_no_start[OF p b h that])
  have first: "parts_in h (h + ext rn) H' F'"
    by (rule parts_in_single[of F' h rn, OF F'(1) rn(1)]) (use F'(2) none rn(2) H(1) in auto)
  have second: "parts_in (h + ext rn) (h + ext r) H' F'"
  proof (cases "ext rn < ext r")
    case False
    then show ?thesis using rn(2) by (intro parts_in_empty) auto
  next
    case lt: True
    show ?thesis
    proof (cases rest)
      case None
      show ?thesis
      proof (rule parts_in_empty)
        fix x assume "h + ext rn \<le> x" "x < h + ext r"
        then show "F' x = None" using F'(2)[of x] F'(3) None lt none[of x] pos by (cases "x = h + ext rn") auto
      next
        fix q assume "BLK dvd q" "h + ext rn \<le> q" "q < h + ext r"
        then show "H' q = 0" using H(2)[of q] H(3) None lt by (cases "q = h + ext rn") auto
      qed
    next
      case (Some rr)
      have rr: "blk_ok (h + ext rn) rr" "HBLK_IS_FREE rr" and end_eq: "h + ext rn + ext rr = h + ext r"
        using carvedD(9)[OF c lt Some] by blast+
      have "parts_in (h + ext rn) (h + ext rn + ext rr) H' F'"
      proof (rule parts_in_single[of F' "h + ext rn" rr, OF _ rr(1)])
        show "F' (h + ext rn) = Some rr" using F'(3)[OF lt] Some by simp
        show "F' x = None" if "h + ext rn < x" "x < h + ext rn + ext rr" for x
          using F'(2)[of x] none[of x] that end_eq by simp
        show "H' q = (if HBLK_IS_FREE rr then 0 else min ((q - (h + ext rn)) div BLK) MAX_JUMP)"
          if "BLK dvd q" "h + ext rn < q" "q < h + ext rn + ext rr" for q
          using H(2)[of q] that end_eq rr(2) by simp
      qed
      then show ?thesis using end_eq by simp
    qed
  qed
  have new: "parts_in h (h + ext r) H' F'" by (rule parts_in_append[OF first second]) (use rn(2) in simp_all)
  show ?thesis
  proof (rule parts_replace[OF p _ ok(2) _ _ new])
    show "boundary F h" "boundary F (h + ext r)" using boundary_start[OF p h _ h64] boundary_end[OF p h _ h64] by simp_all
    fix x assume "x < h \<or> h + ext r \<le> x"
    then show "F' x = F x" using F'(2)[of x] F'(4) rn(2) pos by (cases "x = h + ext rn") auto
  qed (use H(4) in auto)
qed

lemma free_area_carve:
  assumes p: "parts H F" "below F" and p': "parts H' F'" "below F'" and c: "carved F h r rn rest F'"
  shows "free_area F' = free_area F - {h ..< h + ext r} \<union> (if HBLK_IS_FREE rn then {h ..< h + ext rn} else {})
    \<union> (if rest = None then {} else {h + ext rn ..< h + ext r})" (is "_ = ?A")
proof (rule set_eqI)
  fix a
  note h = carvedD(1)[OF c] and rn = carvedD(2,3)[OF c] and F' = carvedD(5-8)[OF c] and pos = carvedD(4)[OF c]
  have none: "F x = None" if "h < x" "x < h + ext r" for x by (rule parts_no_start[OF p h that])
  have rr: "HBLK_IS_FREE rr \<and> h + ext rn + ext rr = h + ext r" if "rest = Some rr" "ext rn < ext r" for rr
    using carvedD(9)[OF c] that by blast
  consider "a < h \<or> h + ext r \<le> a" | "h \<le> a" "a < h + ext rn" | "h + ext rn \<le> a" "a < h + ext r" by linarith
  then show "a \<in> free_area F' \<longleftrightarrow> a \<in> ?A"
  proof cases
    case 1
    have "F' x = F x" if "x \<le> a" "a < x + ext rx" "F x = Some rx \<or> F' x = Some rx" for x rx
    proof (cases "x = h \<or> x = h + ext rn \<and> ext rn < ext r")
      case True
      then show ?thesis
      proof
        assume "x = h"
        then show ?thesis using that 1 h F'(1) rn(2) by auto
      next
        assume x: "x = h + ext rn \<and> ext rn < ext r"
        then have "F x = None" using none[of x] pos by simp
        then show ?thesis using that 1 x F'(3) rr[of rx] by auto
      qed
    next
      case False
      then show ?thesis using F'(2)[of x] F'(4) rn(2) by (cases "x = h + ext rn") auto
    qed
    then have "a \<in> free_area F' \<longleftrightarrow> a \<in> free_area F" unfolding free_area_def mem_Collect_eq by metis
    then show ?thesis using 1 rn(2) by auto
  next
    case 2
    then show ?thesis using free_area_at[OF p' F'(1)] rn(2) by auto
  next
    case 3
    then have lt: "ext rn < ext r" by linarith
    show ?thesis
    proof (cases rest)
      case None
      have "a \<notin> free_area F'"
      proof
        assume "a \<in> free_area F'"
        then obtain x rx where x: "F' x = Some rx" "x \<le> a" "a < x + ext rx" by (auto simp: free_area_def)
        then have "x \<noteq> h" "x \<noteq> h + ext rn" using F'(1) F'(3)[OF lt] None 3 by auto
        then have "x = h" using parts_unique[OF p _ x(2,3) h] x(1) F'(2)[of x] 3 by simp
        then show False using \<open>x \<noteq> h\<close> by simp
      qed
      then show ?thesis using None 3 by auto
    next
      case (Some rr)
      then show ?thesis using free_area_at[OF p', of "h + ext rn" rr a] F'(3)[OF lt] rr[OF Some lt] 3 by auto
    qed
  qed
qed

lemma keeps_used_carve:
  assumes c: "carved F h r rn rest F'" and p: "parts H F" "below F" and r: "HBLK_IS_FREE r"
  shows "keeps_used F F'"
proof (unfold keeps_used_def, intro allI impI)
  fix x rx assume x: "F x = Some rx" "\<not> HBLK_IS_FREE rx"
  then have "x \<noteq> h" using carvedD(1)[OF c] r by auto
  moreover have "F' x = F x" if "x = h + ext rn"
  proof (cases "ext rn < ext r")
    case True
    then show ?thesis using parts_no_start[OF p carvedD(1)[OF c], of x] carvedD(4)[OF c] that x by simp
  next
    case False
    then show ?thesis using carvedD(3,8)[OF c] that by simp
  qed
  ultimately show "F' x = Some rx" using carvedD(6)[OF c] x(1) by metis
qed

section \<open>The first part of a block\<close>

text \<open>The parts of the state that allocation leaves alone.\<close>

definition alloc_frame :: "heap_state \<Rightarrow> heap_state \<Rightarrow> bool" where
  "alloc_frame st st' \<longleftrightarrow> bls st' = (bls st)\<lparr>bl_hdrs := hs st'\<rparr> \<and> GC_gc_no (hs st') = GC_gc_no (hs st)
     \<and> GC_obj_kinds st' = GC_obj_kinds st"

lemma alloc_frame_refl [simp]: "alloc_frame st st"
  by (simp add: alloc_frame_def)

lemma alloc_frame_trans: "alloc_frame a b \<Longrightarrow> alloc_frame b c \<Longrightarrow> alloc_frame a c"
proof -
  have "x\<lparr>bl_hdrs := t\<rparr> = y\<lparr>bl_hdrs := t\<rparr>" if "x = y\<lparr>bl_hdrs := s\<rparr>" for x y :: bl_state and s t
    using that by simp
  then show "alloc_frame a b \<Longrightarrow> alloc_frame b c \<Longrightarrow> alloc_frame a c" unfolding alloc_frame_def by metis
qed

lemma alloc_frame_only: "only_hdrs st st' \<Longrightarrow> alloc_frame st st'"
  by (simp add: alloc_frame_def only_hdrs_def)

lemma alloc_frame_frame: "frame st st' \<Longrightarrow> alloc_frame st st'"
  by (auto simp: alloc_frame_def frame_def)

lemma alloc_frame_os: "frame_os st st' \<Longrightarrow> alloc_frame st st'"
  by (auto simp: alloc_frame_def frame_os_def frame_def)

lemma frame_dropped: "frame st st' \<Longrightarrow> GC_bytes_dropped st' = GC_bytes_dropped st"
  by (auto simp: frame_def)

lemma frame_os_dropped: "frame_os st st' \<Longrightarrow> GC_bytes_dropped st' = GC_bytes_dropped st"
  by (auto simp: frame_os_def frame_def)

lemma fl_total_upd:
  "i \<le> N_HBLK_FLS \<Longrightarrow> GC_free_bytes st' = (GC_free_bytes st)(i := v) \<Longrightarrow> fl_total st' = fl_total st - GC_free_bytes st i + v"
  unfolding fl_total_def by (simp only: sum_upd)

text \<open>What is left after the first \<open>sz\<close> bytes of a free block, as a free block.\<close>

definition rest_of :: "nat \<Rightarrow> nat \<Rightarrow> hdr \<Rightarrow> hdr option \<Rightarrow> bool" where
  "rest_of h sz r rest \<longleftrightarrow> (if sz < ext r
     then \<exists>rr. rest = Some rr \<and> blk_ok (h + sz) rr \<and> HBLK_IS_FREE rr \<and> ext rr = ext r - sz else rest = None)"

definition first_part :: "nat \<Rightarrow> heap_state \<Rightarrow> (nat \<Rightarrow> nat list) \<Rightarrow> nat \<Rightarrow> hdr \<Rightarrow> nat \<Rightarrow> heap_state \<Rightarrow> bool" where
  "first_part L st ls h r sz st' \<longleftrightarrow> hm L (hs st') \<and> alloc_frame st st' \<and> GC_large_free_bytes st' = GC_large_free_bytes st
     \<and> GC_bytes_dropped st' = GC_bytes_dropped st \<and> fl_total st' = fl_total st - of_nat sz
     \<and> (\<forall>q. BLK dvd q \<longrightarrow> q \<noteq> h + sz \<or> sz = ext r \<longrightarrow> HDR (hs st') q = HDR (hs st) q)
     \<and> (\<exists>rest ls'. rest_of h sz r rest \<and> fl_ok st' ls'
       \<and> same_core (if sz < ext r then (blocks (hs st))(h + sz := rest) else blocks (hs st)) (blocks (hs st'))
       \<and> (\<forall>x. x \<notin> listed ls - {h} \<longrightarrow> x \<noteq> h + sz \<or> sz = ext r \<longrightarrow> blocks (hs st') x = blocks (hs st) x)
       \<and> listed ls' = listed ls - {h} \<union> (if sz < ext r then {h + sz} else {})
       \<and> (\<forall>x j. x \<in> set (ls' j) \<longrightarrow> x \<in> set (ls j) \<or> sz < ext r \<and> x = h + sz \<and> fl_class (the rest) = j))"

lemma get_first_part_ok:
  assumes inv: "heap_inv L st ls {} W" and W: "W \<subseteq> {h}" and h: "h \<in> set (ls i)" "blocks (hs st) h = Some r"
    and sz: "BLK dvd sz" "0 < sz" "sz \<le> ext r"
  obtains res st' where "GC_get_first_part st h (HDR (hs st) h) sz i = Ret (res, st')" "os_use (hs st) (hs st') (res \<noteq> 0)"
    "res \<noteq> 0 \<Longrightarrow> res = h \<and> first_part L st ls h r sz st'"
proof -
  note result = that and D = heap_invD[OF inv]
  let ?a = "HDR (hs st) h"
  have i: "i \<le> N_HBLK_FLS" by (rule listed_le[OF D(3) h(1)])
  have free: "HBLK_IS_FREE r" using D(5)[OF h(1)] h(2) by auto
  have ext: "hb_sz r = ext r" using free by (simp add: ext_free)
  have rh: "hb_sz (hdr_at st ?a) = ext r" using h(2) ext by (simp add: blocks_Some)
  note ok = parts_blk_ok[OF D(2,1) h(2)]
  obtain st1 where s1: "GC_remove_from_fl_at st ?a i = Ret st1"
    "heap_inv L st1 (ls(i := remove1 h (ls i))) (insert h {}) (W - {h})" "HDR (hs st1) = HDR (hs st)" "frame st st1"
    "same_core (blocks (hs st)) (blocks (hs st1))"
    "\<And>x. x \<notin> listed ls - {h} \<Longrightarrow> blocks (hs st1) x = blocks (hs st) x" "os_mem (hs st1) = os_mem (hs st)"
    "GC_free_bytes st1 = (GC_free_bytes st)(i := GC_free_bytes st i - of_nat (hb_sz r))"
    by (rule inv_remove[OF inv h]) (rule that)
  let ?ls1 = "ls(i := remove1 h (ls i))"
  have D1: "hm L (hs st1)" "heap_parts (hs st1)" "fl_ok st1 ?ls1" using heap_invD(1-3)[OF s1(2)] by simp_all
  have listed1: "listed ?ls1 = listed ls - {h}" by (rule listed_upd(1)[OF D(3) h(1)])
  have mem1: "x \<in> set (ls j)" if "x \<in> set (?ls1 j)" for x j using that subsetD[OF set_remove1_subset, of x h "ls i"] by (auto split: if_splits)
  have tot1: "fl_total st1 = fl_total st - of_nat (ext r)" using fl_total_upd[OF i s1(8)] ext by simp
  have fr1: "alloc_frame st st1" "GC_large_free_bytes st1 = GC_large_free_bytes st" "GC_bytes_dropped st1 = GC_bytes_dropped st"
    using alloc_frame_frame[OF s1(4)] frame_large[OF s1(4)] frame_dropped[OF s1(4)] by simp_all
  show thesis
  proof (cases "sz = ext r")
    case True
    then have run: "GC_get_first_part st h ?a sz i = Ret (h, st1)" using s1(1) rh by (simp add: GC_get_first_part_def Let_def)
    show thesis
    proof (rule result[OF run])
      show "os_use (hs st) (hs st1) (h \<noteq> 0)" using s1(7) ok(1) by (simp add: os_use_def blk_ok_def)
      show "h = h \<and> first_part L st ls h r sz st1" unfolding first_part_def
        using True D1 fr1 tot1 s1(3,5,6) listed1 mem1 by (intro conjI exI[of _ None] exI[of _ ?ls1]) (simp_all add: rest_of_def)
    qed
  next
    case False
    then have lt: "sz < ext r" using sz(3) by simp
    let ?n = "h + sz"
    have dvd: "BLK dvd ?n" "BLK dvd ext r - sz" using ok(1) sz by (auto simp: blk_ok_def)
    have n64: "?n < 2 ^ 64" "?n \<noteq> 0" using ok(1) lt by (auto simp: blk_ok_def)
    have "h < 2 ^ 64" by (rule blocks_below[OF D(1) h(2)])
    then have HDRn: "HDR (hs st1) ?n = 0" using parts_in_inside[OF D(2) h(2) dvd(1)] lt sz(2) free s1(3) by simp
    obtain a st2 where s2: "GC_install_header (hs st1) ?n = Ret (a, hs st2)" "st2 = set_hs st1 (hs st2)" "hm L (hs st2)" "only_hdrs st1 st2"
      "os_use (hs st1) (hs st2) (a \<noteq> 0)" "a = 0 \<Longrightarrow> HDR (hs st2) = HDR (hs st1) \<and> blocks (hs st2) = blocks (hs st1)"
      "a \<noteq> 0 \<Longrightarrow> HDR (hs st2) ?n = a \<and> (\<forall>q. BLK dvd q \<longrightarrow> q \<noteq> ?n \<longrightarrow> HDR (hs st2) q = HDR (hs st1) q)
         \<and> (\<exists>r. blocks (hs st2) = (blocks (hs st1))(?n \<mapsto> r))"
      by (rule install_header_ok[OF D1(1) dvd(1) n64(1) HDRn]) (rule that)
    have inst: "on_hdrs_res st1 (\<lambda>s. GC_install_header s ?n) = Ret (a, st2)"
      using s2(1) s2(2)[symmetric] by (simp add: on_hdrs_res_def)
    have os2: "os_use (hs st) (hs st2) (a \<noteq> 0)" using s2(5) s1(7) by (simp add: os_use_def)
    show thesis
    proof (cases "a = 0")
      case True
      then have run: "GC_get_first_part st h ?a sz i = Ret (0, st2)"
        using s1(1) rh False inst by (simp add: GC_get_first_part_def Let_def)
      show thesis by (rule result[OF run]) (use os2 True in simp_all)
    next
      case a: False
      obtain r0 where b2: "blocks (hs st2) = (blocks (hs st1))(?n \<mapsto> r0)" and HDR2: "HDR (hs st2) ?n = a"
        "\<And>q. BLK dvd q \<Longrightarrow> q \<noteq> ?n \<Longrightarrow> HDR (hs st2) q = HDR (hs st1) q" using s2(7)[OF a] by blast
      define g :: "hdr \<Rightarrow> hdr" where "g = (\<lambda>r. r\<lparr>hb_block := ?n, hb_sz := hb_sz (hdr_at st ?a) - sz, hb_flags := 0\<rparr>)"
      define st3 where "st3 = upd_hdr a g st2"
      have b2n: "blocks (hs st2) ?n = Some r0" using b2 by simp
      note u3 = upd_hdr_ok[OF s2(3) b2n HDR2(1)[symmetric], of g, folded st3_def]
      define rr where "rr = g r0"
      have b3: "blocks (hs st3) = (blocks (hs st1))(?n \<mapsto> rr)" using u3(2) b2 by (simp add: rr_def)
      have b3n: "blocks (hs st3) ?n = Some rr" using b3 by simp
      have only3: "only_hdrs st1 st3" unfolding st3_def by (rule only_hdrs_trans[OF s2(4) only_hdrs_upd])
      have fl3: "GC_hblkfreelist st3 = GC_hblkfreelist st1" "GC_free_bytes st3 = GC_free_bytes st1"
        using only3 by (simp_all add: only_hdrs_def)
      have notin: "?n \<notin> listed ?ls1"
      proof
        assume "?n \<in> listed ?ls1"
        then obtain rx where "blocks (hs st1) ?n = Some rx" using lists_ok_Some[OF D1(3)] by (auto simp: listed_def)
        then show False using HDRn by (simp add: blocks_Some)
      qed
      have ok3: "fl_ok st3 ?ls1" unfolding b3 fl3 using D1(3) notin by (simp add: lists_ok_upd)
      have HDR3: "HDR (hs st3) = HDR (hs st2)" by (auto simp: st3_def)
      obtain st4 where s4: "GC_add_to_fl st3 ?n (HDR (hs st3) ?n) = Ret st4" "hm L (hs st4)"
        "fl_ok st4 (?ls1(fl_class rr := ?n # ?ls1 (fl_class rr)))" "HDR (hs st4) = HDR (hs st3)" "frame st3 st4"
        "same_core ((blocks (hs st3))(?n \<mapsto> rr\<lparr>hb_flags := hb_flags rr OR FREE_BLK\<rparr>)) (blocks (hs st4))"
        "\<And>x. x \<noteq> ?n \<Longrightarrow> x \<notin> set (?ls1 (fl_class rr)) \<Longrightarrow> blocks (hs st4) x = blocks (hs st3) x"
        "os_mem (hs st4) = os_mem (hs st3)"
        "GC_free_bytes st4 = (GC_free_bytes st3)(fl_class rr := GC_free_bytes st3 (fl_class rr) + of_nat (hb_sz rr))"
        by (rule GC_add_to_fl_ok[OF u3(1) ok3 b3n n64(2) notin]) (rule that)
      let ?rr = "rr\<lparr>hb_flags := hb_flags rr OR FREE_BLK\<rparr>" and ?ls4 = "?ls1(fl_class rr := ?n # ?ls1 (fl_class rr))"
      have rr: "hb_sz rr = ext r - sz" "hb_block rr = ?n" using rh by (simp_all add: rr_def g_def)
      have run: "GC_get_first_part st h ?a sz i = Ret (h, st4)"
        using s1(1) rh False inst a s4(1) HDR3 HDR2(1) by (simp add: GC_get_first_part_def Let_def st3_def g_def)
      have ext_rr: "ext ?rr = ext r - sz" using rr(1) by (simp add: ext_free)
      have okrr: "blk_ok ?n ?rr" using ok(1) dvd lt rr ext_rr by (simp add: blk_ok_def)
      show thesis
      proof (rule result[OF run])
        show "os_use (hs st) (hs st4) (h \<noteq> 0)" using os2 a s4(8) ok(1) by (simp add: os_use_def st3_def blk_ok_def)
        have core: "same_core ((blocks (hs st))(?n := Some ?rr)) (blocks (hs st4))"
        proof -
          have "same_core ((blocks (hs st))(?n := Some ?rr)) ((blocks (hs st1))(?n := Some ?rr))"
            using s1(5) by (simp add: same_core_def)
          then show ?thesis using s4(6) b3 same_core_trans by auto
        qed
        have total: "fl_total st4 = fl_total st - of_nat sz"
        proof -
          have "fl_total st4 = fl_total st1 + of_nat (ext r - sz)"
            using fl_total_upd[OF GC_hblk_fl_from_blocks_le s4(9)] rr(1) fl3 by (simp add: fl_total_def)
          then show ?thesis using tot1 lt by (simp add: of_nat_diff)
        qed
        show "h = h \<and> first_part L st ls h r sz st4" unfolding first_part_def if_P[OF lt]
        proof (intro conjI refl exI[of _ "Some ?rr"] exI[of _ ?ls4] allI impI)
          show "alloc_frame st st4"
            by (rule alloc_frame_trans[OF alloc_frame_trans[OF fr1(1) alloc_frame_only[OF only3]] alloc_frame_frame[OF s4(5)]])
          show "GC_large_free_bytes st4 = GC_large_free_bytes st" "GC_bytes_dropped st4 = GC_bytes_dropped st"
            using frame_large[OF s4(5)] frame_dropped[OF s4(5)] fr1(2,3) only3 by (simp_all add: only_hdrs_def)
          show "rest_of h sz r (Some ?rr)" using okrr ext_rr lt by (simp add: rest_of_def)
          show "listed ?ls4 = listed ls - {h} \<union> {?n}" using listed_upd(2)[OF D1(3)] listed1 by simp
          show "blocks (hs st4) x = blocks (hs st) x" if "x \<notin> listed ls - {h}" "x \<noteq> ?n \<or> sz = ext r" for x
            using s4(7)[of x] b3 s1(6)[OF that(1)] that False listed1 by (auto simp: listed_def)
          show "x \<in> set (ls j) \<or> sz < ext r \<and> x = ?n \<and> fl_class (the (Some ?rr)) = j" if "x \<in> set (?ls4 j)" for x j
            using that mem1[of x j] lt by (auto split: if_splits)
          show "HDR (hs st4) q = HDR (hs st) q" if "BLK dvd q" "q \<noteq> ?n \<or> sz = ext r" for q
            using s4(4) HDR3 HDR2(2)[OF that(1)] that(2) False s1(3) by simp
        qed (rule s4 core total)+
      qed
    qed
  qed
qed

text \<open>The invariant from blocks that agree up to their links.\<close>

lemma inv_on_via:
  assumes core: "same_core F G" and p: "parts H F" and lists: "lists_ok G fl fb ls"
    and mem: "\<And>x j. x \<in> set (ls j) \<Longrightarrow> \<exists>r. F x = Some r \<and> HBLK_IS_FREE r \<and> (x \<in> W \<or> fl_class r = j)"
    and cov: "\<And>x r. F x = Some r \<Longrightarrow> HBLK_IS_FREE r \<Longrightarrow> x \<in> listed ls"
  shows "inv_on H G fl fb ls {} W"
  unfolding inv_on_def
proof (intro conjI allI impI)
  show "parts H G" by (rule parts_in_core[OF core p])
  fix x j assume "x \<in> set (ls j)"
  then obtain r where r: "F x = Some r" "HBLK_IS_FREE r" "x \<in> W \<or> fl_class r = j" using mem by blast
  obtain r' where r': "G x = Some r'" "core r' = core r" by (rule same_core_Some[OF core r(1)])
  show "\<exists>r. G x = Some r \<and> HBLK_IS_FREE r \<and> (x \<in> W \<or> fl_class r = j)"
    using r r' ext_core[OF r'(2), of x] fl_class_core[OF r'(2)] by simp
next
  fix x r assume r: "G x = Some r" "HBLK_IS_FREE r"
  obtain r' where r': "F x = Some r'" "core r' = core r" by (rule same_core_Some[OF same_core_sym[OF core] r(1)])
  show "x \<in> {} \<or> x \<in> listed ls" using cov[OF r'(1)] r(2) ext_core[OF r'(2), of x] by simp
qed (use lists in simp_all)

lemma take_assemble:
  assumes inv: "heap_inv L st ls {} W" and W: "W \<subseteq> {h}" and h: "h \<in> set (ls i)" "blocks (hs st) h = Some r"
    and sz: "BLK dvd sz" "0 < sz" "sz \<le> ext r" and fp: "first_part L st ls h r sz st1"
    and st2: "hm L (hs st2)" "blocks (hs st2) = (blocks (hs st1))(h \<mapsto> rn)" "GC_hblkfreelist st2 = GC_hblkfreelist st1"
      "GC_free_bytes st2 = GC_free_bytes st1"
      "\<And>q. BLK dvd q \<Longrightarrow> HDR (hs st2) q = (if h < q \<and> q < h + sz then min ((q - h) div BLK) MAX_JUMP else HDR (hs st1) q)"
    and rn: "blk_ok h rn" "ext rn = sz" "\<not> HBLK_IS_FREE rn"
  shows "\<exists>ls'. heap_inv L st2 ls' {} {}" "keeps_used (blocks (hs st)) (blocks (hs st2))"
    "free_area (blocks (hs st2)) = free_area (blocks (hs st)) - {h ..< h + sz}"
proof -
  note D = heap_invD[OF inv]
  define F where "F = blocks (hs st)"
  have free: "HBLK_IS_FREE r" using D(5)[OF h(1)] h(2) by auto
  have p: "parts (HDR (hs st)) F" "below F" "F h = Some r" using D(2) hm_below[OF D(1)] h(2) by (simp_all add: F_def)
  have h64: "h < 2 ^ 64" by (rule blocks_below[OF D(1) h(2)])
  obtain rest ls' where rest: "rest_of h sz r rest" and fl: "fl_ok st1 ls'"
    and core: "same_core (if sz < ext r then F(h + sz := rest) else F) (blocks (hs st1))"
    and unl: "\<And>x. x \<notin> listed ls - {h} \<Longrightarrow> x \<noteq> h + sz \<or> sz = ext r \<Longrightarrow> blocks (hs st1) x = F x"
    and listed: "listed ls' = listed ls - {h} \<union> (if sz < ext r then {h + sz} else {})"
    and mem: "\<And>x j. x \<in> set (ls' j) \<Longrightarrow> x \<in> set (ls j) \<or> sz < ext r \<and> x = h + sz \<and> fl_class (the rest) = j"
    and HDR1: "\<And>q. BLK dvd q \<Longrightarrow> q \<noteq> h + sz \<or> sz = ext r \<Longrightarrow> HDR (hs st1) q = HDR (hs st) q"
    using fp unfolding first_part_def F_def by blast
  define F' where "F' = (if sz < ext r then F(h \<mapsto> rn, h + sz := rest) else F(h \<mapsto> rn))"
  have c: "carved F h r rn rest F'"
    using rest p(3) rn sz by (auto simp: carved_def rest_of_def F'_def)
  have none: "F (h + sz) = None" if "sz < ext r" using parts_no_start[OF p, of "h + sz"] that sz(2) by simp
  have core': "same_core F' (blocks (hs st2))"
    using core sz(2) unfolding F'_def st2(2) same_core_def by (auto split: if_splits)
  have p': "parts (HDR (hs st2)) F'"
  proof (rule parts_carve[OF p(1,2) c])
    fix q assume q: "BLK dvd q" "h + ext rn < q" "q < h + ext r"
    then show "HDR (hs st2) q = 0"
      using st2(5)[OF q(1)] HDR1[OF q(1)] parts_in_inside[OF p(1,3) q(1)] free h64 rn(2) by simp
  next
    fix q assume q: "BLK dvd q" "q < h \<or> h + ext r \<le> q"
    then show "HDR (hs st2) q = HDR (hs st) q" using st2(5)[OF q(1)] HDR1[OF q(1)] sz by auto
  qed (use st2(5) rn rest in \<open>auto simp: rest_of_def\<close>)
  have hn: "h \<notin> listed ls'" using listed sz(2) by auto
  have lists: "lists_ok (blocks (hs st2)) (GC_hblkfreelist st2) (GC_free_bytes st2) ls'"
    unfolding st2(2-4) using fl hn by (simp add: lists_ok_upd)
  have "inv_on (HDR (hs st2)) (blocks (hs st2)) (GC_hblkfreelist st2) (GC_free_bytes st2) ls' {} {}"
  proof (rule inv_on_via[OF core' p' lists])
    fix x j assume x: "x \<in> set (ls' j)"
    then have xh: "x \<noteq> h" using hn by (auto simp: listed_def)
    show "\<exists>r. F' x = Some r \<and> HBLK_IS_FREE r \<and> (x \<in> {} \<or> fl_class r = j)"
    proof (cases "sz < ext r \<and> x = h + sz \<and> fl_class (the rest) = j")
      case True
      then show ?thesis using rest by (auto simp: rest_of_def F'_def)
    next
      case False
      then have xj: "x \<in> set (ls j)" using mem[OF x] by blast
      then obtain r0 where "F x = Some r0" "HBLK_IS_FREE r0" "fl_class r0 = j" using D(5)[OF xj] xh W by (auto simp: F_def)
      moreover from this have "F' x = Some r0" using xh none by (auto simp: F'_def)
      ultimately show ?thesis by simp
    qed
  next
    fix x rx assume x: "F' x = Some rx" "HBLK_IS_FREE rx"
    then have xh: "x \<noteq> h" using rn(3) carvedD(5)[OF c] by auto
    show "x \<in> listed ls'"
    proof (cases "sz < ext r \<and> x = h + sz")
      case False
      then have "F x = Some rx" using x(1) xh by (auto simp: F'_def split: if_splits)
      then have "x \<in> listed ls" using D(6)[of x rx] x(2) by (auto simp: F_def)
      then show ?thesis using listed xh by simp
    qed (use listed in simp)
  qed
  then show "\<exists>ls'. heap_inv L st2 ls' {} {}" using st2(1) unfolding heap_inv_def by blast
  have below': "below F'"
    unfolding below_def using hm_below[OF st2(1)] same_core_Some[OF core'] by (metis below_def)
  have area: "free_area F' = free_area F - {h ..< h + ext r} \<union> (if rest = None then {} else {h + sz ..< h + ext r})"
    using free_area_carve[OF p(1,2) p' below' c] rn by simp
  have sub: "{h ..< h + ext r} \<subseteq> free_area F" using free_area_at[OF p] free by auto
  have "free_area F' = free_area F - {h ..< h + sz}"
  proof (cases "sz < ext r")
    case True
    then have "rest \<noteq> None" using rest by (auto simp: rest_of_def)
    then show ?thesis using area sub True by auto
  next
    case False
    then show ?thesis using area rest sz(3) by (simp add: rest_of_def)
  qed
  then show "free_area (blocks (hs st2)) = free_area (blocks (hs st)) - {h ..< h + sz}"
    using free_area_core[OF core'] by (simp add: F_def)
  show "keeps_used (blocks (hs st)) (blocks (hs st2))"
  proof (unfold keeps_used_def, intro allI impI)
    fix x rx assume x: "blocks (hs st) x = Some rx" "\<not> HBLK_IS_FREE rx"
    then have "x \<noteq> h" using h(2) free by auto
    moreover have "x \<noteq> h + sz \<or> sz = ext r" using x(1) none sz(3) by (cases "sz < ext r") (auto simp: F_def)
    moreover have "x \<notin> listed ls" using D(5) x by (fastforce simp: listed_def)
    ultimately show "blocks (hs st2) x = Some rx" using unl[of x] x(1) by (simp add: st2(2) F_def)
  qed
qed

lemma ensure_mapped_adjusted:
  "heap_inv L st ls X W \<Longrightarrow> blocks (hs st) h = Some r \<Longrightarrow> adjusted L st ls X W h (ensure_mapped st h (HDR (hs st) h))"
  unfolding ensure_mapped_def by (simp add: adjusted_refl adjusted_call adjusted_upd touch_flags)

text \<open>What an allocated block of \<open>sz\<close> bytes at \<open>h\<close> means for the heap.\<close>

definition allocated :: "nat \<Rightarrow> heap_state \<Rightarrow> nat \<Rightarrow> nat \<Rightarrow> nat \<Rightarrow> nat \<Rightarrow> heap_state \<Rightarrow> bool" where
  "allocated L st h lb sz kind st' \<longleftrightarrow> (\<exists>ls'. heap_inv L st' ls' {} {})
     \<and> (\<exists>r. blocks (hs st') h = Some r \<and> new_hdr st h lb kind r \<and> \<not> HBLK_IS_FREE r \<and> IS_MAPPED r \<and> ext r = sz)
     \<and> keeps_used (blocks (hs st)) (blocks (hs st')) \<and> {h ..< h + sz} \<subseteq> free_area (blocks (hs st))
     \<and> free_area (blocks (hs st')) = free_area (blocks (hs st)) - {h ..< h + sz}
     \<and> GC_large_free_bytes st' = GC_large_free_bytes st - of_nat sz \<and> fl_total st' = fl_total st - of_nat sz
     \<and> GC_bytes_dropped st' = GC_bytes_dropped st \<and> alloc_frame st st'"

lemma take_part_ok:
  assumes inv: "heap_inv L st ls {} W" and W: "W \<subseteq> {h}" and h: "h \<in> set (ls i)" "blocks (hs st) h = Some r"
    and sz: "BLK dvd sz" "0 < sz" "sz \<le> ext r" "BLK * OBJ_SZ_TO_BLOCKS lb = sz" "0 < lb" "lb \<le> sz"
    and flags: "\<not> bit flags 1" "\<not> bit flags 2"
  obtains res st' where "take_part st h (HDR (hs st) h) lb sz kind flags i = Ret (res, st')"
    "os_use (hs st) (hs st') (res \<noteq> 0)" "res \<noteq> 0 \<Longrightarrow> res = h \<and> allocated L st h lb sz kind st'"
proof -
  note result = that and D = heap_invD[OF inv]
  let ?a = "HDR (hs st) h"
  note ok = parts_blk_ok[OF D(2,1) h(2)]
  have hpos: "h \<noteq> 0" "BLK dvd h" "h + sz + BLK \<le> 2 ^ 64" using ok(1) sz(3) by (auto simp: blk_ok_def)
  have free: "HBLK_IS_FREE r" using D(5)[OF h(1)] h(2) by auto
  define st0 where "st0 = ensure_mapped st h ?a"
  obtain r0 where s0: "heap_inv L st0 ls {} W" "HDR (hs st0) = HDR (hs st)" "frame_os st st0" "os_mem (hs st0) = os_mem (hs st)"
    "GC_free_bytes st0 = GC_free_bytes st" "shape r0 = shape r" "blocks (hs st0) = (blocks (hs st))(h \<mapsto> r0)"
    using ensure_mapped_adjusted[OF inv h(2)] h(2) unfolding adjusted_def st0_def by auto
  have b0: "blocks (hs st0) h = Some r0" "ext r0 = ext r" "HBLK_IS_FREE r0" using s0(7) shape_ext[OF s0(6)] free by auto
  have shape0: "same_shape (blocks (hs st)) (blocks (hs st0))"
    unfolding s0(7) by (rule same_shape_upd[of "blocks (hs st)" h, OF h(2) s0(6)])
  have area0: "free_area (blocks (hs st0)) = free_area (blocks (hs st))" using free_area_shape[OF shape0] by simp
  have used0: "keeps_used (blocks (hs st)) (blocks (hs st0))"
    unfolding s0(7) by (rule keeps_used_upd[of "blocks (hs st)" h, OF h(2) free])
  obtain res st1 where s1: "GC_get_first_part st0 h (HDR (hs st0) h) sz i = Ret (res, st1)" "os_use (hs st0) (hs st1) (res \<noteq> 0)"
    "res \<noteq> 0 \<Longrightarrow> res = h \<and> first_part L st0 ls h r0 sz st1"
    by (rule get_first_part_ok[OF s0(1) W h(1) b0(1) sz(1,2)]) (use sz(3) b0(2) that in auto)
  have os1: "os_use (hs st) (hs st1) (res \<noteq> 0)" using s1(2) s0(4) by (simp add: os_use_def)
  have first: "take_part st h ?a lb sz kind flags i = Ret (0, st1)" if "res = 0"
    using s1(1) that s0(2) by (simp add: take_part_def Let_def flip: st0_def)
  show thesis
  proof (cases "res = 0")
    case True
    show thesis by (rule result[OF first[OF True]]) (use os1 True in simp_all)
  next
    case False
    then have res: "res = h" and fp: "first_part L st0 ls h r0 sz st1" using s1(3) by auto
    have hm1: "hm L (hs st1)" and fr1: "alloc_frame st0 st1" using fp by (simp_all add: first_part_def)
    have HDR1: "HDR (hs st1) q = HDR (hs st) q" if "BLK dvd q" "q \<noteq> h + sz" for q
      using fp that s0(2) by (simp add: first_part_def)
    have h64: "h < 2 ^ 64" by (rule blocks_below[OF D(1) h(2)])
    have none: "HDR (hs st1) q = 0" if "BLK dvd q" "h < q" "q < h + sz" for q
      using HDR1[OF that(1)] parts_in_inside[OF D(2) h(2) that(1) _ h64 that(2)] that(3) sz(3) free by simp
    obtain okc st2 where s2: "GC_install_counts (hs st1) h sz = Ret (okc, hs st2)" "st2 = set_hs st1 (hs st2)" "hm L (hs st2)" "only_hdrs st1 st2"
      "os_use (hs st1) (hs st2) okc" "blocks (hs st2) = blocks (hs st1)" "\<not> okc \<Longrightarrow> HDR (hs st2) = HDR (hs st1)"
      "okc \<Longrightarrow> (\<forall>q. BLK dvd q \<longrightarrow> HDR (hs st2) q = (if h < q \<and> q < h + sz then min ((q - h) div BLK) MAX_JUMP else HDR (hs st1) q))"
      by (rule install_counts_ok[OF hm1 hpos(2) sz(2,1) hpos(3) none]) (use that in auto)
    have counts: "on_hdrs_res st1 (\<lambda>s. GC_install_counts s h sz) = Ret (okc, st2)"
      using s2(1) s2(2)[symmetric] by (simp add: on_hdrs_res_def)
    have os2: "os_use (hs st) (hs st2) okc" using os_use_trans[OF os_use_weaken[OF os1] s2(5)] .
    have second: "take_part st h ?a lb sz kind flags i = Ret (0, st2)" if "\<not> okc"
      using s1(1) s0(2) res hpos(1) counts that by (simp add: take_part_def Let_def flip: st0_def)
    show thesis
    proof (cases okc)
      case False
      show thesis by (rule result[OF second[OF False]]) (use os2 False in simp_all)
    next
      case True
      have hunl: "h \<notin> listed ls - {h}" by simp
      have "blocks (hs st1) h = blocks (hs st0) h" using fp sz(2) unfolding first_part_def by auto
      then have b2: "blocks (hs st2) h = Some r0" using b0(1) s2(6) by simp
      have a2: "HDR (hs st2) h = ?a" using s2(8)[OF True] hpos(2) HDR1[OF hpos(2)] sz(2) by simp
      obtain b st3 rn where s3: "setup_header st2 (HDR (hs st2) h) h lb kind flags = (b, st3)" "hm L (hs st3)" "HDR (hs st3) = HDR (hs st2)"
        "blocks (hs st3) = (blocks (hs st2))(h \<mapsto> rn)" "hb_block rn = h" "hb_sz rn = (if b then lb else BLK)"
        "\<not> HBLK_IS_FREE rn" "IS_MAPPED rn" "b \<Longrightarrow> new_hdr st2 h lb kind rn" "only_hdrs st2 st3" "os_use (hs st2) (hs st3) b"
        by (rule setup_header_ok[OF s2(3) b2 flags]) (rule that)
      have os3: "os_use (hs st) (hs st3) b" using os_use_trans[OF os_use_weaken[OF os2] s3(11)] .
      show thesis
      proof (cases b)
        case b: False
        have "sz \<noteq> 0" using sz(2) by simp
        obtain st4 where st4: "on_hdrs st3 (\<lambda>s. GC_remove_counts s h sz) = Ret st4" "os_mem (hs st4) = os_mem (hs st3)"
        proof -
          have inside: "HDR (hs st3) q \<noteq> 0 \<and> HDR (hs st3) q \<le> MAX_JUMP" if q: "BLK dvd q" "h < q" "q < h + sz" for q
          proof -
            have "BLK \<le> q - h" using blk_mult[OF hpos(2) q(1,2)] by linarith
            then have "1 \<le> (q - h) div BLK" by (simp add: div_greater_zero_iff Suc_le_eq BLK_def)
            then show ?thesis using s2(8)[OF True] q s3(3) by (simp add: gc_consts)
          qed
          obtain s where "GC_remove_counts (hs st3) h sz = Ret s" "os_mem s = os_mem (hs st3)"
            by (rule remove_counts_ok[OF s3(2) hpos(2) sz(1,2) hpos(3) inside]) auto
          then show ?thesis by (intro that[of "set_hs st3 s"]) (simp_all add: on_hdrs_def)
        qed
        have run: "take_part st h ?a lb sz kind flags i = Ret (0, st4)"
          using s1(1) s0(2) res hpos(1) counts True s3(1) b a2 st4(1) by (simp add: take_part_def Let_def flip: st0_def)
        show thesis by (rule result[OF run]) (use os3 b st4(2) in \<open>simp_all add: os_use_def\<close>)
      next
        case b: True
        define st4 where "st4 = (os_call (GC_remove_protection h (sz div BLK) (IS_PTRFREE (hdr_at st3 ?a))) st3)
          \<lparr>GC_alloc_fail_count := 0, GC_large_free_bytes := GC_large_free_bytes st3 - of_nat sz\<rparr>"
        have run: "take_part st h ?a lb sz kind flags i = Ret (h, st4)"
          using s1(1) s0(2) res hpos(1) counts True s3(1) b a2 by (simp add: take_part_def Let_def st4_def flip: st0_def)
        have hs4: "hs st4 = hs st3" "GC_hblkfreelist st4 = GC_hblkfreelist st1" "GC_free_bytes st4 = GC_free_bytes st1"
          using s3(10) s2(4) by (simp_all add: st4_def only_hdrs_def)
        have rn: "hb_sz rn = lb" "ext rn = sz" using s3(6,7) b sz(4) by (simp_all add: ext_def)
        have okrn: "blk_ok h rn" using ok(1) rn s3(5) sz by (simp add: blk_ok_def)
        have b4: "blocks (hs st4) = (blocks (hs st1))(h \<mapsto> rn)" using hs4 s3(4) s2(6) by simp
        have HDR4: "HDR (hs st4) q = (if h < q \<and> q < h + sz then min ((q - h) div BLK) MAX_JUMP else HDR (hs st1) q)" if "BLK dvd q" for q
          using hs4 s3(3) s2(8)[OF True] that by simp
        have hm4: "hm L (hs st4)" using s3(2) hs4 by simp
        note asm = take_assemble[OF s0(1) W h(1) b0(1) sz(1,2) _ fp hm4 b4 hs4(2,3) HDR4 okrn rn(2) s3(7)]
        have sub: "{h ..< h + sz} \<subseteq> free_area (blocks (hs st))"
          using free_area_at[OF D(2) hm_below[OF D(1)] h(2)] free sz(3) by auto
        have fr4: "alloc_frame st st4"
        proof -
          have "alloc_frame st st3"
            by (rule alloc_frame_trans[OF alloc_frame_os[OF s0(3)] alloc_frame_trans[OF fr1 alloc_frame_only[OF only_hdrs_trans[OF s2(4) s3(10)]]]])
          then show ?thesis by (simp add: alloc_frame_def st4_def os_call_def)
        qed
        have lg: "GC_large_free_bytes st3 = GC_large_free_bytes st" "GC_bytes_dropped st3 = GC_bytes_dropped st"
          using s3(10) s2(4) fp frame_osD(1)[OF s0(3)] frame_os_dropped[OF s0(3)] by (simp_all add: only_hdrs_def first_part_def)
        have tot: "fl_total st4 = fl_total st - of_nat sz"
          using fp s0(5) hs4(3) by (simp add: first_part_def fl_total_def)
        have new: "new_hdr st h lb kind rn"
          using s3(9)[OF b] alloc_frame_trans[OF alloc_frame_os[OF s0(3)] alloc_frame_trans[OF fr1 alloc_frame_only[OF s2(4)]]]
          by (simp add: new_hdr_def alloc_frame_def)
        have "allocated L st h lb sz kind st4"
          unfolding allocated_def
        proof (intro conjI)
          show "\<exists>ls'. heap_inv L st4 ls' {} {}" using asm(1) sz(3) b0(2) by simp
          show "\<exists>r. blocks (hs st4) h = Some r \<and> new_hdr st h lb kind r \<and> \<not> HBLK_IS_FREE r \<and> IS_MAPPED r \<and> ext r = sz"
            using b4 new s3(7,8) rn(2) by simp
          show "keeps_used (blocks (hs st)) (blocks (hs st4))" using keeps_used_trans[OF used0] asm(2) sz(3) b0(2) by simp
          show "free_area (blocks (hs st4)) = free_area (blocks (hs st)) - {h ..< h + sz}" using asm(3) area0 sz(3) b0(2) by simp
        qed (use sub lg tot fr4 in \<open>simp_all add: st4_def os_call_def\<close>)
        then show thesis using result[OF run] os3 b hpos(1) by (simp add: hs4(1))
      qed
    qed
  qed
qed

end
