(* ===== verification/Hblk_Split.thy ===== *)
theory Hblk_Split
  imports Hblk_Take
begin

text \<open>
  Splitting a free heap block in two (\<open>GC_split_block\<close> of \<^verbatim>\<open>allchblk.c\<close>, called when the part to allocate does
  not begin where the block does), and \<open>drop_hblk_in_chunks\<close>, which takes a black-listed block out of use.
\<close>

section \<open>Splitting a block\<close>

text \<open>The neighbours on the list are linked to the block that replaces another.\<close>

definition relink :: "heap_state \<Rightarrow> nat \<Rightarrow> nat \<Rightarrow> nat \<Rightarrow> nat \<Rightarrow> heap_state outcome" where
  "relink st prev next last_hbp index =
     obind (if prev \<noteq> 0
            then obind (GET_HDR st prev) (\<lambda>phdr. Ret (upd_hdr phdr (\<lambda>r. r\<lparr>hb_next := last_hbp\<rparr>) st))
            else Ret (st\<lparr>GC_hblkfreelist := (GC_hblkfreelist st)(index := last_hbp)\<rparr>)) (\<lambda>st.
       if next \<noteq> 0
       then obind (GET_HDR st next) (\<lambda>nhdr. Ret (upd_hdr nhdr (\<lambda>r. r\<lparr>hb_prev := last_hbp\<rparr>) st))
       else Ret st)"

definition GC_split_block :: "heap_state \<Rightarrow> nat \<Rightarrow> nat \<Rightarrow> nat \<Rightarrow> nat \<Rightarrow> nat \<Rightarrow> heap_state outcome" where
  "GC_split_block st hbp hhdr last_hbp last_hdr index =
     (let h_size = last_hbp - hbp;
          prev = hb_prev (hdr_at st hhdr);
          next = hb_next (hdr_at st hhdr);
          st = upd_hdr last_hdr (\<lambda>r. r\<lparr>hb_prev := prev, hb_next := next, hb_block := last_hbp,
                                       hb_sz := hb_sz (hdr_at st hhdr) - h_size, hb_flags := 0\<rparr>) st
      in obind (relink st prev next last_hbp index) (\<lambda>st.
           let st = st\<lparr>GC_free_bytes := (GC_free_bytes st)(index := GC_free_bytes st index - of_nat h_size)\<rparr>;
               st = upd_hdr hhdr (\<lambda>r. r\<lparr>hb_last_reclaimed := of_nat (GC_gc_no (hs st)), hb_sz := h_size\<rparr>) st
           in obind (GC_add_to_fl st hbp hhdr) (\<lambda>st.
                Ret (upd_hdr last_hdr (\<lambda>r. r\<lparr>hb_flags := hb_flags r OR FREE_BLK\<rparr>) st))))"

text \<open>The chosen block is split at \<open>last_hbp\<close>, the part that is needed is taken and its header set up.\<close>

definition split_at :: "heap_state \<Rightarrow> nat \<Rightarrow> nat \<Rightarrow> nat \<Rightarrow> (nat \<times> heap_state) outcome" where
  "split_at st hbp last_hbp index =
     obind (GET_HDR st hbp) (\<lambda>hhdr.
       if last_hbp \<noteq> hbp then
         obind (on_hdrs_res st (\<lambda>s. GC_install_header s last_hbp)) (\<lambda>(last_hdr, st).
           if last_hdr = 0 then Ret (0, st)
           else
             let st = ensure_mapped st hbp hhdr
             in obind (GC_split_block st hbp hhdr last_hbp last_hdr index) (\<lambda>st. Ret (last_hdr, st)))
       else Ret (hhdr, st))"

section \<open>Dropping a block\<close>

text \<open>
  Every chunk becomes a block in use of its own; the clearing of the memory of the chunks in
  debugging mode has no effect on the allocator's data.
\<close>

function drop_chunks_loop :: "heap_state \<Rightarrow> nat \<Rightarrow> nat \<Rightarrow> nat \<Rightarrow> heap_state outcome" where
  "drop_chunks_loop st hbp hhdr limit =
     (let (_, st) = setup_header st hhdr hbp BLK PTRFREE 0;
          hbp = hbp + BLK
      in if hbp \<ge> limit then Ret st
         else obind (on_hdrs_res st (\<lambda>s. GC_install_header s hbp)) (\<lambda>(hhdr, st).
           if hhdr \<noteq> 0 then drop_chunks_loop st hbp hhdr limit else Ret st))"
  by pat_completeness auto
termination
  by (relation "measure (\<lambda>(st, hbp, hhdr, limit). limit - hbp)") (auto simp: gc_consts)

declare drop_chunks_loop.simps [simp del]

definition drop_hblk_in_chunks :: "heap_state \<Rightarrow> nat \<Rightarrow> nat \<Rightarrow> nat \<Rightarrow> heap_state outcome" where
  "drop_hblk_in_chunks st n hbp hhdr =
     (let total_size = hb_sz (hdr_at st hhdr);
          limit = hbp + total_size div BLK * BLK;
          st = st\<lparr>GC_large_free_bytes := GC_large_free_bytes st - of_nat total_size,
                  GC_bytes_dropped := GC_bytes_dropped st + of_nat total_size\<rparr>
      in obind (GC_remove_from_fl_at st hhdr n) (\<lambda>st. drop_chunks_loop st hbp hhdr limit))"

section \<open>Replacing a block on a list\<close>

lemma seg_replace:
  assumes seg: "seg F p h (as @ x # bs) q" and dist: "distinct (as @ x # bs)" and y: "y \<notin> set (as @ x # bs)" "y \<noteq> 0"
    and r: "F x = Some r" "F y = Some ry" "links ry = links r"
  defines "F1 \<equiv> if as = [] then F else F(last as \<mapsto> (the (F (last as)))\<lparr>hb_next := y\<rparr>)"
  defines "F2 \<equiv> if bs = [] then F1 else F1(hd bs \<mapsto> (the (F1 (hd bs)))\<lparr>hb_prev := y\<rparr>)"
  shows "seg F2 p (if as = [] then y else h) (as @ y # bs) q"
proof -
  have 1: "seg F p h as x" "seg F (last (p # as)) x (x # bs) q" using seg by (auto simp: seg_append)
  have ry: "hb_prev ry = last (p # as)" "hb_next ry = hb_next r" using 1(2) r by (auto simp: links_def)
  have bs: "seg F x (hb_next r) bs q" using 1(2) r(1) by simp
  have A: "seg F1 p (if as = [] then y else h) as y"
  proof (cases as rule: rev_cases)
    case (snoc as' a)
    obtain ra where "F a = Some ra" using seg_Some[OF 1(1)] snoc by auto
    then show ?thesis using seg_set_next[of F p h as' a x ra y] 1(1) dist snoc by (simp add: F1_def)
  qed (simp add: F1_def)
  have "seg F1 x (hb_next r) bs q" using bs dist by (cases as rule: rev_cases) (simp_all add: F1_def)
  then have B: "seg F2 y (hb_next r) bs q" using dist by (cases bs) (auto simp: F2_def)
  have A2: "seg F2 p (if as = [] then y else h) as y" using A dist by (cases bs) (auto simp: F2_def)
  have "F2 y = Some ry" using r(2) y(1) by (cases as rule: rev_cases; cases bs) (auto simp: F1_def F2_def)
  then show ?thesis using A2 B ry y(2) unfolding seg_append by (intro exI[of _ y]) simp
qed

lemma relink_ok:
  assumes hm: "hm L (hs st)" and ok: "fl_ok st ls" and i: "i \<le> N_HBLK_FLS" and ls: "ls i = as @ h # bs"
    and h: "blocks (hs st) h = Some r" and l: "blocks (hs st) l = Some rl" "links rl = links r" "l \<notin> listed ls" "l \<noteq> 0"
  obtains st' where "relink st (hb_prev r) (hb_next r) l i = Ret st'" and "hm L (hs st')"
    and "lists_ok (blocks (hs st')) (GC_hblkfreelist st')
      ((GC_free_bytes st)(i := GC_free_bytes st i - of_nat (hb_sz r) + of_nat (hb_sz rl))) (ls(i := as @ l # bs))"
    and "HDR (hs st') = HDR (hs st)" "frame st st'" "same_core (blocks (hs st)) (blocks (hs st'))"
    and "\<And>x. x \<notin> set (as @ bs) \<Longrightarrow> blocks (hs st') x = blocks (hs st) x" "os_mem (hs st') = os_mem (hs st)"
    and "GC_free_bytes st' = GC_free_bytes st"
proof -
  let ?F = "blocks (hs st)"
  define F1 where "F1 = (if as = [] then ?F else ?F(last as \<mapsto> (the (?F (last as)))\<lparr>hb_next := l\<rparr>))"
  define F2 where "F2 = (if bs = [] then F1 else F1(hd bs \<mapsto> (the (F1 (hd bs)))\<lparr>hb_prev := l\<rparr>))"
  have seg: "seg ?F 0 (GC_hblkfreelist st i) (as @ h # bs) 0" and dist: "distinct (as @ h # bs)"
    and bytes: "GC_free_bytes st i = of_nat (list_bytes ?F (as @ h # bs))"
    using ok i ls unfolding lists_ok_def by metis+
  have lnot: "l \<notin> set (as @ h # bs)" using l(3) ls listedI[of l ls i] by auto
  note rm = seg_remove(1,2)[OF seg dist h]
  note rp = seg_replace[OF seg dist lnot l(4) h l(1,2), folded F1_def, folded F2_def]
  have nz: "x \<noteq> 0" if "x \<in> set (as @ h # bs)" for x using seg_nonzero[OF seg] that by metis
  have prev0: "hb_prev r = 0 \<longleftrightarrow> as = []" using rm(1) nz by (cases as rule: rev_cases) auto
  have next0: "hb_next r = 0 \<longleftrightarrow> bs = []" using rm(2) nz by (cases bs) auto
  define st1 where "st1 = (if as = [] then st\<lparr>GC_hblkfreelist := (GC_hblkfreelist st)(i := l)\<rparr>
    else upd_hdr (HDR (hs st) (hb_prev r)) (\<lambda>x. x\<lparr>hb_next := l\<rparr>) st)"
  have s1: "hm L (hs st1)" "blocks (hs st1) = F1" "HDR (hs st1) = HDR (hs st)" "frame st st1"
    "os_mem (hs st1) = os_mem (hs st)"
    and fl1: "GC_hblkfreelist st1 = (GC_hblkfreelist st)(i := if as = [] then l else GC_hblkfreelist st i)"
    and fb1: "GC_free_bytes st1 = GC_free_bytes st"
  proof -
    obtain ra where "as \<noteq> [] \<Longrightarrow> ?F (last as) = Some ra" using seg_Some[OF seg, of "last as"] by fastforce
    then show "hm L (hs st1)" "blocks (hs st1) = F1" "HDR (hs st1) = HDR (hs st)" "frame st st1"
      "os_mem (hs st1) = os_mem (hs st)"
      "GC_hblkfreelist st1 = (GC_hblkfreelist st)(i := if as = [] then l else GC_hblkfreelist st i)"
      "GC_free_bytes st1 = GC_free_bytes st"
      using hm upd_hdr_ok[OF hm, of "last as" ra] rm(1)
      by (auto simp: st1_def F1_def) (auto simp: upd_hdr_def set_hs_def)
  qed
  define st2 where "st2 = (if bs = [] then st1
    else upd_hdr (HDR (hs st1) (hb_next r)) (\<lambda>x. x\<lparr>hb_prev := l\<rparr>) st1)"
  have s2: "hm L (hs st2)" "blocks (hs st2) = F2" "HDR (hs st2) = HDR (hs st)" "frame st st2"
    "os_mem (hs st2) = os_mem (hs st)"
    and fl2: "GC_hblkfreelist st2 = (GC_hblkfreelist st)(i := if as = [] then l else GC_hblkfreelist st i)"
    and fb2: "GC_free_bytes st2 = GC_free_bytes st"
  proof -
    have "\<exists>rb. F1 (hd bs) = Some rb" if "bs \<noteq> []"
      using seg_Some[OF seg, of "hd bs"] that dist by (cases as rule: rev_cases; cases bs) (auto simp: F1_def)
    then obtain rb where "bs \<noteq> [] \<Longrightarrow> F1 (hd bs) = Some rb" by blast
    then show "hm L (hs st2)" "blocks (hs st2) = F2" "HDR (hs st2) = HDR (hs st)" "frame st st2"
      "os_mem (hs st2) = os_mem (hs st)"
      "GC_hblkfreelist st2 = (GC_hblkfreelist st)(i := if as = [] then l else GC_hblkfreelist st i)"
      "GC_free_bytes st2 = GC_free_bytes st"
      using s1 upd_hdr_ok[OF s1(1), of "hd bs" rb] rm(2) fl1 fb1 frame_trans[OF s1(4) frame_upd_hdr]
      by (auto simp: st2_def F2_def) (auto simp: upd_hdr_def set_hs_def)
  qed
  have core: "same_core ?F F2"
  proof -
    have "same_core ?F F1" using seg_Some[OF seg, of "last as"] by (auto simp: F1_def same_core_upd)
    moreover have "same_core F1 F2"
      using seg_Some[OF rp, of "hd bs"] seg_Some[OF seg, of "hd bs"] dist
      by (cases as rule: rev_cases; cases bs) (auto simp: F1_def F2_def same_core_upd)
    ultimately show ?thesis by (rule same_core_trans)
  qed
  have out: "F2 x = ?F x" if "x \<notin> set (as @ bs)" for x
    using that by (cases as rule: rev_cases; cases bs) (auto simp: F1_def F2_def)
  have run: "relink st (hb_prev r) (hb_next r) l i = Ret st2"
  proof -
    have "(if hb_prev r \<noteq> 0
        then obind (GET_HDR st (hb_prev r)) (\<lambda>phdr. Ret (upd_hdr phdr (\<lambda>r. r\<lparr>hb_next := l\<rparr>) st))
        else Ret (st\<lparr>GC_hblkfreelist := (GC_hblkfreelist st)(i := l)\<rparr>)) = Ret st1"
      by (simp add: prev0 hm_GET_HDR[OF hm] st1_def)
    then show ?thesis by (simp add: relink_def next0 hm_GET_HDR[OF s1(1)] st2_def)
  qed
  have "lists_ok F2 ((GC_hblkfreelist st)(i := if as = [] then l else GC_hblkfreelist st i))
      ((GC_free_bytes st)(i := GC_free_bytes st i - of_nat (hb_sz r) + of_nat (hb_sz rl))) (ls(i := as @ l # bs))"
  proof (rule lists_ok_change[OF ok core i rp])
    show "distinct (as @ l # bs)" using dist lnot by auto
    show "GC_free_bytes st i - of_nat (hb_sz r) + of_nat (hb_sz rl) = of_nat (list_bytes ?F (as @ l # bs))"
      using bytes h l(1) by simp
    have dis: "set (ls i) \<inter> set (ls j) = {}" if "j \<noteq> i" for j using ok that by (metis lists_ok_def)
    then show "set (as @ l # bs) \<inter> set (ls j) = {}" if "j \<noteq> i" for j
      using that l(3) listedI[of l ls j] unfolding ls by auto
    show "F2 x = ?F x" if "j \<noteq> i" "x \<in> set (ls j)" for j x
      using dis[OF that(1)] that(2) out[of x] unfolding ls by auto
  qed
  then show thesis by (intro that[of st2, OF run]) (use s2 core out fl2 fb2 in simp_all)
qed

lemma lists_ok_links:
  assumes "F x = Some r" "links r' = links r" "hb_sz r' = hb_sz r"
  shows "lists_ok (F(x \<mapsto> r')) fl fb ls = lists_ok F fl fb ls"
proof -
  have "seg (F(x \<mapsto> r')) p h xs q = seg F p h xs q" for p h xs q by (rule seg_cong) (use assms in auto)
  moreover have "list_bytes (F(x \<mapsto> r')) xs = list_bytes F xs" for xs by (rule list_bytes_cong) (use assms in auto)
  ultimately show ?thesis by (simp add: lists_ok_def)
qed

lemma core_flags: "core r = core r' \<Longrightarrow> core (r\<lparr>hb_flags := hb_flags r OR f\<rparr>) = core (r'\<lparr>hb_flags := hb_flags r' OR f\<rparr>)"
proof -
  assume c: "core r = core r'"
  have "core (r\<lparr>hb_flags := v\<rparr>) = (core r)\<lparr>hb_flags := v\<rparr>" for r v by (simp add: core_def)
  then show ?thesis using c core_eqD[OF c] by simp
qed

lemma same_core_upd2: "same_core F G \<Longrightarrow> core r = core r' \<Longrightarrow> same_core (F(x \<mapsto> r)) (G(x \<mapsto> r'))"
  by (simp add: same_core_def)

text \<open>The two parts of a block, both free; the second takes the place of the block on its list.\<close>

definition split_hdr :: "nat \<Rightarrow> nat \<Rightarrow> hdr \<Rightarrow> hdr \<Rightarrow> hdr" where
  "split_hdr l d r r0 = r0\<lparr>hb_prev := hb_prev r, hb_next := hb_next r, hb_block := l, hb_sz := hb_sz r - d, hb_flags := 0\<rparr>"

definition first_hdr :: "heap_state \<Rightarrow> nat \<Rightarrow> hdr \<Rightarrow> hdr" where
  "first_hdr st d r = r\<lparr>hb_last_reclaimed := of_nat (GC_gc_no (hs st)), hb_sz := d\<rparr>"

lemma split_block_ok:
  assumes hm: "hm L (hs st)" and ok: "fl_ok st ls" and h: "h \<in> set (ls i)" "blocks (hs st) h = Some r" "HBLK_IS_FREE r" "h \<noteq> 0"
    and l: "blocks (hs st) (h + d) = Some r0" "h + d \<notin> listed ls" "0 < d" "d < hb_sz r"
  obtains st' ls' where "GC_split_block st h (HDR (hs st) h) (h + d) (HDR (hs st) (h + d)) i = Ret st'" "hm L (hs st')" "fl_ok st' ls'"
    "HDR (hs st') = HDR (hs st)" "frame st st'" "os_mem (hs st') = os_mem (hs st)" "fl_total st' = fl_total st"
    "same_core ((blocks (hs st))(h \<mapsto> first_hdr st d r,
        h + d \<mapsto> (split_hdr (h + d) d r r0)\<lparr>hb_flags := 0 OR FREE_BLK\<rparr>)) (blocks (hs st'))"
    "\<And>x. x \<notin> listed ls \<Longrightarrow> x \<noteq> h + d \<Longrightarrow> blocks (hs st') x = blocks (hs st) x"
    "h + d \<in> set (ls' i)" "listed ls' = insert (h + d) (listed ls)"
    "\<And>x j. x \<in> set (ls' j) \<Longrightarrow> x \<in> set (ls j) \<and> x \<noteq> h \<or> x = h + d \<and> j = i \<or> x = h \<and> fl_class (first_hdr st d r) = j"
proof -
  note result = that
  let ?a = "HDR (hs st) h" and ?l = "h + d" and ?b = "HDR (hs st) (h + d)" and ?B = "blocks (hs st)"
  have i: "i \<le> N_HBLK_FLS" by (rule listed_le[OF ok h(1)])
  obtain as bs where ls: "ls i = as @ h # bs" using split_list[OF h(1)] by blast
  have hl: "h \<in> listed ls" by (rule listedI[of h ls, OF h(1)])
  have dist: "distinct (ls i)" using ok by (simp add: lists_ok_def)
  have rh: "hdr_at st ?a = r" using h(2) by (simp add: blocks_Some)
  define g where "g = split_hdr ?l d r"
  define st1 where "st1 = upd_hdr ?b g st"
  note u1 = upd_hdr_ok[OF hm l(1) refl, of g, folded st1_def]
  have fl1: "GC_hblkfreelist st1 = GC_hblkfreelist st" "GC_free_bytes st1 = GC_free_bytes st" "HDR (hs st1) = HDR (hs st)"
    "os_mem (hs st1) = os_mem (hs st)" "frame st st1"
    by (auto simp: st1_def) (simp_all add: upd_hdr_def set_hs_def)
  have ok1: "fl_ok st1 ls" unfolding u1(2) fl1 using ok l(2) by (simp add: lists_ok_upd)
  have b1: "blocks (hs st1) h = Some r" "blocks (hs st1) ?l = Some (g r0)" "links (g r0) = links r"
    using u1(2) h(2) l(3) by (simp_all add: g_def split_hdr_def links_def)
  have l0: "?l \<noteq> 0" using l(3) by simp
  obtain st2 where s2: "relink st1 (hb_prev r) (hb_next r) ?l i = Ret st2" "hm L (hs st2)"
    "lists_ok (blocks (hs st2)) (GC_hblkfreelist st2)
      ((GC_free_bytes st1)(i := GC_free_bytes st1 i - of_nat (hb_sz r) + of_nat (hb_sz (g r0)))) (ls(i := as @ ?l # bs))"
    "HDR (hs st2) = HDR (hs st1)" "frame st1 st2" "same_core (blocks (hs st1)) (blocks (hs st2))"
    "\<And>x. x \<notin> set (as @ bs) \<Longrightarrow> blocks (hs st2) x = blocks (hs st1) x" "os_mem (hs st2) = os_mem (hs st1)"
    "GC_free_bytes st2 = GC_free_bytes st1"
    by (rule relink_ok[OF u1(1) ok1 i ls b1 l(2) l0]) (rule that)
  let ?ls3 = "ls(i := as @ ?l # bs)"
  define st3 where "st3 = st2\<lparr>GC_free_bytes := (GC_free_bytes st2)(i := GC_free_bytes st2 i - of_nat d)\<rparr>"
  have bytes: "GC_free_bytes st i - of_nat (hb_sz r) + of_nat (hb_sz (g r0)) = GC_free_bytes st i - of_nat d"
    using l(4) by (simp add: g_def split_hdr_def of_nat_diff)
  have ok3: "fl_ok st3 ?ls3" using s2(3,9) fl1(2) bytes by (simp add: st3_def)
  have gc3: "GC_gc_no (hs st3) = GC_gc_no (hs st)"
    using frame_trans[OF fl1(5) s2(5)] by (auto simp: st3_def frame_def)
  have b3: "hm L (hs st3)" "HDR (hs st3) = HDR (hs st)" "blocks (hs st3) h = Some r"
    using s2(2,4,7) fl1(3) b1(1) dist ls by (simp_all add: st3_def)
  define st4 where "st4 = upd_hdr ?a (first_hdr st d) st3"
  note u4 = upd_hdr_ok[OF b3(1,3), of ?a "first_hdr st d", folded st4_def]
  have fl4: "GC_hblkfreelist st4 = GC_hblkfreelist st3" "GC_free_bytes st4 = GC_free_bytes st3" "HDR (hs st4) = HDR (hs st)"
    "os_mem (hs st4) = os_mem (hs st)" "frame st3 st4"
    using b3(2) s2(8) fl1(4) by (auto simp: st4_def st3_def) (simp_all add: upd_hdr_def set_hs_def)
  have listed3: "listed ?ls3 = insert ?l (listed ls - {h})"
  proof -
    have "remove1 h (ls i) = as @ bs" using ls dist by (simp add: remove1_append)
    then have "listed (ls(i := as @ bs)) = listed ls - {h}" using listed_upd(1)[OF ok h(1)] by simp
    moreover have "x \<in> listed ?ls3 \<longleftrightarrow> x = ?l \<or> x \<in> listed (ls(i := as @ bs))" for x
      unfolding listed_def by (auto split: if_splits)
    ultimately show ?thesis by blast
  qed
  have hn: "h \<notin> listed ?ls3" using listed3 l(3) by simp
  have b4: "hm L (hs st4)" "blocks (hs st4) = (blocks (hs st2))(h \<mapsto> first_hdr st d r)"
    using u4 b3(2) by (simp_all add: st3_def)
  have b4h: "blocks (hs st4) h = Some (first_hdr st d r)" using b4(2) by simp
  have ok4: "fl_ok st4 ?ls3" unfolding b4(2) fl4 using ok3 hn by (simp add: lists_ok_upd st3_def)
  define c where "c = fl_class (first_hdr st d r)"
  let ?ls5 = "?ls3(c := h # ?ls3 c)"
  obtain st5 where s5: "GC_add_to_fl st4 h (HDR (hs st4) h) = Ret st5" "hm L (hs st5)" "fl_ok st5 ?ls5"
    "HDR (hs st5) = HDR (hs st4)" "frame st4 st5"
    "same_core ((blocks (hs st4))(h \<mapsto> (first_hdr st d r)\<lparr>hb_flags := hb_flags (first_hdr st d r) OR FREE_BLK\<rparr>)) (blocks (hs st5))"
    "\<And>x. x \<noteq> h \<Longrightarrow> x \<notin> set (?ls3 c) \<Longrightarrow> blocks (hs st5) x = blocks (hs st4) x" "os_mem (hs st5) = os_mem (hs st4)"
    "GC_free_bytes st5 = (GC_free_bytes st4)(c := GC_free_bytes st4 c + of_nat (hb_sz (first_hdr st d r)))"
    by (rule GC_add_to_fl_ok[OF b4(1) ok4 b4h h(4) hn, folded c_def]) (rule that)
  have again: "(first_hdr st d r)\<lparr>hb_flags := hb_flags (first_hdr st d r) OR FREE_BLK\<rparr> = first_hdr st d r"
    by (rule free_again) (use h(3) in \<open>simp add: first_hdr_def\<close>)
  have core5: "same_core ((blocks (hs st1))(h \<mapsto> first_hdr st d r)) (blocks (hs st5))"
    using same_core_trans[OF same_core_upd2[OF s2(6) refl] s5(6)[unfolded again b4(2) fun_upd_upd]] .
  have "((blocks (hs st1))(h \<mapsto> first_hdr st d r)) ?l = Some (g r0)" using b1(2) l(3) by simp
  then obtain r5 where r5: "blocks (hs st5) ?l = Some r5" "core r5 = core (g r0)" by (rule same_core_Some[OF core5])
  define st6 where "st6 = upd_hdr ?b (\<lambda>r. r\<lparr>hb_flags := hb_flags r OR FREE_BLK\<rparr>) st5"
  have HDR5: "?b = HDR (hs st5) ?l" using s5(4) fl4(3) by simp
  note u6 = upd_hdr_ok[OF s5(2) r5(1) HDR5, of "\<lambda>r. r\<lparr>hb_flags := hb_flags r OR FREE_BLK\<rparr>", folded st6_def]
  have fl6: "GC_hblkfreelist st6 = GC_hblkfreelist st5" "GC_free_bytes st6 = GC_free_bytes st5" "HDR (hs st6) = HDR (hs st)"
    "os_mem (hs st6) = os_mem (hs st)" "frame st5 st6"
    using s5(4,8) fl4(3,4) by (auto simp: st6_def) (simp_all add: upd_hdr_def set_hs_def)
  have run: "GC_split_block st h ?a ?l ?b i = Ret st6"
  proof -
    have st1': "st1 = upd_hdr ?b (\<lambda>x. x\<lparr>hb_prev := hb_prev r, hb_next := hb_next r, hb_block := ?l, hb_sz := hb_sz r - (?l - h), hb_flags := 0\<rparr>) st"
      unfolding st1_def by (rule arg_cong[of _ _ "\<lambda>f. upd_hdr ?b f st"]) (simp add: g_def split_hdr_def fun_eq_iff)
    have st4': "st4 = upd_hdr ?a (\<lambda>r. r\<lparr>hb_last_reclaimed := of_nat (GC_gc_no (hs st3)), hb_sz := ?l - h\<rparr>) st3"
      unfolding st4_def gc3 by (rule arg_cong[of _ _ "\<lambda>f. upd_hdr ?a f st3"]) (simp add: first_hdr_def fun_eq_iff)
    have st3': "st3 = st2\<lparr>GC_free_bytes := (GC_free_bytes st2)(i := GC_free_bytes st2 i - of_nat (?l - h))\<rparr>" by (simp add: st3_def)
    have "GC_add_to_fl st4 h ?a = Ret st5" using s5(1) fl4(3) by simp
    then show ?thesis
      unfolding GC_split_block_def Let_def rh st1'[symmetric] s2(1) obind.simps st3'[symmetric] st4'[symmetric]
      by (simp add: st6_def)
  qed
  have ok6: "fl_ok st6 ?ls5"
    unfolding u6(2) fl6 using s5(3) r5(1) by (simp add: lists_ok_links links_def)
  have core6: "same_core (?B(h \<mapsto> first_hdr st d r, ?l \<mapsto> (split_hdr ?l d r r0)\<lparr>hb_flags := 0 OR FREE_BLK\<rparr>)) (blocks (hs st6))"
  proof -
    have "?B(h \<mapsto> first_hdr st d r, ?l \<mapsto> (g r0)\<lparr>hb_flags := hb_flags (g r0) OR FREE_BLK\<rparr>)
        = (blocks (hs st1))(h \<mapsto> first_hdr st d r, ?l \<mapsto> (g r0)\<lparr>hb_flags := hb_flags (g r0) OR FREE_BLK\<rparr>)"
      using u1(2) l(3) by (auto simp: fun_eq_iff)
    then show ?thesis
      using same_core_upd2[OF core5 core_flags[OF r5(2)[symmetric]], of ?l FREE_BLK] u6(2) by (simp add: g_def split_hdr_def)
  qed
  have fr: "frame st st6"
    by (rule frame_trans[OF fl1(5) frame_trans[OF s2(5) frame_trans[OF _ frame_trans[OF fl4(5) frame_trans[OF s5(5) fl6(5)]]]]])
      (simp add: st3_def)
  have tot: "fl_total st6 = fl_total st"
  proof -
    have "fl_total st3 = fl_total st - of_nat d" using fl_total_upd[OF i, of st3 st2] s2(9) fl1(2) by (simp add: st3_def fl_total_def)
    moreover have "fl_total st5 = fl_total st4 + of_nat d"
      using fl_total_upd[OF GC_hblk_fl_from_blocks_le s5(9)[unfolded c_def]] by (simp add: first_hdr_def)
    ultimately show ?thesis using fl6(2) fl4(2) by (simp add: fl_total_def)
  qed
  show thesis
  proof (rule result[of st6 ?ls5, OF run u6(1) ok6 fl6(3) fr fl6(4) tot core6])
    show "blocks (hs st6) x = ?B x" if "x \<notin> listed ls" "x \<noteq> ?l" for x
    proof -
      have x: "x \<noteq> h" using that hl by metis
      have "x \<notin> listed ?ls3" using that listed3 by simp
      then have x2: "x \<notin> set (?ls3 c)" by (metis listedI)
      have x3: "x \<notin> set (as @ bs)" using that(1) listedI[of x ls i] ls by auto
      have "blocks (hs st6) x = blocks (hs st5) x" "blocks (hs st4) x = blocks (hs st2) x" "blocks (hs st1) x = ?B x"
        using u6(2) b4(2) u1(2) that(2) x by simp_all
      then show ?thesis using s5(7)[OF x x2] s2(7)[OF x3] by simp
    qed
    show "?l \<in> set (?ls5 i)" by simp
    show "listed ?ls5 = insert ?l (listed ls)" using listed_upd(2)[OF ok4] listed3 hl by auto
    show "x \<in> set (ls j) \<and> x \<noteq> h \<or> x = ?l \<and> j = i \<or> x = h \<and> fl_class (first_hdr st d r) = j" if "x \<in> set (?ls5 j)" for x j
      using that ls dist hn listedI[of x ?ls3 j] by (auto simp: c_def listed_def split: if_splits)
  qed
qed

lemma ensure_mapped_ok:
  assumes hm: "hm L (hs st)" and h: "blocks (hs st) h = Some r"
  defines "st' \<equiv> ensure_mapped st h (HDR (hs st) h)"
  obtains r' where "hm L (hs st')" "blocks (hs st') = (blocks (hs st))(h \<mapsto> r')" "shape r' = shape r" "links r' = links r"
    "HDR (hs st') = HDR (hs st)" "frame_os st st'" "os_mem (hs st') = os_mem (hs st)"
    "GC_hblkfreelist st' = GC_hblkfreelist st" "GC_free_bytes st' = GC_free_bytes st"
proof -
  note result = that
  let ?a = "HDR (hs st) h"
  have rh: "hdr_at st ?a = r" using h by (simp add: blocks_Some)
  show thesis
  proof (cases "IS_MAPPED r")
    case True
    then have "st' = st" using rh by (simp add: st'_def ensure_mapped_def)
    then show thesis using h hm by (intro result[of r]) auto
  next
    case False
    let ?f = "\<lambda>r. r\<lparr>hb_flags := hb_flags r AND NOT WAS_UNMAPPED\<rparr>"
    define st1 where "st1 = os_call (GC_remap h (hb_sz r)) st"
    have s1: "hm L (hs st1)" "blocks (hs st1) h = Some r" "HDR (hs st1) = HDR (hs st)" using hm h by (simp_all add: st1_def os_call_def)
    have st': "st' = upd_hdr ?a ?f st1" using rh False by (simp add: st'_def ensure_mapped_def st1_def)
    note u = upd_hdr_ok[OF s1(1,2), of ?a ?f, folded st']
    have t: "shape (?f r) = shape r" "links (?f r) = links r" using touch_flags(2)[of r] by (simp_all add: touch_def)
    have fr: "frame_os st st'" unfolding st' by (rule frame_os_trans[OF _ frame_osI[OF frame_upd_hdr]]) (simp add: st1_def frame_os_call)
    have fl: "GC_hblkfreelist st' = GC_hblkfreelist st" "GC_free_bytes st' = GC_free_bytes st"
      by (simp_all add: st' st1_def os_call_def upd_hdr_def set_hs_def)
    show thesis
      by (rule result[of "?f r"]) (use u s1(3) t fr fl in \<open>auto simp: st' st1_def os_call_def\<close>)
  qed
qed

text \<open>What a free block split at \<open>l\<close> means for the heap: the second part may be on the wrong list.\<close>

definition split_off :: "nat \<Rightarrow> heap_state \<Rightarrow> nat \<Rightarrow> nat \<Rightarrow> nat \<Rightarrow> heap_state \<Rightarrow> bool" where
  "split_off L st l e i st' \<longleftrightarrow> (\<exists>ls' r'. heap_inv L st' ls' {} {l} \<and> l \<in> set (ls' i) \<and> blocks (hs st') l = Some r' \<and> l + ext r' = e)
     \<and> keeps_used (blocks (hs st)) (blocks (hs st')) \<and> free_area (blocks (hs st')) = free_area (blocks (hs st))
     \<and> fl_total st' = fl_total st \<and> GC_large_free_bytes st' = GC_large_free_bytes st
     \<and> GC_bytes_dropped st' = GC_bytes_dropped st \<and> alloc_frame st st'"

lemma split_assemble:
  assumes inv: "heap_inv L st ls {} {}" and h: "h \<in> set (ls i)" "blocks (hs st) h = Some r"
    and d: "BLK dvd d" "0 < d" "d < ext r"
    and st': "hm L (hs st')" "fl_ok st' ls'" "same_core ((blocks (hs st))(h \<mapsto> rn, h + d \<mapsto> rr)) (blocks (hs st'))"
    and HDR: "\<And>q. BLK dvd q \<Longrightarrow> q \<noteq> h + d \<Longrightarrow> HDR (hs st') q = HDR (hs st) q"
    and rn: "shape rn = (h, d, True)" and rr: "shape rr = (h + d, ext r - d, True)"
    and unl: "\<And>x. x \<notin> listed ls \<Longrightarrow> x \<noteq> h + d \<Longrightarrow> blocks (hs st') x = blocks (hs st) x"
    and listed: "listed ls' = insert (h + d) (listed ls)"
    and mem: "\<And>x j. x \<in> set (ls' j) \<Longrightarrow> x \<in> set (ls j) \<and> x \<noteq> h \<or> x = h + d \<and> j = i \<or> x = h \<and> fl_class rn = j"
  shows "heap_inv L st' ls' {} {h + d}" "keeps_used (blocks (hs st)) (blocks (hs st'))"
    "free_area (blocks (hs st')) = free_area (blocks (hs st))" "\<exists>r'. blocks (hs st') (h + d) = Some r' \<and> h + d + ext r' = h + ext r"
proof -
  note D = heap_invD[OF inv]
  define F where "F = blocks (hs st)"
  have free: "HBLK_IS_FREE r" using D(5)[OF h(1)] h(2) by auto
  have p: "parts (HDR (hs st)) F" "below F" "F h = Some r" using D(2) hm_below[OF D(1)] h(2) by (simp_all add: F_def)
  have h64: "h < 2 ^ 64" by (rule blocks_below[OF D(1) h(2)])
  note ok = parts_blk_ok(1)[OF D(2,1) h(2)]
  have n: "HBLK_IS_FREE rn" "ext rn = d" "hb_block rn = h" "hb_sz rn = d" using rn by (auto simp: shape_def ext_free)
  have m: "HBLK_IS_FREE rr" "ext rr = ext r - d" "hb_block rr = h + d" "hb_sz rr = ext r - d" using rr by (auto simp: shape_def ext_free)
  have dvd: "BLK dvd h" "BLK dvd ext r - d" using ok d by (auto simp: blk_ok_def)
  have okn: "blk_ok h rn" "blk_ok (h + d) rr" using ok n m d dvd by (auto simp: blk_ok_def)
  have none: "F (h + d) = None" using parts_no_start[OF p, of "h + d"] d by simp
  define F' where "F' = F(h \<mapsto> rn, h + d \<mapsto> rr)"
  have core: "same_core F' (blocks (hs st'))" using st'(3) by (simp add: F'_def F_def)
  have c: "carved F h r rn (Some rr) F'" using p(3) okn n m d by (simp add: carved_def F'_def)
  have p': "parts (HDR (hs st')) F'"
  proof (rule parts_carve[OF p(1,2) c])
    fix q assume q: "BLK dvd q" "h < q" "q < h + ext rn"
    then show "HDR (hs st') q = (if HBLK_IS_FREE rn then 0 else min ((q - h) div BLK) MAX_JUMP)"
      using HDR[OF q(1)] parts_in_inside[OF p(1,3) q(1) _ h64 q(2)] free n d by simp
  next
    fix q assume q: "BLK dvd q" "h + ext rn < q" "q < h + ext r"
    then show "HDR (hs st') q = 0" using HDR[OF q(1)] parts_in_inside[OF p(1,3) q(1) _ h64] free n by simp
  next
    fix q assume q: "BLK dvd q" "q < h \<or> h + ext r \<le> q"
    then show "HDR (hs st') q = HDR (hs st) q" using HDR[OF q(1)] d by auto
  qed simp
  have "inv_on (HDR (hs st')) (blocks (hs st')) (GC_hblkfreelist st') (GC_free_bytes st') ls' {} {h + d}"
  proof (rule inv_on_via[OF core p' st'(2)])
    fix x j assume x: "x \<in> set (ls' j)"
    then consider "x = h" "fl_class rn = j" | "x = h + d" | "x \<in> set (ls j)" "x \<noteq> h" "x \<noteq> h + d" using mem[OF x] by blast
    then show "\<exists>r. F' x = Some r \<and> HBLK_IS_FREE r \<and> (x \<in> {h + d} \<or> fl_class r = j)"
    proof cases
      case 3
      then show ?thesis using D(5)[OF 3(1)] by (auto simp: F'_def F_def)
    qed (use n m d in \<open>auto simp: F'_def\<close>)
  next
    fix x rx assume x: "F' x = Some rx" "HBLK_IS_FREE rx"
    show "x \<in> listed ls'"
    proof (cases "x = h \<or> x = h + d")
      case True
      then show ?thesis using listed listedI[of h ls i, OF h(1)] by auto
    next
      case False
      then show ?thesis using x D(6)[of x rx] listed by (simp add: F'_def F_def)
    qed
  qed
  then show "heap_inv L st' ls' {} {h + d}" using st'(1) by (simp add: heap_inv_def)
  have below': "below F'" unfolding below_def using hm_below[OF st'(1)] same_core_Some[OF core] by (metis below_def)
  have sub: "{h ..< h + ext r} \<subseteq> free_area F" using free_area_at[OF p] free by auto
  have "free_area F' = free_area F" using free_area_carve[OF p(1,2) p' below' c] n d sub by auto
  then show "free_area (blocks (hs st')) = free_area (blocks (hs st))" using free_area_core[OF core] by (simp add: F_def)
  have "F' (h + d) = Some rr" by (simp add: F'_def)
  then obtain r' where "blocks (hs st') (h + d) = Some r'" "core r' = core rr" by (rule same_core_Some[OF core])
  then show "\<exists>r'. blocks (hs st') (h + d) = Some r' \<and> h + d + ext r' = h + ext r" using ext_core[of r' rr h] m d by auto
  show "keeps_used (blocks (hs st)) (blocks (hs st'))"
  proof (unfold keeps_used_def, intro allI impI)
    fix x rx assume x: "blocks (hs st) x = Some rx" "\<not> HBLK_IS_FREE rx"
    moreover have "x \<notin> listed ls" using D(5) x by (fastforce simp: listed_def)
    moreover have "x \<noteq> h + d" using x none by (auto simp: F_def)
    ultimately show "blocks (hs st') x = Some rx" using unl by simp
  qed
qed

lemma split_at_ok:
  assumes inv: "heap_inv L st ls {} {}" and h: "h \<in> set (ls i)" "blocks (hs st) h = Some r"
    and l: "BLK dvd l" "h \<le> l" "l < h + ext r"
  obtains res st' where "split_at st h l i = Ret (res, st')" "os_use (hs st) (hs st') (res \<noteq> 0)"
    "res \<noteq> 0 \<Longrightarrow> res = HDR (hs st') l \<and> split_off L st l (h + ext r) i st'"
proof -
  note result = that and D = heap_invD[OF inv]
  let ?a = "HDR (hs st) h"
  have GET: "GET_HDR st h = Ret ?a" by (rule hm_GET_HDR[OF D(1)])
  have a0: "?a \<noteq> 0" using h(2) by (auto simp: blocks_Some)
  have free: "HBLK_IS_FREE r" using D(5)[OF h(1)] h(2) by auto
  note ok = parts_blk_ok(1)[OF D(2,1) h(2)]
  show thesis
  proof (cases "l = h")
    case True
    have "heap_inv L st ls {} {h}" using inv unfolding heap_inv_def inv_on_def by blast
    then have "split_off L st l (h + ext r) i st"
      unfolding split_off_def True using h by (auto simp: keeps_used_def intro!: exI[of _ ls] exI[of _ r])
    moreover have "split_at st h l i = Ret (?a, st)" using True GET by (simp add: split_at_def)
    ultimately show thesis using result[of ?a st] a0 True by (simp add: os_use_refl)
  next
    case False
    define d where "d = l - h"
    have d: "l = h + d" "0 < d" "d < ext r" "BLK dvd d" using False l ok by (auto simp: d_def blk_ok_def dvd_diff_nat)
    have h64: "h < 2 ^ 64" by (rule blocks_below[OF D(1) h(2)])
    have l64: "l < 2 ^ 64" using ok l(3) by (auto simp: blk_ok_def)
    have HDRl: "HDR (hs st) l = 0" using parts_in_inside[OF D(2) h(2) l(1) _ h64] d free by simp
    have bl: "blocks (hs st) l = None" using HDRl by (simp add: blocks_def)
    have lnot: "l \<notin> listed ls" using bl lists_ok_Some[OF D(3)] by (force simp: listed_def)
    obtain a st1 where s1: "GC_install_header (hs st) l = Ret (a, hs st1)" "st1 = set_hs st (hs st1)" "hm L (hs st1)" "only_hdrs st st1"
      "os_use (hs st) (hs st1) (a \<noteq> 0)" "a = 0 \<Longrightarrow> HDR (hs st1) = HDR (hs st) \<and> blocks (hs st1) = blocks (hs st)"
      "a \<noteq> 0 \<Longrightarrow> HDR (hs st1) l = a \<and> (\<forall>q. BLK dvd q \<longrightarrow> q \<noteq> l \<longrightarrow> HDR (hs st1) q = HDR (hs st) q)
         \<and> (\<exists>r. blocks (hs st1) = (blocks (hs st))(l \<mapsto> r))"
      by (rule install_header_ok[OF D(1) l(1) l64 HDRl]) (rule that)
    have inst: "on_hdrs_res st (\<lambda>s. GC_install_header s l) = Ret (a, st1)"
      using s1(1) s1(2)[symmetric] by (simp add: on_hdrs_res_def)
    show thesis
    proof (cases "a = 0")
      case True
      have run: "split_at st h l i = Ret (0, st1)" using GET False inst True by (simp add: split_at_def)
      show thesis by (rule result[OF run]) (use s1(5) True in simp_all)
    next
      case a: False
      obtain r0 where b1: "blocks (hs st1) = (blocks (hs st))(l \<mapsto> r0)" and HDR1: "HDR (hs st1) l = a"
        "\<And>q. BLK dvd q \<Longrightarrow> q \<noteq> l \<Longrightarrow> HDR (hs st1) q = HDR (hs st) q" using s1(7)[OF a] by blast
      have a1: "HDR (hs st1) h = ?a" using HDR1(2)[of h] ok False by (simp add: blk_ok_def)
      have fl1: "GC_hblkfreelist st1 = GC_hblkfreelist st" "GC_free_bytes st1 = GC_free_bytes st"
        using s1(4) by (simp_all add: only_hdrs_def)
      have ok1: "fl_ok st1 ls" unfolding b1 fl1 using D(3) lnot by (simp add: lists_ok_upd)
      have b1h: "blocks (hs st1) h = Some r" using b1 h(2) False by simp
      define st2 where "st2 = ensure_mapped st1 h (HDR (hs st1) h)"
      obtain r' where s2: "hm L (hs st2)" "blocks (hs st2) = (blocks (hs st1))(h \<mapsto> r')" "shape r' = shape r" "links r' = links r"
        "HDR (hs st2) = HDR (hs st1)" "frame_os st1 st2" "os_mem (hs st2) = os_mem (hs st1)"
        "GC_hblkfreelist st2 = GC_hblkfreelist st1" "GC_free_bytes st2 = GC_free_bytes st1"
        by (rule ensure_mapped_ok[OF s1(3) b1h, folded st2_def]) (rule that)
      have sz': "hb_sz r' = ext r" "HBLK_IS_FREE r'" "hb_block r' = h" using s2(3) free ok by (auto simp: shape_def ext_free blk_ok_def)
      have "hb_sz r' = hb_sz r" using s2(3) by (simp add: shape_def)
      then have ok2: "fl_ok st2 ls" unfolding s2(2,8,9) using ok1 b1h s2(4) by (simp add: lists_ok_links)
      have b2: "blocks (hs st2) h = Some r'" "blocks (hs st2) (h + d) = Some r0" "h \<noteq> 0" "h + d \<notin> listed ls" "d < hb_sz r'"
        using s2(2) b1 d lnot sz' ok by (auto simp: blk_ok_def)
      obtain st3 ls3 where s3: "GC_split_block st2 h (HDR (hs st2) h) (h + d) (HDR (hs st2) (h + d)) i = Ret st3" "hm L (hs st3)" "fl_ok st3 ls3"
        "HDR (hs st3) = HDR (hs st2)" "frame st2 st3" "os_mem (hs st3) = os_mem (hs st2)" "fl_total st3 = fl_total st2"
        "same_core ((blocks (hs st2))(h \<mapsto> first_hdr st2 d r',
            h + d \<mapsto> (split_hdr (h + d) d r' r0)\<lparr>hb_flags := 0 OR FREE_BLK\<rparr>)) (blocks (hs st3))"
        "\<And>x. x \<notin> listed ls \<Longrightarrow> x \<noteq> h + d \<Longrightarrow> blocks (hs st3) x = blocks (hs st2) x"
        "h + d \<in> set (ls3 i)" "listed ls3 = insert (h + d) (listed ls)"
        "\<And>x j. x \<in> set (ls3 j) \<Longrightarrow> x \<in> set (ls j) \<and> x \<noteq> h \<or> x = h + d \<and> j = i \<or> x = h \<and> fl_class (first_hdr st2 d r') = j"
        by (rule split_block_ok[OF s2(1) ok2 h(1) b2(1) sz'(2) b2(3,2,4) d(2) b2(5)]) (rule that)
      define rr where "rr = (split_hdr (h + d) d r' r0)\<lparr>hb_flags := 0 OR FREE_BLK\<rparr>"
      have "(blocks (hs st2))(h \<mapsto> first_hdr st2 d r', h + d \<mapsto> rr) = (blocks (hs st))(h \<mapsto> first_hdr st2 d r', h + d \<mapsto> rr)"
        using s2(2) b1 d(1) by (auto simp: fun_eq_iff)
      then have core: "same_core ((blocks (hs st))(h \<mapsto> first_hdr st2 d r', h + d \<mapsto> rr)) (blocks (hs st3))"
        using s3(8) by (simp add: rr_def)
      have HDR3: "HDR (hs st3) q = HDR (hs st) q" if "BLK dvd q" "q \<noteq> h + d" for q
        using s3(4) s2(5) HDR1(2)[OF that(1)] that(2) d(1) by simp
      have shn: "shape (first_hdr st2 d r') = (h, d, True)" using sz' by (simp add: first_hdr_def shape_def)
      have shr: "shape rr = (h + d, ext r - d, True)"
        using sz'(1) by (simp add: rr_def shape_def split_hdr_def HBLK_IS_FREE_def FREE_BLK_def)
      have unl: "blocks (hs st3) x = blocks (hs st) x" if "x \<notin> listed ls" "x \<noteq> h + d" for x
      proof -
        have "x \<noteq> h" using that(1) listedI[of h ls, OF h(1)] by metis
        then show ?thesis using s3(9)[OF that] s2(2) b1 that(2) d(1) by simp
      qed
      note asm = split_assemble[OF inv h d(4,2,3) s3(2,3) core HDR3 shn shr unl s3(11,12)]
      have st3: "frame_os st1 st3" by (rule frame_os_trans[OF s2(6) frame_osI[OF s3(5)]])
      have fields: "GC_large_free_bytes st3 = GC_large_free_bytes st" "GC_bytes_dropped st3 = GC_bytes_dropped st"
        using frame_osD(1)[OF st3] frame_os_dropped[OF st3] s1(4) by (simp_all add: only_hdrs_def)
      have tot: "fl_total st3 = fl_total st" using s3(7) s2(9) fl1(2) by (simp add: fl_total_def)
      have fr: "alloc_frame st st3" by (rule alloc_frame_trans[OF alloc_frame_only[OF s1(4)] alloc_frame_os[OF st3]])
      have l3: "h + d \<in> set (ls3 i)" by (rule s3(10))
      have off: "split_off L st l (h + ext r) i st3"
        unfolding split_off_def d(1) using asm l3 tot fields fr by blast
      have run: "split_at st h l i = Ret (a, st3)"
        using GET False inst a s3(1) d(1) HDR1(1) s2(5) a1 by (simp add: split_at_def Let_def st2_def)
      show thesis
      proof (rule result[OF run])
        show "os_use (hs st) (hs st3) (a \<noteq> 0)" using s1(5) s3(6) s2(7) by (simp add: os_use_def)
        show "a = HDR (hs st3) l \<and> split_off L st l (h + ext r) i st3" using off HDR1(1) s3(4) s2(5) by simp
      qed
    qed
  qed
qed

section \<open>Dropping a block in chunks\<close>

text \<open>The beginning of a free block that is on no list becomes a block in use.\<close>

lemma inv_carve_used:
  assumes inv: "inv_on H F fl fb ls {p} {}" and b: "below F" and V: "F p = Some V" "HBLK_IS_FREE V"
    and c: "carved F p V rn rest F'" and rn: "\<not> HBLK_IS_FREE rn"
    and H: "\<And>q. BLK dvd q \<Longrightarrow> p < q \<Longrightarrow> q < p + ext rn \<Longrightarrow> H' q = min ((q - p) div BLK) MAX_JUMP"
      "\<And>q. BLK dvd q \<Longrightarrow> p + ext rn < q \<Longrightarrow> q < p + ext V \<Longrightarrow> H' q = 0"
      "ext rn < ext V \<Longrightarrow> rest = None \<Longrightarrow> H' (p + ext rn) = 0"
      "\<And>q. BLK dvd q \<Longrightarrow> q < p \<or> p + ext V \<le> q \<Longrightarrow> H' q = H q"
  shows "inv_on H' F' fl fb ls (if ext rn < ext V \<and> rest \<noteq> None then {p + ext rn} else {}) {}" (is "inv_on _ _ _ _ _ ?X _")
proof -
  have p: "parts H F" and lists: "lists_ok F fl fb ls"
    and mem: "\<And>x i. x \<in> set (ls i) \<Longrightarrow> \<exists>r. F x = Some r \<and> HBLK_IS_FREE r \<and> fl_class r = i"
    and cov: "\<And>x r. F x = Some r \<Longrightarrow> HBLK_IS_FREE r \<Longrightarrow> x = p \<or> x \<in> listed ls" and pn: "p \<notin> listed ls"
    using inv unfolding inv_on_def by auto
  note C = carvedD[OF c]
  have none: "F (p + ext rn) = None" if "ext rn < ext V" using parts_no_start[OF p b V(1)] that C(4) by simp
  have F': "F' x = F x" if "x \<in> listed ls" for x
  proof -
    have "x \<noteq> p" using pn that by metis
    moreover have "F' x = F x" if x: "x = p + ext rn"
    proof (cases "ext rn < ext V")
      case True
      obtain i where "x \<in> set (ls i)" using \<open>x \<in> listed ls\<close> by (auto simp: listed_def)
      then show ?thesis using mem[of x i] none[OF True] x by auto
    next
      case False
      then show ?thesis using C(3,8) x by simp
    qed
    ultimately show ?thesis using C(6) by metis
  qed
  have lists': "lists_ok F' fl fb ls"
  proof -
    have "seg F' 0 (fl i) (ls i) 0 = seg F 0 (fl i) (ls i) 0" for i by (rule seg_cong) (simp add: F' listedI)
    moreover have "list_bytes F' (ls i) = list_bytes F (ls i)" for i by (rule list_bytes_cong) (simp add: F' listedI)
    ultimately show ?thesis using lists by (simp add: lists_ok_def)
  qed
  show ?thesis
    unfolding inv_on_def
  proof (intro conjI allI impI)
    show "parts H' F'" by (rule parts_carve[OF p b c]) (use H rn in simp_all)
    show "lists_ok F' fl fb ls" by (rule lists')
    show "\<exists>r. F' x = Some r \<and> HBLK_IS_FREE r \<and> (x \<in> {} \<or> fl_class r = i)" if "x \<in> set (ls i)" for x i
      using mem[OF that] F'[OF listedI[of x ls, OF that]] by simp
    show "x \<in> ?X \<or> x \<in> listed ls" if x: "F' x = Some r" "HBLK_IS_FREE r" for x r
    proof -
      have xp: "x \<noteq> p" using x C(5) rn by auto
      show ?thesis
      proof (cases "x = p + ext rn \<and> ext rn < ext V")
        case True
        then show ?thesis using x(1) C(7) by auto
      next
        case False
        then have "F' x = F x" using C(6)[of x] C(3,8) xp by (cases "x = p + ext rn") auto
        then show ?thesis using cov[of x r] x xp by simp
      qed
    qed
    have "p + ext rn \<notin> listed ls" if "ext rn < ext V"
      using none[OF that] mem by (force simp: listed_def)
    then show "?X \<inter> listed ls = {}" by auto
  qed
qed

text \<open>\<open>p\<close> begins a part of the heap of \<open>n\<close> bytes that counts as one free block, whatever its header says.\<close>

definition dropping :: "nat \<Rightarrow> heap_state \<Rightarrow> (nat \<Rightarrow> nat list) \<Rightarrow> nat \<Rightarrow> hdr \<Rightarrow> bool" where
  "dropping L st ls p V \<longleftrightarrow> hm L (hs st) \<and> (\<exists>r. blocks (hs st) p = Some r) \<and> HBLK_IS_FREE V \<and> blk_ok p V
     \<and> inv_on (HDR (hs st)) ((blocks (hs st))(p \<mapsto> V)) (GC_hblkfreelist st) (GC_free_bytes st) ls {p} {}"

definition dropped :: "nat \<Rightarrow> heap_state \<Rightarrow> (nat \<Rightarrow> nat list) \<Rightarrow> nat \<Rightarrow> hdr \<Rightarrow> heap_state \<Rightarrow> bool" where
  "dropped L st ls p V st' \<longleftrightarrow> heap_inv L st' ls {} {} \<and> keeps_used ((blocks (hs st))(p \<mapsto> V)) (blocks (hs st'))
     \<and> free_area (blocks (hs st')) = free_area ((blocks (hs st))(p \<mapsto> V)) - {p ..< p + ext V}
     \<and> only_hdrs st st' \<and> os_use (hs st) (hs st') True"

lemma below_upd: "below F \<Longrightarrow> F p = Some r \<Longrightarrow> below (F(p \<mapsto> V))"
  by (auto simp: below_def)

lemma drop_chunk:
  assumes d: "dropping L st ls p V"
  obtains b st1 rn where "setup_header st (HDR (hs st) p) p BLK PTRFREE 0 = (b, st1)" "hm L (hs st1)" "HDR (hs st1) = HDR (hs st)"
    "blocks (hs st1) = (blocks (hs st))(p \<mapsto> rn)" "only_hdrs st st1" "os_use (hs st) (hs st1) True"
    "blk_ok p rn" "ext rn = BLK" "\<not> HBLK_IS_FREE rn" "BLK \<le> ext V"
proof -
  obtain r where r: "blocks (hs st) p = Some r" and hm: "hm L (hs st)" using d by (auto simp: dropping_def)
  have V: "HBLK_IS_FREE V" "blk_ok p V" using d by (simp_all add: dropping_def)
  have le: "BLK \<le> ext V" using V(2) by (auto simp: blk_ok_def dest: dvd_imp_le)
  have fl: "\<not> bit (0 :: 32 word) 1" "\<not> bit (0 :: 32 word) 2" by simp_all
  obtain b st1 rn where s: "setup_header st (HDR (hs st) p) p BLK PTRFREE 0 = (b, st1)" "hm L (hs st1)" "HDR (hs st1) = HDR (hs st)"
    "blocks (hs st1) = (blocks (hs st))(p \<mapsto> rn)" "hb_block rn = p" "hb_sz rn = (if b then BLK else BLK)" "\<not> HBLK_IS_FREE rn" "IS_MAPPED rn"
    "b \<Longrightarrow> new_hdr st p BLK PTRFREE rn" "only_hdrs st st1" "os_use (hs st) (hs st1) b"
    by (rule setup_header_ok[OF hm r fl]) (rule that)
  have e: "ext rn = BLK" using s(6,7) by (simp add: ext_def OBJ_SZ_TO_BLOCKS_def BLK_def)
  have "0 < BLK" by (simp add: BLK_def)
  then have "blk_ok p rn" using V(2) s(5,6) e le by (simp add: blk_ok_def)
  then show thesis using that[OF s(1-4,10) os_use_weaken[OF s(11)] _ e s(7) le] by simp
qed

lemma dvd_between: "BLK dvd p \<Longrightarrow> BLK dvd q \<Longrightarrow> p < q \<Longrightarrow> p + BLK \<le> q"
  by (auto simp: BLK_def elim!: dvdE)

text \<open>After the first chunk the rest is a part to drop of its own, or is lost.\<close>

lemma dropped_end:
  assumes d: "dropping L st ls p V" and rn: "blk_ok p rn" "ext rn = BLK" "\<not> HBLK_IS_FREE rn" "BLK \<le> ext V"
    and st': "hm L (hs st')" "HDR (hs st') = HDR (hs st)" "blocks (hs st') = (blocks (hs st))(p \<mapsto> rn)" "only_hdrs st st'"
      "os_use (hs st) (hs st') True"
  shows "dropped L st ls p V st'"
proof -
  let ?F = "(blocks (hs st))(p \<mapsto> V)" and ?F' = "blocks (hs st')"
  obtain r where r: "blocks (hs st) p = Some r" and hm: "hm L (hs st)" using d by (auto simp: dropping_def)
  have V: "HBLK_IS_FREE V" "blk_ok p V" "?F p = Some V" using d by (simp_all add: dropping_def)
  have inv: "inv_on (HDR (hs st)) ?F (GC_hblkfreelist st) (GC_free_bytes st) ls {p} {}" using d by (simp add: dropping_def)
  then have P: "parts (HDR (hs st)) ?F" by (simp add: inv_on_def)
  have b: "below ?F" by (rule below_upd[of "blocks (hs st)", OF hm_below[OF hm] r])
  have p64: "p < 2 ^ 64" by (rule blocks_below[OF hm r])
  have none: "?F (p + BLK) = None" if "BLK < ext V" using parts_no_start[OF P b V(3), of "p + BLK"] that by (simp add: BLK_def)
  have F': "?F' = (if ext rn < ext V then ?F(p \<mapsto> rn, p + ext rn := None) else ?F(p \<mapsto> rn))"
    using none rn(2) st'(3) by (auto simp: fun_eq_iff BLK_def)
  have c: "carved ?F p V rn None ?F'" unfolding carved_def using V rn F' by simp
  have in0: "HDR (hs st) q = 0" if "BLK dvd q" "p < q" "q < p + ext V" for q
    using parts_in_inside[OF P V(3) that(1) _ p64 that(2,3)] V(1) by simp
  have pd: "BLK dvd p" using V(2) by (simp add: blk_ok_def)
  have inv': "inv_on (HDR (hs st')) ?F' (GC_hblkfreelist st) (GC_free_bytes st) ls (if ext rn < ext V \<and> (None :: hdr option) \<noteq> None then {p + ext rn} else {}) {}"
  proof (rule inv_carve_used[OF inv b V(3,1) c rn(3)])
    fix q assume q: "BLK dvd q" "p < q" "q < p + ext rn"
    then show "HDR (hs st') q = min ((q - p) div BLK) MAX_JUMP" using dvd_between[OF pd q(1,2)] rn(2) by simp
  next
    fix q assume q: "BLK dvd q" "p + ext rn < q" "q < p + ext V"
    then show "HDR (hs st') q = 0" using in0[of q] st'(2) by simp
  next
    assume "ext rn < ext V"
    then show "HDR (hs st') (p + ext rn) = 0" using in0[of "p + BLK"] st'(2) rn(2) pd by (simp add: BLK_def)
  qed (use st'(2) in simp)
  have fl: "GC_hblkfreelist st' = GC_hblkfreelist st" "GC_free_bytes st' = GC_free_bytes st"
    using st'(4) by (simp_all add: only_hdrs_def)
  have hi: "heap_inv L st' ls {} {}" using inv' st'(1) fl by (simp add: heap_inv_def)
  have area: "free_area ?F' = free_area ?F - {p ..< p + ext V}"
    using free_area_carve[OF P b heap_invD(2)[OF hi] hm_below[OF st'(1)] c] rn(3) by simp
  show ?thesis unfolding dropped_def using hi area keeps_used_carve[OF c P b V(1)] st'(4,5) by blast
qed

lemma dropping_next:
  assumes d: "dropping L st ls p V" and rn: "blk_ok p rn" "ext rn = BLK" "\<not> HBLK_IS_FREE rn" "BLK < ext V"
    and st': "hm L (hs st')" "\<And>q. BLK dvd q \<Longrightarrow> q \<noteq> p + BLK \<Longrightarrow> HDR (hs st') q = HDR (hs st) q"
      "blocks (hs st') = (blocks (hs st))(p \<mapsto> rn, p + BLK \<mapsto> r0)" "only_hdrs st st'" "os_use (hs st) (hs st') True"
  obtains V' where "dropping L st' ls (p + BLK) V'" "p + BLK + ext V' = p + ext V"
    "\<And>st2. dropped L st' ls (p + BLK) V' st2 \<Longrightarrow> dropped L st ls p V st2"
proof -
  let ?F = "(blocks (hs st))(p \<mapsto> V)" and ?n = "p + BLK"
  define V' where "V' = r0\<lparr>hb_block := ?n, hb_sz := ext V - BLK, hb_flags := FREE_BLK\<rparr>"
  let ?F' = "(blocks (hs st'))(?n \<mapsto> V')"
  obtain r where r: "blocks (hs st) p = Some r" and hm: "hm L (hs st)" using d by (auto simp: dropping_def)
  have V: "HBLK_IS_FREE V" "blk_ok p V" "?F p = Some V" using d by (simp_all add: dropping_def)
  have inv: "inv_on (HDR (hs st)) ?F (GC_hblkfreelist st) (GC_free_bytes st) ls {p} {}" using d by (simp add: dropping_def)
  then have P: "parts (HDR (hs st)) ?F" by (simp add: inv_on_def)
  have b: "below ?F" by (rule below_upd[of "blocks (hs st)", OF hm_below[OF hm] r])
  have p64: "p < 2 ^ 64" by (rule blocks_below[OF hm r])
  have freeV': "HBLK_IS_FREE V'" by (simp add: V'_def HBLK_IS_FREE_def FREE_BLK_def)
  have extV': "ext V' = ext V - BLK" using freeV' by (simp add: ext_free) (simp add: V'_def)
  have pd: "BLK dvd p" "BLK dvd ext V - BLK" using V(2) by (auto simp: blk_ok_def dvd_diff_nat)
  have okV': "blk_ok ?n V'" using V(2) rn(4) extV' pd by (simp add: blk_ok_def) (simp add: V'_def)
  have F': "?F' = ?F(p \<mapsto> rn, ?n \<mapsto> V')" using st'(3) by (auto simp: fun_eq_iff)
  have c: "carved ?F p V rn (Some V') ?F'" unfolding carved_def F' using V rn okV' freeV' extV' by simp
  have in0: "HDR (hs st) q = 0" if "BLK dvd q" "p < q" "q < p + ext V" for q
    using parts_in_inside[OF P V(3) that(1) _ p64 that(2,3)] V(1) by simp
  have fl: "GC_hblkfreelist st' = GC_hblkfreelist st" "GC_free_bytes st' = GC_free_bytes st"
    using st'(4) by (simp_all add: only_hdrs_def)
  have inv': "inv_on (HDR (hs st')) ?F' (GC_hblkfreelist st) (GC_free_bytes st) ls (if ext rn < ext V \<and> Some V' \<noteq> None then {p + ext rn} else {}) {}"
  proof (rule inv_carve_used[OF inv b V(3,1) c rn(3)])
    fix q assume q: "BLK dvd q" "p < q" "q < p + ext rn"
    then show "HDR (hs st') q = min ((q - p) div BLK) MAX_JUMP" using dvd_between[OF pd(1) q(1,2)] rn(2) by simp
  next
    fix q assume q: "BLK dvd q" "p + ext rn < q" "q < p + ext V"
    then show "HDR (hs st') q = 0" using in0[of q] st'(2)[OF q(1)] rn(2) by simp
  next
    fix q assume q: "BLK dvd q" "q < p \<or> p + ext V \<le> q"
    then show "HDR (hs st') q = HDR (hs st) q" using st'(2)[OF q(1)] rn(4) by auto
  qed simp
  have d': "dropping L st' ls ?n V'"
    unfolding dropping_def using st'(1,3) freeV' okV' inv' fl rn(2,4) by simp
  have b': "below ?F'" by (rule below_upd[of "blocks (hs st')" ?n r0, OF hm_below[OF st'(1)]]) (use st'(3) in simp)
  have P': "parts (HDR (hs st')) ?F'" using inv' by (simp add: inv_on_def)
  have area: "free_area ?F' = free_area ?F - {p ..< p + ext V} \<union> {?n ..< p + ext V}"
    using free_area_carve[OF P b P' b' c] rn by simp
  note used = keeps_used_carve[OF c P b V(1)]
  show thesis
  proof (rule that[OF d'])
    show end_eq: "?n + ext V' = p + ext V" using extV' rn(4) by simp
    show "dropped L st ls p V st2" if d2: "dropped L st' ls ?n V' st2" for st2
    proof -
      have "free_area (blocks (hs st2)) = free_area ?F' - {?n ..< p + ext V}" using d2 end_eq by (simp add: dropped_def)
      then have "free_area (blocks (hs st2)) = free_area ?F - {p ..< p + ext V}" using area by auto
      then show ?thesis
        unfolding dropped_def
        using d2 keeps_used_trans[OF used] only_hdrs_trans[OF st'(4)] os_use_trans[OF st'(5)] by (simp add: dropped_def)
    qed
  qed
qed

lemma drop_chunks_loop_ok:
  assumes "dropping L st ls p V" "limit = p + ext V"
  shows "\<exists>st'. drop_chunks_loop st p (HDR (hs st) p) limit = Ret st' \<and> dropped L st ls p V st'"
  using assms
proof (induction "ext V" arbitrary: st p V rule: less_induct)
  case less
  note d = less.prems(1)
  obtain b st1 rn where s: "setup_header st (HDR (hs st) p) p BLK PTRFREE 0 = (b, st1)" "hm L (hs st1)" "HDR (hs st1) = HDR (hs st)"
    "blocks (hs st1) = (blocks (hs st))(p \<mapsto> rn)" "only_hdrs st st1" "os_use (hs st) (hs st1) True"
    and rn: "blk_ok p rn" "ext rn = BLK" "\<not> HBLK_IS_FREE rn" "BLK \<le> ext V"
    by (rule drop_chunk[OF d]) (rule that)
  note fin = dropped_end[OF d rn]
  show ?case
  proof (cases "ext V = BLK")
    case True
    then have "drop_chunks_loop st p (HDR (hs st) p) limit = Ret st1"
      using s(1) less.prems(2) by (subst drop_chunks_loop.simps) simp
    then show ?thesis using fin[OF s(2-6)] by blast
  next
    case False
    let ?n = "p + BLK"
    have lt: "BLK < ext V" using False rn(4) by simp
    have V: "HBLK_IS_FREE V" "blk_ok p V" using d by (simp_all add: dropping_def)
    obtain r where r: "blocks (hs st) p = Some r" and hm: "hm L (hs st)" using d by (auto simp: dropping_def)
    have P: "parts (HDR (hs st)) ((blocks (hs st))(p \<mapsto> V))" using d by (simp add: dropping_def inv_on_def)
    have n: "BLK dvd ?n" "?n < 2 ^ 64" using V(2) lt by (auto simp: blk_ok_def)
    have p64: "p < 2 ^ 64" by (rule blocks_below[OF hm r])
    have "((blocks (hs st))(p \<mapsto> V)) p = Some V" by simp
    then have n0: "HDR (hs st1) ?n = 0" using parts_in_inside[OF P _ n(1) _ p64] V(1) lt s(3) by (simp add: BLK_def)
    obtain a st2 where s2: "GC_install_header (hs st1) ?n = Ret (a, hs st2)" "st2 = set_hs st1 (hs st2)" "hm L (hs st2)" "only_hdrs st1 st2"
      "os_use (hs st1) (hs st2) (a \<noteq> 0)" "a = 0 \<Longrightarrow> HDR (hs st2) = HDR (hs st1) \<and> blocks (hs st2) = blocks (hs st1)"
      "a \<noteq> 0 \<Longrightarrow> HDR (hs st2) ?n = a \<and> (\<forall>q. BLK dvd q \<longrightarrow> q \<noteq> ?n \<longrightarrow> HDR (hs st2) q = HDR (hs st1) q)
         \<and> (\<exists>r. blocks (hs st2) = (blocks (hs st1))(?n \<mapsto> r))"
      by (rule install_header_ok[OF s(2) n n0]) (rule that)
    have inst: "on_hdrs_res st1 (\<lambda>s. GC_install_header s ?n) = Ret (a, st2)"
      using s2(1) s2(2)[symmetric] by (simp add: on_hdrs_res_def)
    have step: "drop_chunks_loop st p (HDR (hs st) p) limit = (if a \<noteq> 0 then drop_chunks_loop st2 ?n a limit else Ret st2)"
      using s(1) less.prems(2) lt inst by (subst drop_chunks_loop.simps) simp
    have only: "only_hdrs st st2" by (rule only_hdrs_trans[OF s(5) s2(4)])
    have os: "os_use (hs st) (hs st2) True" by (rule os_use_trans[OF s(6) os_use_weaken[OF s2(5)]])
    show ?thesis
    proof (cases "a = 0")
      case True
      then have "dropped L st ls p V st2" using fin[OF s2(3) _ _ only os] s2(6) s(3,4) by simp
      then show ?thesis using step True by simp
    next
      case a: False
      obtain r0 where b2: "blocks (hs st2) = (blocks (hs st1))(?n \<mapsto> r0)" and HDR2: "HDR (hs st2) ?n = a"
        "\<And>q. BLK dvd q \<Longrightarrow> q \<noteq> ?n \<Longrightarrow> HDR (hs st2) q = HDR (hs st1) q" using s2(7)[OF a] by blast
      have H: "HDR (hs st2) q = HDR (hs st) q" if "BLK dvd q" "q \<noteq> ?n" for q using HDR2(2)[OF that] s(3) by simp
      obtain V' where V': "dropping L st2 ls ?n V'" "?n + ext V' = p + ext V"
        "\<And>st3. dropped L st2 ls ?n V' st3 \<Longrightarrow> dropped L st ls p V st3"
        by (rule dropping_next[OF d rn(1-3) lt s2(3) H b2[unfolded s(4)] only os]) (assumption, assumption, rule that)
      have "ext V' < ext V" using V'(2) by (simp add: BLK_def)
      then obtain st3 where "drop_chunks_loop st2 ?n (HDR (hs st2) ?n) limit = Ret st3" "dropped L st2 ls ?n V' st3"
        using less.hyps[OF _ V'(1)] V'(2) less.prems(2) by auto
      then show ?thesis using step a HDR2(1) V'(3) by auto
    qed
  qed
qed

lemma drop_hblk_in_chunks_ok:
  assumes inv: "heap_inv L st ls {} {}" and h: "h \<in> set (ls n)" "blocks (hs st) h = Some r"
  obtains st' where "drop_hblk_in_chunks st n h (HDR (hs st) h) = Ret st'" "heap_inv L st' (ls(n := remove1 h (ls n))) {} {}"
    "keeps_used (blocks (hs st)) (blocks (hs st'))" "{h ..< h + ext r} \<subseteq> free_area (blocks (hs st))"
    "free_area (blocks (hs st')) = free_area (blocks (hs st)) - {h ..< h + ext r}" "fl_total st' = fl_total st - of_nat (ext r)"
    "GC_large_free_bytes st' = GC_large_free_bytes st - of_nat (ext r)" "GC_bytes_dropped st' = GC_bytes_dropped st + of_nat (ext r)"
    "alloc_frame st st'" "os_use (hs st) (hs st') True"
proof -
  note result = that and D = heap_invD[OF inv]
  let ?a = "HDR (hs st) h" and ?ls1 = "ls(n := remove1 h (ls n))"
  have n: "n \<le> N_HBLK_FLS" by (rule listed_le[OF D(3) h(1)])
  have free: "HBLK_IS_FREE r" using D(5)[OF h(1)] h(2) by auto
  note ok = parts_blk_ok(1)[OF D(2,1) h(2)]
  have sz: "hb_sz r = ext r" "hb_sz (hdr_at st ?a) = ext r" using free h(2) by (simp_all add: ext_free blocks_Some)
  define st0 where "st0 = st\<lparr>GC_large_free_bytes := GC_large_free_bytes st - of_nat (ext r), GC_bytes_dropped := GC_bytes_dropped st + of_nat (ext r)\<rparr>"
  have hs0: "hs st0 = hs st" "GC_hblkfreelist st0 = GC_hblkfreelist st" "GC_free_bytes st0 = GC_free_bytes st" by (simp_all add: st0_def)
  have inv0: "heap_inv L st0 ls {} {}" using inv by (simp add: heap_inv_def hs0)
  have h0: "blocks (hs st0) h = Some r" using h(2) hs0 by simp
  obtain st1 where s1: "GC_remove_from_fl_at st0 (HDR (hs st0) h) n = Ret st1"
    "heap_inv L st1 ?ls1 (insert h {}) ({} - {h})" "HDR (hs st1) = HDR (hs st0)" "frame st0 st1"
    "same_core (blocks (hs st0)) (blocks (hs st1))"
    "\<And>x. x \<notin> listed ls - {h} \<Longrightarrow> blocks (hs st1) x = blocks (hs st0) x" "os_mem (hs st1) = os_mem (hs st0)"
    "GC_free_bytes st1 = (GC_free_bytes st0)(n := GC_free_bytes st0 n - of_nat (hb_sz r))"
    by (rule inv_remove[OF inv0 h(1) h0]) (rule that)
  have b1: "blocks (hs st1) h = Some r" using s1(6)[of h] h0 by simp
  then have B: "(blocks (hs st1))(h \<mapsto> r) = blocks (hs st1)" by auto
  have d: "dropping L st1 ?ls1 h r"
    unfolding dropping_def using s1(2) b1 free ok B by (simp add: heap_inv_def)
  obtain st2 where s2: "drop_chunks_loop st1 h (HDR (hs st1) h) (h + ext r) = Ret st2" "dropped L st1 ?ls1 h r st2"
    using drop_chunks_loop_ok[OF d refl] by blast
  have lim: "h + ext r div BLK * BLK = h + ext r" using ok by (simp add: blk_ok_def)
  have run: "drop_hblk_in_chunks st n h ?a = Ret st2"
    unfolding drop_hblk_in_chunks_def sz(2) Let_def lim st0_def[symmetric] using s1(1,3) s2(1) hs0(1) by simp
  have area1: "free_area (blocks (hs st1)) = free_area (blocks (hs st))" using free_area_core[OF s1(5)] hs0(1) by simp
  have used1: "keeps_used (blocks (hs st)) (blocks (hs st1))"
  proof (rule keeps_used_listed[of "HDR (hs st)" _ "GC_hblkfreelist st" "GC_free_bytes st" ls "{}" "{}"])
    show "inv_on (HDR (hs st)) (blocks (hs st)) (GC_hblkfreelist st) (GC_free_bytes st) ls {} {}" using inv by (simp add: heap_inv_def)
    show "blocks (hs st1) x = blocks (hs st) x" if "x \<notin> listed ls" for x using s1(6)[of x] that hs0(1) by simp
  qed
  have E: "heap_inv L st2 ?ls1 {} {}" "keeps_used (blocks (hs st1)) (blocks (hs st2))"
    "free_area (blocks (hs st2)) = free_area (blocks (hs st1)) - {h ..< h + ext r}" "only_hdrs st1 st2" "os_use (hs st1) (hs st2) True"
    using s2(2) unfolding dropped_def B by blast+
  show thesis
  proof (rule result[OF run E(1)])
    show "{h ..< h + ext r} \<subseteq> free_area (blocks (hs st))" using free_area_at[OF D(2) hm_below[OF D(1)] h(2)] free by auto
    show "free_area (blocks (hs st2)) = free_area (blocks (hs st)) - {h ..< h + ext r}" using E(3) area1 by simp
    show "keeps_used (blocks (hs st)) (blocks (hs st2))" by (rule keeps_used_trans[OF used1 E(2)])
    have "GC_free_bytes st2 = GC_free_bytes st1" using E(4) by (simp add: only_hdrs_def)
    then show "fl_total st2 = fl_total st - of_nat (ext r)"
      using fl_total_upd[OF n s1(8)] sz(1) hs0(3) by (simp add: fl_total_def)
    show "GC_large_free_bytes st2 = GC_large_free_bytes st - of_nat (ext r)" "GC_bytes_dropped st2 = GC_bytes_dropped st + of_nat (ext r)"
      using E(4) frame_large[OF s1(4)] frame_dropped[OF s1(4)] by (simp_all add: only_hdrs_def st0_def)
    have "alloc_frame st st0" by (simp add: alloc_frame_def st0_def)
    then show "alloc_frame st st2" by (rule alloc_frame_trans[OF _ alloc_frame_trans[OF alloc_frame_frame[OF s1(4)] alloc_frame_only[OF E(4)]]])
    show "os_use (hs st) (hs st2) True" using E(5) s1(7) hs0(1) by (simp add: os_use_def)
  qed
qed

end
