(* ===== verification/Hblk_Alloc.thy ===== *)
theory Hblk_Alloc
  imports Hblk_Split
begin

text \<open>
  Allocation of heap blocks in \<^verbatim>\<open>allchblk.c\<close>: the search of one free list for a block that is large
  enough, aligned and not black listed (\<open>GC_allochblk_nth\<close>), with the splitting of larger blocks and
  the dropping of blocks that are black listed throughout.
\<close>

section \<open>Choosing a block\<close>

definition next_hblk_fits_better :: "heap_state \<Rightarrow> nat \<Rightarrow> nat \<Rightarrow> nat \<Rightarrow> nat \<Rightarrow> bool outcome" where
  "next_hblk_fits_better st hhdr size_avail size_needed align_m1 =
     (let next_hbp = hb_next (hdr_at st hhdr)
      in if next_hbp = 0 then Ret False
         else obind (GET_HDR st next_hbp) (\<lambda>nexthdr.
           let next_size = hb_sz (hdr_at st nexthdr)
           in if size_avail \<le> next_size then Ret False
              else
                let next_ofs = ALIGN_PAD_SZ next_hbp align_m1
                in if (size_needed + next_ofs) mod 2 ^ 64 > next_size then Ret False
                   else Ret (GC_is_black_listed (bls st) (next_hbp + next_ofs div BLK * BLK) size_needed = 0)))"

text \<open>Each round moves \<open>last_hbp\<close> up by a block at least.\<close>

fun find_non_bl_loop :: "nat \<Rightarrow> heap_state \<Rightarrow> nat \<Rightarrow> nat \<Rightarrow> nat \<Rightarrow> nat \<Rightarrow> nat outcome" where
  "find_non_bl_loop 0 st last_hbp search_end eff_size_needed align_m1 = Stuck"
| "find_non_bl_loop (Suc fuel) st last_hbp search_end eff_size_needed align_m1 =
     (let last_hbp = last_hbp + ALIGN_PAD_SZ last_hbp align_m1 div BLK * BLK;
          next_hbp = GC_is_black_listed (bls st) last_hbp eff_size_needed
      in if next_hbp = 0 then Ret last_hbp
         else if search_end \<ge> next_hbp then find_non_bl_loop fuel st next_hbp search_end eff_size_needed align_m1
         else Ret 0)"

definition find_non_bl_hblk :: "heap_state \<Rightarrow> nat \<Rightarrow> nat \<Rightarrow> nat \<Rightarrow> nat \<Rightarrow> nat outcome" where
  "find_non_bl_hblk st last_hbp size_remain eff_size_needed align_m1 =
     (let search_end = unat (PTR_ALIGN_DOWN (of_nat (last_hbp + size_remain)) (of_nat (align_m1 + 1)))
      in find_non_bl_loop FL_FUEL st last_hbp search_end eff_size_needed align_m1)"

definition IS_UNCOLLECTABLE :: "nat \<Rightarrow> bool" where
  "IS_UNCOLLECTABLE k \<longleftrightarrow> k div 2 * 2 = 2"

fun mix_in_page_loop :: "heap_state \<Rightarrow> nat \<Rightarrow> nat \<Rightarrow> bool \<Rightarrow> bool outcome" where
  "mix_in_page_loop st h 0 is_ptrfree = Ret False"
| "mix_in_page_loop st h (Suc n) is_ptrfree =
     obind (GET_HDR st h) (\<lambda>hhdr.
       if hhdr = 0 then mix_in_page_loop st (h + BLK) n is_ptrfree
       else obind (GC_find_starting_hblk st h hhdr) (\<lambda>(_, hhdr).
         if \<not> HBLK_IS_FREE (hdr_at st hhdr) then Ret (IS_PTRFREE (hdr_at st hhdr) \<noteq> is_ptrfree)
         else mix_in_page_loop st (h + BLK) n is_ptrfree))"

definition is_hblks_mix_in_page :: "heap_state \<Rightarrow> nat \<Rightarrow> bool \<Rightarrow> bool outcome" where
  "is_hblks_mix_in_page st hbp is_ptrfree =
     (let page = GC_page_size (hs st);
          h = unat (PTR_ALIGN_DOWN (of_nat hbp) (of_nat page))
      in mix_in_page_loop st h (page div BLK) is_ptrfree)"

section \<open>Allocation from one list\<close>

definition GC_auto_incremental :: "heap_state \<Rightarrow> bool" where
  "GC_auto_incremental st \<longleftrightarrow> GC_incremental st \<and> \<not> GC_manual_vdb st"

definition IS_NON_MPROTECT_VDB :: "heap_state \<Rightarrow> bool" where
  "IS_NON_MPROTECT_VDB st \<longleftrightarrow> clear_refs_fd st \<noteq> -1"

definition GC_is_mprotect_vdb :: "heap_state \<Rightarrow> bool" where
  "GC_is_mprotect_vdb st \<longleftrightarrow> (if IS_NON_MPROTECT_VDB st then False else GC_auto_incremental st)"

datatype split_mode = NO_SPLIT | MAY_SPLIT | AVOID_SPLIT_REMAPPED

definition MAX_BLACK_LIST_ALLOC :: nat where [gc_consts]: "MAX_BLACK_LIST_ALLOC = 2 * BLK"

text \<open>What the search does with a block of the list: go on, allocate from the given address on, or drop the block.\<close>

datatype verdict = Continue | Allocate nat | Drop

definition examine_hblk ::
    "heap_state \<Rightarrow> nat \<Rightarrow> nat \<Rightarrow> 32 word \<Rightarrow> split_mode \<Rightarrow> nat \<Rightarrow> nat \<Rightarrow> nat \<Rightarrow> (verdict \<times> heap_state) outcome" where
  "examine_hblk st size_needed kind flags may_split align_m1 hbp hhdr =
     (let size_avail = hb_sz (hdr_at st hhdr);
          align_ofs = ALIGN_PAD_SZ hbp align_m1
      in if may_split = NO_SPLIT \<and> size_avail \<noteq> size_needed then Ret (Continue, st)
         else if size_avail < (size_needed + align_ofs) mod 2 ^ 64 then Ret (Continue, st)
         else obind (if size_avail \<noteq> size_needed then next_hblk_fits_better st hhdr size_avail size_needed align_m1
                     else Ret False) (\<lambda>better.
           if better then Ret (Continue, st)
           else obind (if GC_page_size (hs st) \<noteq> BLK \<and> (\<not> GC_incremental st \<or> GC_is_mprotect_vdb st)
                       then is_hblks_mix_in_page st hbp (kind = PTRFREE) else Ret False) (\<lambda>mix.
             if mix then Ret (Continue, st)
             else if IS_UNCOLLECTABLE kind \<or> kind = PTRFREE \<and> size_needed \<le> MAX_BLACK_LIST_ALLOC
             then Ret (Allocate (hbp + align_ofs div BLK * BLK), st)
             else obind (find_non_bl_hblk st hbp (size_avail - size_needed)
                           (if flags AND IGNORE_OFF_PAGE \<noteq> 0 then BLK else size_needed) align_m1) (\<lambda>last_hbp.
               if last_hbp \<noteq> 0 then
                 if may_split = AVOID_SPLIT_REMAPPED \<and> last_hbp \<noteq> hbp \<and> \<not> IS_MAPPED (hdr_at st hhdr)
                 then Ret (Continue, st)
                 else Ret (Allocate last_hbp, st)
               else
                 let may_drop = size_needed = BLK \<and> align_m1 = 0 \<and> \<not> GC_find_leak_inner st \<and> IS_MAPPED (hdr_at st hhdr);
                     st = (if may_drop then st\<lparr>GC_drop_blacklisted_count := GC_drop_blacklisted_count st + 1\<rparr> else st)
                 in if may_drop \<and> GC_drop_blacklisted_count st AND 3 = 0 then Ret (Drop, st)
                    else if size_needed > GC_black_list_spacing (bls st)
                            \<and> size_avail - size_needed > GC_black_list_spacing (bls st) then
                      let st = st\<lparr>GC_large_alloc_warn_suppressed := GC_large_alloc_warn_suppressed st + 1\<rparr>;
                          st = (if GC_large_alloc_warn_suppressed st \<ge> GC_large_alloc_warn_interval st
                                then st\<lparr>GC_large_alloc_warn_suppressed := 0\<rparr> else st)
                      in Ret (Allocate (hbp + align_ofs div BLK * BLK), st)
                    else Ret (Continue, st)))))"

text \<open>
  The search of the list from \<open>hbp\<close> on: the block to take and the address in it at which the
  allocated part begins, null when there is none. After a drop the search goes on after the
  predecessor of the dropped block, or from the head of the list when it has none.
\<close>

fun search_fl ::
    "nat \<Rightarrow> heap_state \<Rightarrow> nat \<Rightarrow> nat \<Rightarrow> 32 word \<Rightarrow> nat \<Rightarrow> split_mode \<Rightarrow> nat \<Rightarrow> nat \<Rightarrow> ((nat \<times> nat) \<times> heap_state) outcome" where
  "search_fl 0 st size_needed kind flags index may_split align_m1 hbp = Stuck"
| "search_fl (Suc fuel) st size_needed kind flags index may_split align_m1 hbp =
     (if hbp = 0 then Ret ((0, 0), st)
      else obind (GET_HDR st hbp) (\<lambda>hhdr.
        obind (examine_hblk st size_needed kind flags may_split align_m1 hbp hhdr) (\<lambda>(v, st).
          case v of
            Continue \<Rightarrow> search_fl fuel st size_needed kind flags index may_split align_m1 (hb_next (hdr_at st hhdr))
          | Allocate last_hbp \<Rightarrow> Ret ((hbp, last_hbp), st)
          | Drop \<Rightarrow>
              let prev = hb_prev (hdr_at st hhdr)
              in obind (drop_hblk_in_chunks st index hbp hhdr) (\<lambda>st.
                   if prev = 0
                   then search_fl fuel st size_needed kind flags index may_split align_m1 (GC_hblkfreelist st index)
                   else obind (GET_HDR st prev) (\<lambda>hhdr.
                     search_fl fuel st size_needed kind flags index may_split align_m1 (hb_next (hdr_at st hhdr)))))))"

definition GC_allochblk_nth ::
    "heap_state \<Rightarrow> nat \<Rightarrow> nat \<Rightarrow> 32 word \<Rightarrow> nat \<Rightarrow> split_mode \<Rightarrow> nat \<Rightarrow> (nat \<times> heap_state) outcome" where
  "GC_allochblk_nth st lb_adjusted kind flags index may_split align_m1 =
     (let size_needed = (lb_adjusted + BLK - 1) mod 2 ^ 64 div BLK * BLK
      in obind (search_fl FL_FUEL st size_needed kind flags index may_split align_m1 (GC_hblkfreelist st index))
           (\<lambda>((hbp, last_hbp), st).
              if hbp = 0 then Ret (0, st)
              else obind (split_at st hbp last_hbp index) (\<lambda>(hhdr, st).
                if hhdr = 0 then Ret (0, st)
                else take_part st last_hbp hhdr lb_adjusted size_needed kind flags index)))"

section \<open>Alignment\<close>

text \<open>\<open>al\<close> is the mask of an alignment: none, or a power of two that is a multiple of the block size.\<close>

definition align_ok :: "nat \<Rightarrow> bool" where
  "align_ok al \<longleftrightarrow> (\<exists>k < 64. al + 1 = 2 ^ k \<and> (k = 0 \<or> 12 \<le> k))"

lemma align_okE:
  assumes "align_ok al"
  obtains k where "k < 64" "al + 1 = 2 ^ k" "k = 0 \<or> 12 \<le> k"
  using assms by (auto simp: align_ok_def)

lemma ALIGN_PAD_SZ_mod:
  assumes k: "al + 1 = 2 ^ k" "k < 64" and p: "p \<le> 2 ^ 64"
  shows "ALIGN_PAD_SZ p al = (2 ^ 64 - p) mod 2 ^ k"
proof -
  have al: "al = mask k" using k(1) by (simp add: mask_eq_exp_minus_1 flip: k(1))
  have dvd: "(2 :: nat) ^ k dvd 2 ^ 64" by (rule le_imp_power_dvd) (use k(2) in simp)
  have "ALIGN_PAD_SZ p al = (2 ^ k + (2 ^ 64 - p)) mod 2 ^ 64 mod 2 ^ k"
    unfolding ALIGN_PAD_SZ_def k(1) by (simp only: al take_bit_eq_mask[symmetric] take_bit_eq_mod)
  also have "\<dots> = (2 ^ k + (2 ^ 64 - p)) mod 2 ^ k" by (rule mod_mod_cancel[OF dvd])
  finally show ?thesis by simp
qed

lemma pad_aligned:
  assumes al: "align_ok al" and p: "p \<le> 2 ^ 64"
  shows "al + 1 dvd p + ALIGN_PAD_SZ p al" "p \<le> q \<Longrightarrow> al + 1 dvd q \<Longrightarrow> p + ALIGN_PAD_SZ p al \<le> q"
    "BLK dvd p \<Longrightarrow> BLK dvd ALIGN_PAD_SZ p al"
proof -
  obtain k where k: "k < 64" "al + 1 = 2 ^ k" "k = 0 \<or> 12 \<le> k" by (rule align_okE[OF al])
  define c where "c = ALIGN_PAD_SZ p al"
  have c: "c = (2 ^ 64 - p) mod 2 ^ k" unfolding c_def by (rule ALIGN_PAD_SZ_mod[OF k(2,1) p])
  have dvd: "(2 :: nat) ^ k dvd 2 ^ 64" by (rule le_imp_power_dvd) (use k(1) in simp)
  have "(p + c) mod 2 ^ k = (p + (2 ^ 64 - p)) mod 2 ^ k" unfolding c by (rule mod_add_right_eq)
  also have "\<dots> = 0" using p dvd by (simp add: mod_0_imp_dvd dvd_imp_mod_0)
  finally show d: "al + 1 dvd p + ALIGN_PAD_SZ p al" unfolding k(2) c_def[symmetric] by (simp add: mod_0_imp_dvd)
  have lt: "c < 2 ^ k" unfolding c by simp
  show "p + ALIGN_PAD_SZ p al \<le> q" if q: "p \<le> q" "al + 1 dvd q"
  proof (rule ccontr)
    assume n: "\<not> p + ALIGN_PAD_SZ p al \<le> q"
    have "2 ^ k dvd (p + c) - q" using d q(2) unfolding k(2) c_def by (rule dvd_diff_nat)
    moreover have "0 < (p + c) - q" using n c_def by simp
    ultimately have "2 ^ k \<le> (p + c) - q" by (rule dvd_imp_le)
    then show False using lt q(1) by linarith
  qed
  show "BLK dvd ALIGN_PAD_SZ p al" if b: "BLK dvd p"
  proof (cases "k = 0")
    case True
    then show ?thesis using lt by (simp add: c_def[symmetric])
  next
    case False
    have B: "BLK = 2 ^ 12" by (simp add: BLK_def)
    have "BLK dvd 2 ^ k" unfolding B by (rule le_imp_power_dvd) (use k(3) False in simp)
    moreover have "BLK dvd 2 ^ 64 - p" using b unfolding B by (intro dvd_diff_nat[OF le_imp_power_dvd]) simp_all
    ultimately show ?thesis unfolding c_def[symmetric] c by (simp add: dvd_mod)
  qed
qed

lemma align_down:
  assumes "e < 2 ^ 64" "k < 64"
  shows "unat (PTR_ALIGN_DOWN (of_nat e) (of_nat (2 ^ k))) = e div 2 ^ k * 2 ^ k"
proof -
  have "PTR_ALIGN_DOWN (of_nat e) (of_nat (2 ^ k)) = (of_nat e :: 64 word) AND NOT (mask k)"
    by (simp add: PTR_ALIGN_DOWN_def mask_eq_exp_minus_1)
  moreover have "unat (of_nat e :: 64 word) = e" using assms(1) by (simp add: unat_of_nat take_bit_eq_mod)
  ultimately show ?thesis by (simp add: unat_and_not_mask)
qed

section \<open>Parts that are not black listed\<close>

lemma is_black_listed_next:
  assumes "GC_is_black_listed st h len \<noteq> 0"
  shows "h < GC_is_black_listed st h len" "BLK dvd h \<Longrightarrow> BLK dvd GC_is_black_listed st h len"
proof -
  have "\<exists>k. GC_is_black_listed st h len = h + (k + 1) * BLK"
    using assms unfolding GC_is_black_listed_spec by (auto simp: first_listed_def split: option.splits if_splits intro: exI[of _ 0])
  then obtain k where "GC_is_black_listed st h len = h + (k + 1) * BLK" by blast
  then show "h < GC_is_black_listed st h len" "BLK dvd h \<Longrightarrow> BLK dvd GC_is_black_listed st h len"
    by (simp_all add: BLK_def)
qed

lemma is_black_listed_hdrs [simp]: "GC_is_black_listed (b\<lparr>bl_hdrs := s\<rparr>) h len = GC_is_black_listed b h len"
proof -
  have "stack_listed (b\<lparr>bl_hdrs := s\<rparr>) p = stack_listed b p" "normal_listed (b\<lparr>bl_hdrs := s\<rparr>) p = normal_listed b p" for p
    by (simp_all add: stack_listed_def normal_listed_def)
  then show ?thesis by (simp add: GC_is_black_listed_spec first_listed_def)
qed

lemma find_non_bl_loop_ok:
  assumes al: "align_ok al" and E: "al + 1 dvd E" "E < 2 ^ 64" and p: "0 < p" "p \<le> E" "BLK dvd p" "(E - p) div BLK < fuel"
  shows "\<exists>r. find_non_bl_loop fuel st p E eff al = Ret r
     \<and> (r \<noteq> 0 \<longrightarrow> p \<le> r \<and> r \<le> E \<and> al + 1 dvd r \<and> BLK dvd r \<and> GC_is_black_listed (bls st) r eff = 0)"
  using p
proof (induction fuel arbitrary: p)
  case (Suc fuel)
  have p64: "p \<le> 2 ^ 64" using Suc.prems(2) E(2) by linarith
  note pad = pad_aligned[OF al p64]
  define l where "l = p + ALIGN_PAD_SZ p al"
  have l: "p + ALIGN_PAD_SZ p al div BLK * BLK = l" "BLK dvd l" "al + 1 dvd l" "p \<le> l" "l \<le> E"
    using pad Suc.prems E(1) by (auto simp: l_def)
  define n where "n = GC_is_black_listed (bls st) l eff"
  have step: "find_non_bl_loop (Suc fuel) st p E eff al
      = (if n = 0 then Ret l else if E \<ge> n then find_non_bl_loop fuel st n E eff al else Ret 0)"
    by (simp add: l(1) n_def)
  show ?case
  proof (cases "n \<noteq> 0 \<and> n \<le> E")
    case True
    then have n: "l < n" "BLK dvd n" using is_black_listed_next[of "bls st" l eff] l(2) by (simp_all add: n_def)
    have "p + BLK \<le> n" using dvd_between[OF Suc.prems(3) n(2)] n(1) l(4) by linarith
    then have "(E - n) div BLK < (E - p) div BLK"
      using div_le_mono[of "E - n + BLK" "E - p" BLK] True by (simp add: BLK_def)
    then obtain r where "find_non_bl_loop fuel st n E eff al = Ret r"
      "r \<noteq> 0 \<longrightarrow> n \<le> r \<and> r \<le> E \<and> al + 1 dvd r \<and> BLK dvd r \<and> GC_is_black_listed (bls st) r eff = 0"
      using Suc.IH[of n] True n Suc.prems(4) by auto
    then show ?thesis unfolding step using True n(1) l(4) by auto
  next
    case False
    then show ?thesis unfolding step using l n_def by auto
  qed
qed simp

lemma find_non_bl_hblk_ok:
  assumes al: "align_ok al" and h: "0 < h" "BLK dvd h" "ALIGN_PAD_SZ h al \<le> rem" "h + rem < 2 ^ 64"
  obtains r where "find_non_bl_hblk st h rem eff al = Ret r"
    "r \<noteq> 0 \<Longrightarrow> h \<le> r \<and> r \<le> h + rem \<and> al + 1 dvd r \<and> BLK dvd r \<and> GC_is_black_listed (bls st) r eff = 0"
proof -
  obtain k where k: "k < 64" "al + 1 = 2 ^ k" "k = 0 \<or> 12 \<le> k" by (rule align_okE[OF al])
  define E where "E = (h + rem) div 2 ^ k * 2 ^ k"
  have E: "unat (PTR_ALIGN_DOWN (of_nat (h + rem)) (of_nat (al + 1))) = E"
    unfolding k(2) E_def by (rule align_down[OF h(4) k(1)])
  have le: "E \<le> h + rem" by (simp add: E_def)
  have "h \<le> 2 ^ 64" using h(4) by linarith
  note pad = pad_aligned[OF al this]
  have hE: "h \<le> E"
  proof -
    have "2 ^ k dvd h + ALIGN_PAD_SZ h al" using pad(1) k(2) by simp
    then have "h + ALIGN_PAD_SZ h al = (h + ALIGN_PAD_SZ h al) div 2 ^ k * 2 ^ k" by simp
    also have "\<dots> \<le> E" unfolding E_def using h(3) by (intro mult_le_mono1 div_le_mono) simp
    finally show ?thesis by linarith
  qed
  have "E - h < 2 ^ 64" using le h(4) by linarith
  then have "(E - h) div BLK < FL_FUEL" by (simp add: FL_FUEL_def BLK_def)
  moreover have "al + 1 dvd E" unfolding k(2) E_def by simp
  moreover have "E < 2 ^ 64" using le h(4) by linarith
  ultimately obtain r where r: "find_non_bl_loop FL_FUEL st h E eff al = Ret r"
    "r \<noteq> 0 \<longrightarrow> h \<le> r \<and> r \<le> E \<and> al + 1 dvd r \<and> BLK dvd r \<and> GC_is_black_listed (bls st) r eff = 0"
    using find_non_bl_loop_ok[OF al _ _ h(1) hE h(2)] by blast
  have "find_non_bl_hblk st h rem eff al = Ret r" unfolding find_non_bl_hblk_def Let_def E by (rule r(1))
  then show thesis by (rule that) (use r(2) le in auto)
qed

section \<open>Pages\<close>

definition page_ok :: "nat \<Rightarrow> bool" where
  "page_ok n \<longleftrightarrow> (\<exists>j < 64. 12 \<le> j \<and> n = 2 ^ j)"

lemma mix_in_page_loop_ok:
  assumes hm: "hm L (hs st)" and p: "heap_parts (hs st)"
  shows "BLK dvd h \<Longrightarrow> \<exists>b. mix_in_page_loop st h n q = Ret b"
proof (induction n arbitrary: h)
  case (Suc n)
  then obtain b where b: "mix_in_page_loop st (h + BLK) n q = Ret b" by fastforce
  show ?case
  proof (cases "HDR (hs st) h = 0")
    case False
    have h64: "h < 2 ^ 64" by (rule hm_HDR_below[OF hm False])
    obtain x r where x: "blocks (hs st) x = Some r" "x \<le> h" "h < x + ext r"
      using parts_in_cover[OF p Suc.prems _ h64 False] by blast
    have "blk_ok x r" by (rule parts_blk_ok(1)[OF p hm x(1)])
    then have "(h - x) div BLK < FL_FUEL" using blk_ok_div[OF _ Suc.prems x(2,3)] by (simp add: FL_FUEL_def)
    then have "find_starting_loop FL_FUEL st h (HDR (hs st) h) = Ret (x, HDR (hs st) x)"
      by (rule find_starting_loop_ok[OF hm p x(1) Suc.prems x(2,3) False])
    then show ?thesis using False b by (simp add: hm_GET_HDR[OF hm] GC_find_starting_hblk_def)
  qed (use b in \<open>simp add: hm_GET_HDR[OF hm]\<close>)
qed (simp add: exI[of _ False])

lemma is_hblks_mix_in_page_ok:
  assumes "hm L (hs st)" "heap_parts (hs st)" "page_ok (GC_page_size (hs st))" "h < 2 ^ 64"
  shows "\<exists>b. is_hblks_mix_in_page st h q = Ret b"
proof -
  obtain j where j: "j < 64" "12 \<le> j" "GC_page_size (hs st) = 2 ^ j" using assms(3) by (auto simp: page_ok_def)
  have "BLK = 2 ^ 12" by (simp add: BLK_def)
  then have "BLK dvd h div 2 ^ j * 2 ^ j" using j(2) by (metis dvd_mult le_imp_power_dvd)
  then show ?thesis
    unfolding is_hblks_mix_in_page_def Let_def j(3) align_down[OF assms(4) j(1)] by (rule mix_in_page_loop_ok[OF assms(1,2)])
qed

text \<open>The allocator does not change the page size.\<close>

lemma page_scratch_loop: "GC_page_size (snd (scratch_alloc_loop n st r)) = GC_page_size st"
proof (induction n st r rule: scratch_alloc_loop.induct)
  case (1 n st r)
  obtain a s where os: "GC_os_get_mem st = (a, s)" by fastforce
  have s: "GC_page_size s = GC_page_size st" and "GC_page_size (snd (GC_os_get_mem s)) = GC_page_size s"
    using os by (auto simp: GC_os_get_mem_def split: list.splits)
  then show ?case
    using "1.IH"[OF _ _ refl os[symmetric]] os by (subst scratch_alloc_loop.simps) (simp add: Let_def)
qed

lemma page_scratch_alloc: "GC_scratch_alloc st n = (r, st') \<Longrightarrow> GC_page_size st' = GC_page_size st"
  using page_scratch_loop[of "ROUNDUP_GRANULE_SIZE n" st "GC_scratch_free_ptr st"] by (simp add: GC_scratch_alloc_def)

lemma page_get_index: "get_index st a = Ret (ok, st') \<Longrightarrow> GC_page_size st' = GC_page_size st"
proof -
  assume g: "get_index st a = Ret (ok, st')"
  obtain r s where alloc: "GC_scratch_alloc st sizeof_bottom_index = (r, s)" by fastforce
  have "GC_page_size (link_bottom_index s a b c d) = GC_page_size s" for s a b c d
    by (simp add: link_bottom_index_def Let_def)
  then show ?thesis using g alloc page_scratch_alloc[OF alloc]
    by (auto simp: get_index_def Let_def obind_eq_Ret split: if_splits)
qed

lemma page_alloc_hdr: "alloc_hdr st = (r, st') \<Longrightarrow> GC_page_size st' = GC_page_size st"
  using page_scratch_alloc by (auto simp: alloc_hdr_def split: if_splits)

lemma page_SET_HDR: "SET_HDR st p x = Ret st' \<Longrightarrow> GC_page_size st' = GC_page_size st"
  by (auto simp: SET_HDR_def obind_eq_Ret)

lemma page_install_header: "GC_install_header st h = Ret (r, st') \<Longrightarrow> GC_page_size st' = GC_page_size st"
  by (auto simp: GC_install_header_def obind_eq_Ret GC_INVALIDATE_HDR_CACHE_def
      dest!: page_get_index page_alloc_hdr page_SET_HDR split: if_splits prod.splits)

lemma page_upd [simp]: "GC_page_size (hs (upd_hdr a f st)) = GC_page_size (hs st)"
  by (simp add: upd_hdr_def)

lemma page_setup_header: "setup_header st a h lb k fl = (b, st') \<Longrightarrow> GC_page_size (hs st') = GC_page_size (hs st)"
proof -
  have "GC_page_size (hs s') = GC_page_size (hs s)" if m: "GC_add_map_entry s n = (x, s')" for s n x s'
  proof -
    obtain r t where a: "GC_scratch_alloc (hs s) OBJ_MAP_LEN = (r, t)" by fastforce
    then show ?thesis using m page_scratch_alloc[OF a]
      by (auto simp: GC_add_map_entry_def Let_def set_hs_def split: if_splits)
  qed
  note map = this
  assume s: "setup_header st a h lb k fl = (b, st')"
  show ?thesis
    using s by (auto simp: setup_header_def Let_def split: prod.splits if_splits dest!: map)
qed

lemma page_drop_chunks: "drop_chunks_loop st p a limit = Ret st' \<Longrightarrow> GC_page_size (hs st') = GC_page_size (hs st)"
proof (induction st p a limit rule: drop_chunks_loop.induct)
  case (1 st p a limit)
  obtain b s1 where s1: "setup_header st a p BLK PTRFREE 0 = (b, s1)" by fastforce
  show ?case
  proof (cases "limit \<le> p + BLK")
    case True
    then show ?thesis using "1.prems" s1 page_setup_header[OF s1] by (simp add: drop_chunks_loop.simps[of st])
  next
    case False
    obtain c s2 where s2: "on_hdrs_res s1 (\<lambda>s. GC_install_header s (p + BLK)) = Ret (c, s2)"
      and rest: "(if c \<noteq> 0 then drop_chunks_loop s2 (p + BLK) c limit else Ret s2) = Ret st'"
      using "1.prems" s1 False by (auto simp: drop_chunks_loop.simps[of st] obind_eq_Ret Let_def split: prod.splits)
    have "GC_page_size (hs s2) = GC_page_size (hs s1)"
      using s2 page_install_header by (auto simp: on_hdrs_res_def obind_eq_Ret)
    moreover have "GC_page_size (hs st') = GC_page_size (hs s2)"
      using rest "1.IH"[OF s1[symmetric] refl refl False, of c s2] by (auto split: if_splits)
    ultimately show ?thesis using page_setup_header[OF s1] by simp
  qed
qed

lemma page_drop: "drop_hblk_in_chunks st n h a = Ret st' \<Longrightarrow> GC_page_size (hs st') = GC_page_size (hs st)"
proof -
  have "GC_page_size (hs s') = GC_page_size (hs s)" if "GC_remove_from_fl_at s a n = Ret s'" for s s'
    using that by (auto simp: GC_remove_from_fl_at_def Let_def obind_eq_Ret split: if_splits)
  then show "drop_hblk_in_chunks st n h a = Ret st' \<Longrightarrow> ?thesis"
    by (auto simp: drop_hblk_in_chunks_def Let_def obind_eq_Ret dest!: page_drop_chunks)
qed

section \<open>The search\<close>

text \<open>The size and alignment asked for, and where they can be had.\<close>

definition request_ok :: "nat \<Rightarrow> nat \<Rightarrow> bool" where
  "request_ok sz al \<longleftrightarrow> BLK dvd sz \<and> 0 < sz \<and> align_ok al \<and> sz + al < 2 ^ 63"

definition bl_exempt :: "heap_state \<Rightarrow> nat \<Rightarrow> nat \<Rightarrow> bool" where
  "bl_exempt st sz kind \<longleftrightarrow> IS_UNCOLLECTABLE kind \<or> kind = PTRFREE \<and> sz \<le> MAX_BLACK_LIST_ALLOC"

definition eff_size :: "nat \<Rightarrow> 32 word \<Rightarrow> nat" where
  "eff_size sz flags = (if flags AND IGNORE_OFF_PAGE \<noteq> 0 then BLK else sz)"

definition fits_at ::
    "heap_state \<Rightarrow> nat \<Rightarrow> nat \<Rightarrow> 32 word \<Rightarrow> split_mode \<Rightarrow> nat \<Rightarrow> nat \<Rightarrow> hdr \<Rightarrow> nat \<Rightarrow> bool" where
  "fits_at st sz kind flags ms al h r l \<longleftrightarrow> h \<le> l \<and> BLK dvd l \<and> al + 1 dvd l \<and> l + sz \<le> h + ext r
     \<and> (ms = NO_SPLIT \<longrightarrow> ext r = sz)
     \<and> (bl_exempt st sz kind \<or> sz > GC_black_list_spacing (bls st) \<or> GC_is_black_listed (bls st) l (eff_size sz flags) = 0)"

definition counted :: "heap_state \<Rightarrow> heap_state \<Rightarrow> bool" where
  "counted st st' \<longleftrightarrow> (\<exists>c w. st' = st\<lparr>GC_drop_blacklisted_count := c, GC_large_alloc_warn_suppressed := w\<rparr>)"

lemma countedI [simp]:
  "counted st st" "counted st (st\<lparr>GC_drop_blacklisted_count := c\<rparr>)" "counted st (st\<lparr>GC_large_alloc_warn_suppressed := w\<rparr>)"
  "counted st (st\<lparr>GC_drop_blacklisted_count := c, GC_large_alloc_warn_suppressed := w\<rparr>)"
  unfolding counted_def
  by (rule exI[of _ "GC_drop_blacklisted_count st"], rule exI[of _ "GC_large_alloc_warn_suppressed st"], simp)
    (rule exI[of _ c], rule exI[of _ "GC_large_alloc_warn_suppressed st"], simp,
     rule exI[of _ "GC_drop_blacklisted_count st"], rule exI[of _ w], simp, blast)

lemma countedD:
  assumes "counted st st'"
  shows "bls st' = bls st" "GC_hblkfreelist st' = GC_hblkfreelist st" "GC_free_bytes st' = GC_free_bytes st"
    "GC_large_free_bytes st' = GC_large_free_bytes st" "GC_bytes_dropped st' = GC_bytes_dropped st" "alloc_frame st st'"
    "fl_total st' = fl_total st" "heap_inv L st' ls X W = heap_inv L st ls X W"
  using assms by (auto simp: counted_def alloc_frame_def fl_total_def heap_inv_def)

lemma next_hblk_fits_better_ok:
  assumes hm: "hm L (hs st)" and al: "sz + al < 2 ^ 63"
  shows "\<exists>b. next_hblk_fits_better st a avail sz al = Ret b
     \<and> (b \<longrightarrow> hb_next (hdr_at st a) \<noteq> 0
        \<and> sz + ALIGN_PAD_SZ (hb_next (hdr_at st a)) al \<le> hb_sz (hdr_at st (HDR (hs st) (hb_next (hdr_at st a)))))"
proof -
  have "sz + ALIGN_PAD_SZ p al < 2 ^ 64" for p using al ALIGN_PAD_SZ_le[of p al] by simp
  then show ?thesis
    unfolding next_hblk_fits_better_def Let_def hm_GET_HDR[OF hm] by (auto simp: not_less)
qed

lemma examine_hblk_ok:
  assumes inv: "heap_inv L st ls {} {}" and h: "blocks (hs st) h = Some r" "HBLK_IS_FREE r"
    and req: "request_ok sz al" and page: "page_ok (GC_page_size (hs st))"
  obtains v st' where "examine_hblk st sz kind flags ms al h (HDR (hs st) h) = Ret (v, st')" "counted st st'"
    "\<And>l. v = Allocate l \<Longrightarrow> fits_at st sz kind flags ms al h r l"
proof -
  note D = heap_invD[OF inv] and ok = parts_blk_ok(1)[OF heap_invD(2,1)[OF inv] h(1)]
  let ?a = "HDR (hs st) h" and ?pad = "ALIGN_PAD_SZ h al"
  have q: "BLK dvd sz" "0 < sz" "align_ok al" "sz + al < 2 ^ 63" using req by (auto simp: request_ok_def)
  have rh: "hdr_at st ?a = r" "hb_sz r = ext r" using h by (simp_all add: blocks_Some ext_free)
  have h64: "h < 2 ^ 64" by (rule blocks_below[OF D(1) h(1)])
  note pad = pad_aligned[OF q(3) less_imp_le[OF h64]]
  have hB: "0 < h" "BLK dvd h" using ok by (auto simp: blk_ok_def)
  have pB: "?pad div BLK * BLK = ?pad" using pad(3)[OF hB(2)] by simp
  have small: "(sz + ?pad) mod 2 ^ 64 = sz + ?pad" using q(4) ALIGN_PAD_SZ_le[of h al] by simp
  obtain better where better: "next_hblk_fits_better st ?a (ext r) sz al = Ret better"
    using next_hblk_fits_better_ok[OF D(1) q(4)] by blast
  obtain mix where mix: "is_hblks_mix_in_page st h (kind = PTRFREE) = Ret mix"
    using is_hblks_mix_in_page_ok[OF D(1,2) page h64] by blast
  define skip where "skip = (ms = NO_SPLIT \<and> ext r \<noteq> sz \<or> ext r < sz + ?pad \<or> ext r \<noteq> sz \<and> better
    \<or> GC_page_size (hs st) \<noteq> BLK \<and> (\<not> GC_incremental st \<or> GC_is_mprotect_vdb st) \<and> mix)"
  define tail where "tail = (if bl_exempt st sz kind then Ret (Allocate (h + ?pad), st)
    else obind (find_non_bl_hblk st h (ext r - sz) (eff_size sz flags) al) (\<lambda>last_hbp.
      if last_hbp \<noteq> 0 then
        if ms = AVOID_SPLIT_REMAPPED \<and> last_hbp \<noteq> h \<and> \<not> IS_MAPPED r then Ret (Continue, st) else Ret (Allocate last_hbp, st)
      else
        let may_drop = sz = BLK \<and> al = 0 \<and> \<not> GC_find_leak_inner st \<and> IS_MAPPED r;
            st = (if may_drop then st\<lparr>GC_drop_blacklisted_count := GC_drop_blacklisted_count st + 1\<rparr> else st)
        in if may_drop \<and> GC_drop_blacklisted_count st AND 3 = 0 then Ret (Drop, st)
           else if sz > GC_black_list_spacing (bls st) \<and> ext r - sz > GC_black_list_spacing (bls st) then
             let st = st\<lparr>GC_large_alloc_warn_suppressed := GC_large_alloc_warn_suppressed st + 1\<rparr>;
                 st = (if GC_large_alloc_warn_suppressed st \<ge> GC_large_alloc_warn_interval st
                       then st\<lparr>GC_large_alloc_warn_suppressed := 0\<rparr> else st)
             in Ret (Allocate (h + ?pad), st)
           else Ret (Continue, st)))"
  have run: "examine_hblk st sz kind flags ms al h ?a = (if skip then Ret (Continue, st) else tail)"
    unfolding examine_hblk_def rh Let_def small better mix pB skip_def tail_def eff_size_def bl_exempt_def by auto
  show thesis
  proof (cases skip)
    case True
    then show thesis using that[of Continue st] run by simp
  next
    case False
    then have fit: "sz + ?pad \<le> ext r" "ms = NO_SPLIT \<longrightarrow> ext r = sz" by (auto simp: skip_def)
    have here: "fits_at st sz kind flags ms al h r (h + ?pad)" if "bl_exempt st sz kind \<or> sz > GC_black_list_spacing (bls st)"
      using that fit pad(1,3) hB by (auto simp: fits_at_def)
    have "h + ext r + BLK \<le> 2 ^ 64" "0 < BLK" using ok by (simp_all add: blk_ok_def) (simp add: BLK_def)
    then have end64: "h + (ext r - sz) < 2 ^ 64" by linarith
    obtain l where l: "find_non_bl_hblk st h (ext r - sz) (eff_size sz flags) al = Ret l"
      "l \<noteq> 0 \<Longrightarrow> h \<le> l \<and> l \<le> h + (ext r - sz) \<and> al + 1 dvd l \<and> BLK dvd l \<and> GC_is_black_listed (bls st) l (eff_size sz flags) = 0"
      by (rule find_non_bl_hblk_ok[OF q(3) hB _ end64, of st "eff_size sz flags"]) (use fit(1) in linarith, rule that)
    have there: "fits_at st sz kind flags ms al h r l" if "l \<noteq> 0"
      using l(2)[OF that] fit by (auto simp: fits_at_def)
    have "\<exists>v st'. tail = Ret (v, st') \<and> counted st st' \<and> (\<forall>l. v = Allocate l \<longrightarrow> fits_at st sz kind flags ms al h r l)"
    proof (cases "bl_exempt st sz kind")
      case True
      then show ?thesis using here by (simp add: tail_def)
    next
      case False
      then show ?thesis
      proof (cases "l = 0")
        case True
        then show ?thesis using False l(1) here by (auto simp: tail_def Let_def)
      next
        case l0: False
        then show ?thesis using False l(1) there[OF l0] by (simp add: tail_def Let_def)
      qed
    qed
    then show thesis using that run False by auto
  qed
qed

text \<open>What the search leaves behind: the free bytes \<open>D\<close> were dropped.\<close>

definition shrunk :: "nat \<Rightarrow> heap_state \<Rightarrow> (nat \<Rightarrow> nat list) \<Rightarrow> nat set \<Rightarrow> heap_state \<Rightarrow> bool" where
  "shrunk L st ls' D st' \<longleftrightarrow> heap_inv L st' ls' {} {} \<and> keeps_used (blocks (hs st)) (blocks (hs st'))
     \<and> finite D \<and> D \<subseteq> free_area (blocks (hs st)) \<and> free_area (blocks (hs st')) = free_area (blocks (hs st)) - D
     \<and> fl_total st' = fl_total st - of_nat (card D) \<and> GC_large_free_bytes st' = GC_large_free_bytes st - of_nat (card D)
     \<and> GC_bytes_dropped st' = GC_bytes_dropped st + of_nat (card D) \<and> alloc_frame st st' \<and> os_use (hs st) (hs st') True
     \<and> GC_page_size (hs st') = GC_page_size (hs st)"

lemma shrunk_counted: "heap_inv L st ls {} {} \<Longrightarrow> counted st st' \<Longrightarrow> shrunk L st ls {} st'"
  unfolding shrunk_def using countedD[of st st'] by (simp add: keeps_used_def os_use_refl)

lemma shrunk_trans:
  assumes a: "shrunk L st ls1 D1 st1" and b: "shrunk L st1 ls2 D2 st2"
  shows "shrunk L st ls2 (D1 \<union> D2) st2"
proof -
  have "D1 \<inter> D2 = {}" "finite D1" "finite D2" using a b unfolding shrunk_def by auto
  then have "card (D1 \<union> D2) = card D1 + card D2" by (simp add: card_Un_disjoint)
  then show ?thesis
    using a b keeps_used_trans[of "blocks (hs st)" "blocks (hs st1)"] alloc_frame_trans[of st st1] os_use_trans[of "hs st" "hs st1"]
    unfolding shrunk_def by auto
qed

lemma shrunk_drop:
  assumes inv: "heap_inv L st ls {} {}" and h: "h \<in> set (ls n)" "blocks (hs st) h = Some r"
  obtains st' where "drop_hblk_in_chunks st n h (HDR (hs st) h) = Ret st'"
    "shrunk L st (ls(n := remove1 h (ls n))) {h ..< h + ext r} st'"
proof -
  obtain st' where st': "drop_hblk_in_chunks st n h (HDR (hs st) h) = Ret st'" "heap_inv L st' (ls(n := remove1 h (ls n))) {} {}"
    "keeps_used (blocks (hs st)) (blocks (hs st'))" "{h ..< h + ext r} \<subseteq> free_area (blocks (hs st))"
    "free_area (blocks (hs st')) = free_area (blocks (hs st)) - {h ..< h + ext r}" "fl_total st' = fl_total st - of_nat (ext r)"
    "GC_large_free_bytes st' = GC_large_free_bytes st - of_nat (ext r)" "GC_bytes_dropped st' = GC_bytes_dropped st + of_nat (ext r)"
    "alloc_frame st st'" "os_use (hs st) (hs st') True"
    by (rule drop_hblk_in_chunks_ok[OF inv h]) (rule that)
  show thesis by (rule that[OF st'(1)]) (use st' page_drop[OF st'(1)] in \<open>simp add: shrunk_def\<close>)
qed

lemma shrunk_bls: "shrunk L st ls D st' \<Longrightarrow> bls st' = (bls st)\<lparr>bl_hdrs := hs st'\<rparr>"
  by (simp add: shrunk_def alloc_frame_def)

lemma fits_at_bls:
  assumes "bls st' = (bls st)\<lparr>bl_hdrs := hs st'\<rparr>"
  shows "fits_at st' sz kind flags ms al h r l = fits_at st sz kind flags ms al h r l"
proof -
  obtain s where "bls st' = (bls st)\<lparr>bl_hdrs := s\<rparr>" using assms by blast
  then show ?thesis by (simp add: fits_at_def bl_exempt_def)
qed

text \<open>The neighbours of a block on a list.\<close>

lemma list_links:
  assumes ok: "fl_ok st ls" "i \<le> N_HBLK_FLS" and ls: "ls i = as @ h # bs" and h: "blocks (hs st) h = Some r"
  shows "h \<noteq> 0" "hb_next r = (if bs = [] then 0 else hd bs)" "hb_prev r = (if as = [] then 0 else last as)"
proof -
  have seg: "seg (blocks (hs st)) 0 (GC_hblkfreelist st i) (as @ h # bs) 0" and dist: "distinct (as @ h # bs)"
    using ok ls unfolding lists_ok_def by metis+
  show "h \<noteq> 0" using seg_nonzero[OF seg] by auto
  show "hb_next r = (if bs = [] then 0 else hd bs)" "hb_prev r = (if as = [] then 0 else last as)"
    using seg_remove(1,2)[OF seg dist h] by simp_all
qed

definition searched ::
    "nat \<Rightarrow> heap_state \<Rightarrow> nat \<Rightarrow> nat \<Rightarrow> 32 word \<Rightarrow> nat \<Rightarrow> split_mode \<Rightarrow> nat \<Rightarrow> nat \<Rightarrow> nat \<Rightarrow> heap_state \<Rightarrow> bool" where
  "searched L st sz kind flags i ms al h l st' \<longleftrightarrow> (\<exists>ls' D. shrunk L st ls' D st'
     \<and> (h \<noteq> 0 \<longrightarrow> h \<in> set (ls' i) \<and> (\<exists>r. blocks (hs st') h = Some r \<and> fits_at st sz kind flags ms al h r l)))"

lemma searched_trans:
  assumes a: "shrunk L st ls1 D1 st1" and b: "searched L st1 sz kind flags i ms al h l st2"
  shows "searched L st sz kind flags i ms al h l st2"
  using b shrunk_trans[OF a] unfolding searched_def fits_at_bls[OF shrunk_bls[OF a]] by blast

lemma search_fl_ok:
  assumes "heap_inv L st ls {} {}" "ls i = as @ rest" "hbp = (if rest = [] then 0 else hd rest)" "length rest < fuel"
    and "page_ok (GC_page_size (hs st))" and i: "i \<le> N_HBLK_FLS" and req: "request_ok sz al"
  shows "\<exists>h l st'. search_fl fuel st sz kind flags i ms al hbp = Ret ((h, l), st') \<and> searched L st sz kind flags i ms al h l st'"
  using assms(1-5)
proof (induction fuel arbitrary: st ls as rest hbp)
  case (Suc fuel)
  note inv = Suc.prems(1) and D = heap_invD[OF Suc.prems(1)]
  show ?case
  proof (cases rest)
    case Nil
    then show ?thesis
      using Suc.prems(3) shrunk_counted[OF inv countedI(1)] by (auto simp: searched_def)
  next
    case (Cons h bs)
    then have ls: "ls i = as @ h # bs" "hbp = h" "h \<in> set (ls i)" using Suc.prems(2,3) by auto
    obtain r where r: "blocks (hs st) h = Some r" "HBLK_IS_FREE r" using D(5)[OF ls(3)] by blast
    let ?a = "HDR (hs st) h"
    obtain v st1 where v: "examine_hblk st sz kind flags ms al h ?a = Ret (v, st1)" "counted st st1"
      "\<And>l. v = Allocate l \<Longrightarrow> fits_at st sz kind flags ms al h r l"
      by (rule examine_hblk_ok[OF inv r req Suc.prems(5)]) (rule that)
    note c = countedD[OF v(2)]
    have inv1: "heap_inv L st1 ls {} {}" using inv c(8) by simp
    have sh1: "shrunk L st ls {} st1" by (rule shrunk_counted[OF inv v(2)])
    have hs1: "hs st1 = hs st" using c(1) by simp
    have rh: "hdr_at st1 ?a = r" using r(1) hs1 by (simp add: blocks_Some)
    note nx = list_links[OF D(3) i ls(1) r(1)]
    have step: "search_fl (Suc fuel) st sz kind flags i ms al hbp = (case v of
        Continue \<Rightarrow> search_fl fuel st1 sz kind flags i ms al (hb_next r)
      | Allocate last_hbp \<Rightarrow> Ret ((h, last_hbp), st1)
      | Drop \<Rightarrow> obind (drop_hblk_in_chunks st1 i h ?a) (\<lambda>st.
           if hb_prev r = 0 then search_fl fuel st sz kind flags i ms al (GC_hblkfreelist st i)
           else obind (GET_HDR st (hb_prev r)) (\<lambda>hhdr. search_fl fuel st sz kind flags i ms al (hb_next (hdr_at st hhdr)))))"
      using nx(1) ls(2) rh v(1) by (simp add: hm_GET_HDR[OF D(1)] Let_def split: verdict.split)
    show ?thesis
    proof (cases v)
      case Continue
      have "\<exists>x l st'. search_fl fuel st1 sz kind flags i ms al (hb_next r) = Ret ((x, l), st') \<and> searched L st1 sz kind flags i ms al x l st'"
        by (rule Suc.IH[OF inv1, of "as @ [h]" bs]) (use ls(1) nx(2) Cons Suc.prems(4,5) hs1 in auto)
      then show ?thesis using step Continue searched_trans[OF sh1] by auto
    next
      case (Allocate l)
      have "searched L st sz kind flags i ms al h l st1"
        unfolding searched_def using sh1 ls(3) r(1) v(3)[OF Allocate] hs1 by auto
      then show ?thesis using step Allocate by auto
    next
      case Drop
      have r1: "blocks (hs st1) h = Some r" "HDR (hs st1) h = ?a" using r(1) hs1 by simp_all
      obtain st2 where s2: "drop_hblk_in_chunks st1 i h (HDR (hs st1) h) = Ret st2"
        "shrunk L st1 (ls(i := remove1 h (ls i))) {h ..< h + ext r} st2"
        by (rule shrunk_drop[OF inv1 ls(3) r1(1)]) (rule that)
      have dist: "distinct (ls i)" using D(3) by (simp add: lists_ok_def)
      let ?ls2 = "ls(i := as @ bs)"
      have "remove1 h (ls i) = as @ bs" using ls(1) dist by (simp add: remove1_append)
      then have sh2: "shrunk L st1 ?ls2 {h ..< h + ext r} st2" using s2(2) by simp
      then have inv2: "heap_inv L st2 ?ls2 {} {}" and pg: "GC_page_size (hs st2) = GC_page_size (hs st)" using hs1 by (simp_all add: shrunk_def)
      note D2 = heap_invD[OF inv2]
      define n where "n = (if bs = [] then 0 else hd bs)"
      have go: "\<exists>x l st'. search_fl fuel st2 sz kind flags i ms al n = Ret ((x, l), st') \<and> searched L st2 sz kind flags i ms al x l st'"
        by (rule Suc.IH[OF inv2, of as bs]) (use n_def Cons Suc.prems(4,5) pg in auto)
      have "search_fl (Suc fuel) st sz kind flags i ms al hbp = search_fl fuel st2 sz kind flags i ms al n"
      proof (cases as rule: rev_cases)
        case Nil
        then have "GC_hblkfreelist st2 i = n" using list_head[OF inv2 i] by (simp add: n_def)
        then show ?thesis using step Drop s2(1) r1(2) nx(3) Nil by simp
      next
        case (snoc as' p)
        have ls2: "?ls2 i = as' @ p # bs" "p \<in> set (?ls2 i)" using snoc by simp_all
        obtain rp where rp: "blocks (hs st2) p = Some rp" using D2(5)[OF ls2(2)] by blast
        note np = list_links[OF D2(3) i ls2(1) rp]
        have "hb_prev r = p" using nx(3) snoc by simp
        moreover have "hdr_at st2 (HDR (hs st2) p) = rp" using rp by (simp add: blocks_Some)
        ultimately show ?thesis
          using step Drop s2(1) r1(2) np(1,2) by (simp add: hm_GET_HDR[OF D2(1)] n_def)
      qed
      then show ?thesis using go searched_trans[OF shrunk_trans[OF sh1 sh2]] by auto
    qed
  qed
qed simp

section \<open>Allocation\<close>

lemma round_up:
  assumes "0 < lb" "lb + BLK \<le> 2 ^ 64"
  defines "sz \<equiv> (lb + BLK - 1) mod 2 ^ 64 div BLK * BLK"
  shows "BLK dvd sz" "0 < sz" "lb \<le> sz" "sz < lb + BLK" "BLK * OBJ_SZ_TO_BLOCKS lb = sz"
proof -
  have m: "(lb + BLK - 1) mod 2 ^ 64 = lb + BLK - 1" using assms(2) by simp
  have sz: "sz = (lb + BLK - 1) div BLK * BLK" unfolding sz_def m ..
  show "BLK dvd sz" by (simp add: sz)
  have "(lb + BLK - 1) mod BLK < BLK" by (simp add: BLK_def)
  moreover have "sz + (lb + BLK - 1) mod BLK = lb + BLK - 1" unfolding sz by (rule div_mult_mod_eq)
  ultimately show "0 < sz" "lb \<le> sz" "sz < lb + BLK" using assms(1) by linarith+
  show "BLK * OBJ_SZ_TO_BLOCKS lb = sz" by (simp add: OBJ_SZ_TO_BLOCKS_def sz_def)
qed

text \<open>A block was allocated after the free bytes \<open>D\<close> were dropped.\<close>

definition taken :: "nat \<Rightarrow> heap_state \<Rightarrow> nat \<Rightarrow> nat \<Rightarrow> nat \<Rightarrow> nat \<Rightarrow> nat set \<Rightarrow> heap_state \<Rightarrow> bool" where
  "taken L st b lb sz kind D st' \<longleftrightarrow> (\<exists>ls'. heap_inv L st' ls' {} {})
     \<and> (\<exists>r. blocks (hs st') b = Some r \<and> new_hdr st b lb kind r \<and> \<not> HBLK_IS_FREE r \<and> IS_MAPPED r \<and> ext r = sz)
     \<and> keeps_used (blocks (hs st)) (blocks (hs st')) \<and> finite D \<and> D \<inter> {b ..< b + sz} = {}
     \<and> D \<union> {b ..< b + sz} \<subseteq> free_area (blocks (hs st))
     \<and> free_area (blocks (hs st')) = free_area (blocks (hs st)) - D - {b ..< b + sz}
     \<and> GC_large_free_bytes st' = GC_large_free_bytes st - of_nat (card D) - of_nat sz
     \<and> fl_total st' = fl_total st - of_nat (card D) - of_nat sz
     \<and> GC_bytes_dropped st' = GC_bytes_dropped st + of_nat (card D)"

lemma taken_compose:
  assumes s: "shrunk L st ls1 D st1" and o: "split_off L st1 l e i st2" and a: "allocated L st2 l lb sz kind st3"
  shows "taken L st l lb sz kind D st3"
proof -
  have fr: "alloc_frame st st2"
    using s o alloc_frame_trans[of st st1 st2] by (simp add: shrunk_def split_off_def)
  have new: "new_hdr st2 l lb kind r = new_hdr st l lb kind r" for r
    using fr by (simp add: new_hdr_def alloc_frame_def)
  have used: "keeps_used (blocks (hs st)) (blocks (hs st3))"
    using s o a keeps_used_trans unfolding shrunk_def split_off_def allocated_def by metis
  have "free_area (blocks (hs st2)) = free_area (blocks (hs st)) - D" "{l ..< l + sz} \<subseteq> free_area (blocks (hs st2))"
    "D \<subseteq> free_area (blocks (hs st))" "finite D"
    "free_area (blocks (hs st3)) = free_area (blocks (hs st2)) - {l ..< l + sz}"
    using s o a by (auto simp: shrunk_def split_off_def allocated_def)
  moreover from this have "D \<inter> {l ..< l + sz} = {}" by blast
  ultimately show ?thesis
    using a[unfolded new allocated_def] s o used unfolding taken_def shrunk_def split_off_def by auto
qed

lemma alloc_part_ok:
  assumes sh: "shrunk L st ls1 D st1" and r: "h \<in> set (ls1 i)" "blocks (hs st1) h = Some r"
    and l: "BLK dvd l" "h \<le> l" "l + sz \<le> h + ext r" and sz: "BLK dvd sz" "0 < sz" "BLK * OBJ_SZ_TO_BLOCKS lb = sz" "0 < lb" "lb \<le> sz"
    and flags: "\<not> bit flags 1" "\<not> bit flags 2"
  obtains b st' where "obind (split_at st1 h l i) (\<lambda>(hhdr, st). if hhdr = 0 then Ret (0, st)
      else take_part st l hhdr lb sz kind flags i) = Ret (b, st')" "os_use (hs st) (hs st') (b \<noteq> 0)"
    "b \<noteq> 0 \<Longrightarrow> b = l \<and> taken L st l lb sz kind D st'"
proof -
  note result = that
  have inv1: "heap_inv L st1 ls1 {} {}" and os1: "os_use (hs st) (hs st1) True" using sh by (simp_all add: shrunk_def)
  have lt: "l < h + ext r" using l(3) sz(2) by linarith
  obtain a st2 where s2: "split_at st1 h l i = Ret (a, st2)" "os_use (hs st1) (hs st2) (a \<noteq> 0)"
    "a \<noteq> 0 \<Longrightarrow> a = HDR (hs st2) l \<and> split_off L st1 l (h + ext r) i st2"
    by (rule split_at_ok[OF inv1 r l(1,2) lt]) (rule that)
  show thesis
  proof (cases "a = 0")
    case True
    then show thesis using result[of 0 st2] s2(1) os_use_trans[OF os1 s2(2)] by simp
  next
    case a: False
    have off: "split_off L st1 l (h + ext r) i st2" and a_eq: "a = HDR (hs st2) l" using s2(3)[OF a] by auto
    obtain ls2 r2 where i2: "heap_inv L st2 ls2 {} {l}" "l \<in> set (ls2 i)" "blocks (hs st2) l = Some r2" "l + ext r2 = h + ext r"
      using off unfolding split_off_def by blast
    have sz2: "sz \<le> ext r2" using i2(4) l(3) by linarith
    obtain b st3 where s3: "take_part st2 l (HDR (hs st2) l) lb sz kind flags i = Ret (b, st3)"
      "os_use (hs st2) (hs st3) (b \<noteq> 0)" "b \<noteq> 0 \<Longrightarrow> b = l \<and> allocated L st2 l lb sz kind st3"
      by (rule take_part_ok[OF i2(1) subset_refl i2(2,3) sz(1,2) sz2 sz(3-5) flags]) (rule that)
    show thesis
    proof (rule result[of b st3])
      show "obind (split_at st1 h l i) (\<lambda>(hhdr, st). if hhdr = 0 then Ret (0, st)
          else take_part st l hhdr lb sz kind flags i) = Ret (b, st3)" using s2(1) a a_eq s3(1) by simp
      show "os_use (hs st) (hs st3) (b \<noteq> 0)" by (rule os_use_trans[OF os_use_trans[OF os1 os_use_weaken[OF s2(2)]] s3(2)])
    qed (use s3(3) taken_compose[OF sh off] in blast)
  qed
qed

lemma GC_allochblk_nth_search:
  assumes inv: "heap_inv L st ls {} {}" and i: "i \<le> N_HBLK_FLS" and lb: "0 < lb" "lb + BLK \<le> 2 ^ 64"
    and le: "BLK * OBJ_SZ_TO_BLOCKS lb + al < 2 ^ 63" and al: "align_ok al" and flags: "\<not> bit flags 1" "\<not> bit flags 2" and page: "page_ok (GC_page_size (hs st))"
  defines "sz \<equiv> BLK * OBJ_SZ_TO_BLOCKS lb"
  obtains h l st1 b st' where "search_fl FL_FUEL st sz kind flags i ms al (GC_hblkfreelist st i) = Ret ((h, l), st1)"
    "GC_allochblk_nth st lb kind flags i ms al = Ret (b, st')"
    "h = 0 \<Longrightarrow> b = 0 \<and> (\<exists>ls' D. shrunk L st ls' D st')" "h \<noteq> 0 \<Longrightarrow> os_use (hs st) (hs st') (b \<noteq> 0)"
    "b \<noteq> 0 \<Longrightarrow> (\<exists>D. taken L st b lb sz kind D st') \<and> al + 1 dvd b
        \<and> (bl_exempt st sz kind \<or> sz > GC_black_list_spacing (bls st) \<or> GC_is_black_listed (bls st) b (eff_size sz flags) = 0)"
proof -
  note result = that and D = heap_invD[OF inv]
  note ru = round_up[OF lb]
  have sz: "(lb + BLK - 1) mod 2 ^ 64 div BLK * BLK = sz" unfolding sz_def ru(5) ..
  note R = ru[unfolded sz]
  have req: "request_ok sz al" using R(1,2) al le[folded sz_def] by (simp add: request_ok_def)
  have head: "GC_hblkfreelist st i = (if ls i = [] then 0 else hd (ls i))" by (rule list_head[OF inv i])
  have len: "length (ls i) < FL_FUEL" using heap_inv_lengths(3)[OF inv, of i] by (simp add: FL_FUEL_def)
  obtain h l st1 where s1: "search_fl FL_FUEL st sz kind flags i ms al (GC_hblkfreelist st i) = Ret ((h, l), st1)"
    "searched L st sz kind flags i ms al h l st1"
    using search_fl_ok[OF inv append_Nil[symmetric] head len page i req] by blast
  obtain ls1 X where sh: "shrunk L st ls1 X st1"
    and at: "h \<noteq> 0 \<Longrightarrow> h \<in> set (ls1 i) \<and> (\<exists>r. blocks (hs st1) h = Some r \<and> fits_at st sz kind flags ms al h r l)"
    using s1(2) unfolding searched_def by blast
  have run: "GC_allochblk_nth st lb kind flags i ms al = (if h = 0 then Ret (0, st1) else
      obind (split_at st1 h l i) (\<lambda>(hhdr, st). if hhdr = 0 then Ret (0, st) else take_part st l hhdr lb sz kind flags i))"
    unfolding GC_allochblk_nth_def sz Let_def s1(1) by simp
  show thesis
  proof (cases "h = 0")
    case True
    show thesis by (rule result[OF s1(1)]) (use run True sh in auto)
  next
    case False
    obtain r where r: "h \<in> set (ls1 i)" "blocks (hs st1) h = Some r" and fit: "fits_at st sz kind flags ms al h r l" using at[OF False] by blast
    have l: "BLK dvd l" "h \<le> l" "l + sz \<le> h + ext r" "al + 1 dvd l"
      and bl: "bl_exempt st sz kind \<or> sz > GC_black_list_spacing (bls st) \<or> GC_is_black_listed (bls st) l (eff_size sz flags) = 0"
      using fit by (simp_all add: fits_at_def)
    obtain b st' where p: "obind (split_at st1 h l i) (\<lambda>(hhdr, st). if hhdr = 0 then Ret (0, st)
        else take_part st l hhdr lb sz kind flags i) = Ret (b, st')" "os_use (hs st) (hs st') (b \<noteq> 0)"
      "b \<noteq> 0 \<Longrightarrow> b = l \<and> taken L st l lb sz kind X st'"
      by (rule alloc_part_ok[OF sh r l(1-3) R(1,2,5) lb(1) R(3) flags, of kind]) (rule that)
    have runb: "GC_allochblk_nth st lb kind flags i ms al = Ret (b, st')" using run False p(1) by simp
    show thesis by (rule result[OF s1(1) runb]) (use False p(2,3) l(4) bl in auto)
  qed
qed

lemma GC_allochblk_nth_spec:
  assumes "heap_inv L st ls {} {}" "i \<le> N_HBLK_FLS" "0 < lb" "lb + BLK \<le> 2 ^ 64"
    and "BLK * OBJ_SZ_TO_BLOCKS lb + al < 2 ^ 63" "align_ok al" "\<not> bit flags 1" "\<not> bit flags 2" "page_ok (GC_page_size (hs st))"
  defines "sz \<equiv> BLK * OBJ_SZ_TO_BLOCKS lb"
  shows "\<exists>b st'. GC_allochblk_nth st lb kind flags i ms al = Ret (b, st')
    \<and> (b = 0 \<longrightarrow> (\<exists>ls' D. shrunk L st ls' D st') \<or> os_use (hs st) (hs st') False)
    \<and> (b \<noteq> 0 \<longrightarrow> (\<exists>D. taken L st b lb sz kind D st') \<and> al + 1 dvd b
        \<and> (bl_exempt st sz kind \<or> sz > GC_black_list_spacing (bls st) \<or> GC_is_black_listed (bls st) b (eff_size sz flags) = 0))"
proof (rule GC_allochblk_nth_search[OF assms(1-9), of kind ms, folded sz_def])
  fix h :: nat and b st'
  assume run: "GC_allochblk_nth st lb kind flags i ms al = Ret (b, st')"
    and none: "h = 0 \<Longrightarrow> b = 0 \<and> (\<exists>ls' D. shrunk L st ls' D st')" and some: "h \<noteq> 0 \<Longrightarrow> os_use (hs st) (hs st') (b \<noteq> 0)"
    and got: "b \<noteq> 0 \<Longrightarrow> (\<exists>D. taken L st b lb sz kind D st') \<and> al + 1 dvd b
      \<and> (bl_exempt st sz kind \<or> sz > GC_black_list_spacing (bls st) \<or> GC_is_black_listed (bls st) b (eff_size sz flags) = 0)"
  have "(\<exists>ls' D. shrunk L st ls' D st') \<or> os_use (hs st) (hs st') False" if "b = 0"
    using none some that by (cases "h = 0") auto
  then show ?thesis using run got by blast
qed

text \<open>A list with a large enough block is not searched in vain when the black lists do not matter.\<close>

lemma examine_exempt:
  assumes inv: "heap_inv L st ls {} {}" and h: "blocks (hs st) h = Some r" "HBLK_IS_FREE r"
    and req: "sz + al < 2 ^ 63" and ex: "bl_exempt st sz kind" "GC_page_size (hs st) = BLK" "ms \<noteq> NO_SPLIT"
  shows "(\<exists>l. examine_hblk st sz kind flags ms al h (HDR (hs st) h) = Ret (Allocate l, st))
    \<or> examine_hblk st sz kind flags ms al h (HDR (hs st) h) = Ret (Continue, st)
      \<and> (sz + ALIGN_PAD_SZ h al \<le> ext r \<longrightarrow> hb_next r \<noteq> 0
         \<and> sz + ALIGN_PAD_SZ (hb_next r) al \<le> hb_sz (hdr_at st (HDR (hs st) (hb_next r))))"
proof -
  let ?a = "HDR (hs st) h" and ?pad = "ALIGN_PAD_SZ h al"
  have rh: "hdr_at st ?a = r" "hb_sz r = ext r" using h by (simp_all add: blocks_Some ext_free)
  have small: "(sz + ?pad) mod 2 ^ 64 = sz + ?pad" using req ALIGN_PAD_SZ_le[of h al] by simp
  obtain b where b: "next_hblk_fits_better st ?a (ext r) sz al = Ret b"
    "b \<longrightarrow> hb_next r \<noteq> 0 \<and> sz + ALIGN_PAD_SZ (hb_next r) al \<le> hb_sz (hdr_at st (HDR (hs st) (hb_next r)))"
    using next_hblk_fits_better_ok[OF heap_invD(1)[OF inv] req, of ?a "ext r"] rh(1) by auto
  show ?thesis
    using b(2) ex unfolding examine_hblk_def rh Let_def small b(1) bl_exempt_def by auto
qed

lemma search_fl_finds:
  assumes "ls i = as @ rest" "hbp = (if rest = [] then 0 else hd rest)" "length rest < fuel"
    and fits: "\<exists>h \<in> set rest. \<exists>r. blocks (hs st) h = Some r \<and> sz + ALIGN_PAD_SZ h al \<le> ext r"
    and inv: "heap_inv L st ls {} {}" and i: "i \<le> N_HBLK_FLS" and req: "sz + al < 2 ^ 63"
    and ex: "bl_exempt st sz kind" "GC_page_size (hs st) = BLK" "ms \<noteq> NO_SPLIT"
  shows "\<exists>h l. search_fl fuel st sz kind flags i ms al hbp = Ret ((h, l), st) \<and> h \<noteq> 0"
  using assms(1-3) fits
proof (induction fuel arbitrary: as rest hbp)
  case (Suc fuel)
  note D = heap_invD[OF inv]
  obtain h bs where rest: "rest = h # bs" using Suc.prems(4) by (cases rest) auto
  then have ls: "ls i = as @ h # bs" "hbp = h" "h \<in> set (ls i)" using Suc.prems(1,2) by auto
  obtain r where r: "blocks (hs st) h = Some r" "HBLK_IS_FREE r" using D(5)[OF ls(3)] by blast
  let ?a = "HDR (hs st) h"
  have rh: "hdr_at st ?a = r" using r(1) by (simp add: blocks_Some)
  note nx = list_links[OF D(3) i ls(1) r(1)]
  consider l where "examine_hblk st sz kind flags ms al h ?a = Ret (Allocate l, st)"
    | "examine_hblk st sz kind flags ms al h ?a = Ret (Continue, st)"
      "sz + ALIGN_PAD_SZ h al \<le> ext r \<longrightarrow> hb_next r \<noteq> 0
         \<and> sz + ALIGN_PAD_SZ (hb_next r) al \<le> hb_sz (hdr_at st (HDR (hs st) (hb_next r)))"
    using examine_exempt[OF inv r req ex, of flags] by blast
  then show ?case
  proof cases
    case 1
    then show ?thesis using ls(2) nx(1) by (simp add: hm_GET_HDR[OF D(1)])
  next
    case 2
    have "\<exists>x \<in> set bs. \<exists>rx. blocks (hs st) x = Some rx \<and> sz + ALIGN_PAD_SZ x al \<le> ext rx"
    proof (cases "sz + ALIGN_PAD_SZ h al \<le> ext r")
      case True
      then have n: "bs \<noteq> []" "hb_next r = hd bs" using 2(2) nx(2) by (auto split: if_splits)
      then have mem: "hd bs \<in> set (ls i)" using ls(1) by simp
      obtain rx where rx: "blocks (hs st) (hd bs) = Some rx" "HBLK_IS_FREE rx" using D(5)[OF mem] by blast
      then have "hdr_at st (HDR (hs st) (hd bs)) = rx" "hb_sz rx = ext rx" by (simp_all add: blocks_Some ext_free)
      then show ?thesis using 2(2) True n rx(1) by (intro bexI[of _ "hd bs"]) auto
    next
      case False
      then show ?thesis using Suc.prems(4) rest r(1) by auto
    qed
    then have "\<exists>x l. search_fl fuel st sz kind flags i ms al (hb_next r) = Ret ((x, l), st) \<and> x \<noteq> 0"
      by (intro Suc.IH[of "as @ [h]" bs]) (use ls(1) nx(2) rest Suc.prems(3) in auto)
    then show ?thesis using 2(1) ls(2) nx(1) rh by (simp add: hm_GET_HDR[OF D(1)])
  qed
qed simp

lemma GC_allochblk_nth_finds_spec:
  assumes inv: "heap_inv L st ls {} {}" and h: "h \<in> set (ls i)" "blocks (hs st) h = Some r" and lb: "0 < lb" "lb + BLK \<le> 2 ^ 64"
    and le: "BLK * OBJ_SZ_TO_BLOCKS lb + al < 2 ^ 63" and al: "align_ok al" and flags: "\<not> bit flags 1" "\<not> bit flags 2"
    and ex: "GC_page_size (hs st) = BLK" "bl_exempt st (BLK * OBJ_SZ_TO_BLOCKS lb) kind" "ms \<noteq> NO_SPLIT"
    and fits: "BLK * OBJ_SZ_TO_BLOCKS lb + ALIGN_PAD_SZ h al \<le> ext r" and os: "0 \<notin> set (os_mem (hs st))"
  shows "\<exists>b st'. GC_allochblk_nth st lb kind flags i ms al = Ret (b, st') \<and> (b \<noteq> 0 \<or> os_mem (hs st') = [])"
proof -
  note D = heap_invD[OF inv]
  have i: "i \<le> N_HBLK_FLS" by (rule listed_le[OF D(3) h(1)])
  have page: "page_ok (GC_page_size (hs st))" unfolding page_ok_def ex(1) by (rule exI[of _ 12]) (simp add: BLK_def)
  define sz where "sz = BLK * OBJ_SZ_TO_BLOCKS lb"
  have req: "sz + al < 2 ^ 63" using le by (simp add: sz_def)
  have head: "GC_hblkfreelist st i = (if ls i = [] then 0 else hd (ls i))" by (rule list_head[OF inv i])
  have len: "length (ls i) < FL_FUEL" using heap_inv_lengths(3)[OF inv, of i] by (simp add: FL_FUEL_def)
  have f: "\<exists>h \<in> set (ls i). \<exists>r. blocks (hs st) h = Some r \<and> sz + ALIGN_PAD_SZ h al \<le> ext r" using h fits by (auto simp: sz_def)
  obtain x l where x: "search_fl FL_FUEL st sz kind flags i ms al (GC_hblkfreelist st i) = Ret ((x, l), st)" "x \<noteq> 0"
    using search_fl_finds[OF append_Nil[symmetric] head len f inv i req ex(2)[folded sz_def] ex(1) ex(3)] by blast
  obtain y m st1 b st' where g: "search_fl FL_FUEL st sz kind flags i ms al (GC_hblkfreelist st i) = Ret ((y, m), st1)"
    "GC_allochblk_nth st lb kind flags i ms al = Ret (b, st')" "y \<noteq> 0 \<Longrightarrow> os_use (hs st) (hs st') (b \<noteq> 0)"
    by (rule GC_allochblk_nth_search[OF inv i lb le al flags page, of kind ms, folded sz_def]) (rule that)
  have "y = x" using g(1) x(1) by simp
  then show ?thesis using g(2,3) x(2) os by (auto simp: os_use_def)
qed

text \<open>
  C1: \<open>GC_allochblk_nth\<close> on a well-formed heap always returns. The address it returns begins a block in
  use of the rounded-up size with a fresh header of the kind that was asked for, mapped and without
  marks; it is aligned as asked, lies in memory that was free, and is not black listed unless the
  kind is exempt or the size exceeds the spacing of the black lists. Blocks in use are untouched,
  the free memory shrinks by exactly the block and the bytes \<open>D\<close> that were dropped on the way, and
  \<open>GC_large_free_bytes\<close> and \<open>GC_bytes_dropped\<close> account for both. Null means that nothing suitable was
  found on this list and the heap is well-formed still, or that the operating system had no memory
  left for headers.
\<close>

theorem GC_allochblk_nth_correct:
  assumes inv: "heap_inv L st ls {} {}" and i: "i \<le> N_HBLK_FLS" and lb: "0 < lb" "lb + BLK \<le> 2 ^ 64"
    and sz: "sz = BLK * OBJ_SZ_TO_BLOCKS lb" "sz + al < 2 ^ 63" and al: "align_ok al"
    and flags: "flags = 0 \<or> flags = IGNORE_OFF_PAGE" and page: "page_ok (GC_page_size (hs st))" and os: "0 \<notin> set (os_mem (hs st))"
  shows "\<exists>b st'. GC_allochblk_nth st lb kind flags i ms al = Ret (b, st')
    \<and> (b = 0 \<longrightarrow> os_mem (hs st') = [] \<or> (\<exists>ls' D. heap_inv L st' ls' {} {} \<and> keeps_used (blocks (hs st)) (blocks (hs st'))
          \<and> D \<subseteq> free_area (blocks (hs st)) \<and> free_area (blocks (hs st')) = free_area (blocks (hs st)) - D
          \<and> GC_large_free_bytes st' = GC_large_free_bytes st - of_nat (card D)
          \<and> GC_bytes_dropped st' = GC_bytes_dropped st + of_nat (card D)))
    \<and> (b \<noteq> 0 \<longrightarrow> (\<exists>ls' D r. heap_inv L st' ls' {} {} \<and> keeps_used (blocks (hs st)) (blocks (hs st'))
          \<and> blocks (hs st') b = Some r \<and> new_hdr st b lb kind r \<and> \<not> HBLK_IS_FREE r \<and> IS_MAPPED r \<and> ext r = sz
          \<and> D \<inter> {b ..< b + sz} = {} \<and> D \<union> {b ..< b + sz} \<subseteq> free_area (blocks (hs st))
          \<and> free_area (blocks (hs st')) = free_area (blocks (hs st)) - D - {b ..< b + sz}
          \<and> GC_large_free_bytes st' = GC_large_free_bytes st - of_nat (card D) - of_nat sz
          \<and> GC_bytes_dropped st' = GC_bytes_dropped st + of_nat (card D))
        \<and> al + 1 dvd b
        \<and> (bl_exempt st sz kind \<or> sz > GC_black_list_spacing (bls st) \<or> GC_is_black_listed (bls st) b (eff_size sz flags) = 0))"
proof -
  have bits: "\<not> bit flags 1" "\<not> bit flags 2" using flags by (auto simp: IGNORE_OFF_PAGE_def)
  obtain b st' where run: "GC_allochblk_nth st lb kind flags i ms al = Ret (b, st')"
    and none: "b = 0 \<longrightarrow> (\<exists>ls' D. shrunk L st ls' D st') \<or> os_use (hs st) (hs st') False"
    and some: "b \<noteq> 0 \<longrightarrow> (\<exists>D. taken L st b lb sz kind D st') \<and> al + 1 dvd b
        \<and> (bl_exempt st sz kind \<or> sz > GC_black_list_spacing (bls st) \<or> GC_is_black_listed (bls st) b (eff_size sz flags) = 0)"
    using GC_allochblk_nth_spec[OF inv i lb sz(2)[unfolded sz(1)] al bits page, of kind ms, folded sz(1)] by blast
  show ?thesis
  proof (rule exI[of _ b], rule exI[of _ st'], intro conjI impI run)
    assume "b = 0"
    then consider ls' D where "shrunk L st ls' D st'" | "os_use (hs st) (hs st') False" using none by blast
    then show "os_mem (hs st') = [] \<or> (\<exists>ls' D. heap_inv L st' ls' {} {} \<and> keeps_used (blocks (hs st)) (blocks (hs st'))
          \<and> D \<subseteq> free_area (blocks (hs st)) \<and> free_area (blocks (hs st')) = free_area (blocks (hs st)) - D
          \<and> GC_large_free_bytes st' = GC_large_free_bytes st - of_nat (card D)
          \<and> GC_bytes_dropped st' = GC_bytes_dropped st + of_nat (card D))"
      using os unfolding shrunk_def os_use_def by cases blast+
  next
    assume "b \<noteq> 0"
    then obtain D where "taken L st b lb sz kind D st'" using some by blast
    then show "\<exists>ls' D r. heap_inv L st' ls' {} {} \<and> keeps_used (blocks (hs st)) (blocks (hs st'))
          \<and> blocks (hs st') b = Some r \<and> new_hdr st b lb kind r \<and> \<not> HBLK_IS_FREE r \<and> IS_MAPPED r \<and> ext r = sz
          \<and> D \<inter> {b ..< b + sz} = {} \<and> D \<union> {b ..< b + sz} \<subseteq> free_area (blocks (hs st))
          \<and> free_area (blocks (hs st')) = free_area (blocks (hs st)) - D - {b ..< b + sz}
          \<and> GC_large_free_bytes st' = GC_large_free_bytes st - of_nat (card D) - of_nat sz
          \<and> GC_bytes_dropped st' = GC_bytes_dropped st + of_nat (card D)"
      unfolding taken_def by (elim conjE exE) (intro exI conjI)
  qed (use some in simp_all)
qed

text \<open>
  C2: \<open>GC_allochblk_nth\<close> does not pass over a list in vain: when blocks may be split and the request is
  exempt from the black lists (uncollectable, or small and pointer-free), a block on the list that
  is large enough for the size and the alignment makes it return an address, although a block is
  passed over when its successor looks better; unless the memory for headers runs out.
\<close>

theorem GC_allochblk_nth_finds:
  assumes inv: "heap_inv L st ls {} {}" and h: "h \<in> set (ls i)" "blocks (hs st) h = Some r" and lb: "0 < lb" "lb + BLK \<le> 2 ^ 64"
    and sz: "sz = BLK * OBJ_SZ_TO_BLOCKS lb" "sz + al < 2 ^ 63" and al: "align_ok al"
    and flags: "flags = 0 \<or> flags = IGNORE_OFF_PAGE"
    and ex: "GC_page_size (hs st) = BLK" "IS_UNCOLLECTABLE kind \<or> kind = PTRFREE \<and> sz \<le> MAX_BLACK_LIST_ALLOC" "ms \<noteq> NO_SPLIT"
    and fits: "sz + ALIGN_PAD_SZ h al \<le> ext r" and os: "0 \<notin> set (os_mem (hs st))"
  shows "\<exists>b st'. GC_allochblk_nth st lb kind flags i ms al = Ret (b, st') \<and> (b \<noteq> 0 \<or> os_mem (hs st') = [])"
proof -
  have bits: "\<not> bit flags 1" "\<not> bit flags 2" using flags by (auto simp: IGNORE_OFF_PAGE_def)
  show ?thesis
    using GC_allochblk_nth_finds_spec[OF inv h lb sz(2)[unfolded sz(1)] al bits ex(1) _ ex(3) fits[unfolded sz(1)] os, of kind] ex(2)
    by (simp add: bl_exempt_def sz(1))
qed

section \<open>Example\<close>

text \<open>The example heap with memory left for headers.\<close>

definition heap_os_ex :: heap_state where
  "heap_os_ex = set_hs heap_ex (hdr_ex\<lparr>os_mem := [1048576]\<rparr>)"

lemma HDR_set_os_mem [simp]: "HDR (s\<lparr>os_mem := m\<rparr>) = HDR s"
proof
  fix p
  have "GET_BI_loop n (s\<lparr>os_mem := m\<rparr>) hi b = GET_BI_loop n s hi b" for n hi b
    by (induction n arbitrary: b) simp_all
  then show "HDR (s\<lparr>os_mem := m\<rparr>) p = HDR s p" by (simp add: HDR_def GC_find_header_def GET_BI_def)
qed

lemma blocks_set_os_mem [simp]: "blocks (s\<lparr>os_mem := m\<rparr>) = blocks s"
  by (simp add: blocks_def fun_eq_iff)

lemma heap_os_ex_inv: "heap_inv 65536 heap_os_ex ls_ex {} {}"
proof -
  have "ht_inv (hdr_ex\<lparr>os_mem := [1048576]\<rparr>) [110000]" using hdr_ex_ht unfolding ht_inv_def by simp
  moreover have "mem_inv 65536 (hdr_ex\<lparr>os_mem := [1048576]\<rparr>) {100000 ..< 250000}"
    by (auto simp: mem_inv_def hdr_ex_def page_round_def SIZET_SAT_ADD_def gc_consts)
  ultimately have "hdr_inv 65536 (hdr_ex\<lparr>os_mem := [1048576]\<rparr>) {100000 ..< 250000} [110000] []"
    using hdr_ex_inv unfolding hdr_inv_def HDR_set_os_mem by simp
  then have "hm 65536 (hdr_ex\<lparr>os_mem := [1048576]\<rparr>)" by (auto simp: hm_def)
  then show ?thesis using heap_ex_inv by (simp add: heap_inv_def heap_os_ex_def) (simp add: set_hs_def)
qed

lemma heap_os_ex_page: "GC_page_size (hs heap_os_ex) = BLK" "os_mem (hs heap_os_ex) = [1048576]" "blocks (hs heap_os_ex) = blocks hdr_ex"
  by (simp_all add: heap_os_ex_def) (simp add: hdr_ex_def BLK_def)

lemma page_ok_BLK: "page_ok BLK"
  unfolding page_ok_def by (rule exI[of _ 12]) (simp add: BLK_def)

lemma align_ok_0: "align_ok 0"
  unfolding align_ok_def by (rule exI[of _ 0]) simp

lemma blocks_4096: "BLK * OBJ_SZ_TO_BLOCKS 4096 = 4096"
  by (simp add: OBJ_SZ_TO_BLOCKS_def BLK_def)

theorem GC_allochblk_nth_correct_witness:
  "\<exists>b st'. GC_allochblk_nth heap_os_ex 4096 PTRFREE 0 2 MAY_SPLIT 0 = Ret (b, st')
     \<and> (b \<noteq> 0 \<longrightarrow> (\<exists>r. blocks (hs st') b = Some r \<and> \<not> HBLK_IS_FREE r \<and> ext r = 4096 \<and> hb_sz r = 4096))"
proof -
  have "page_ok (GC_page_size (hs heap_os_ex))" by (simp add: heap_os_ex_page page_ok_BLK)
  moreover have "0 \<notin> set (os_mem (hs heap_os_ex))" by (simp add: heap_os_ex_page)
  ultimately have "\<exists>b st'. GC_allochblk_nth heap_os_ex 4096 PTRFREE 0 2 MAY_SPLIT 0 = Ret (b, st')
     \<and> (b \<noteq> 0 \<longrightarrow> (\<exists>r. blocks (hs st') b = Some r \<and> new_hdr heap_os_ex b 4096 PTRFREE r \<and> \<not> HBLK_IS_FREE r \<and> ext r = 4096))"
    using GC_allochblk_nth_correct[OF heap_os_ex_inv, of 2 4096 4096 0 0 PTRFREE MAY_SPLIT] align_ok_0 blocks_4096
    by (simp add: gc_consts) blast
  then show ?thesis unfolding new_hdr_def by blast
qed

theorem GC_allochblk_nth_finds_witness:
  "\<exists>b st'. GC_allochblk_nth heap_os_ex 4096 PTRFREE 0 2 MAY_SPLIT 0 = Ret (b, st') \<and> (b \<noteq> 0 \<or> os_mem (hs st') = [])"
proof -
  have h: "32768 \<in> set (ls_ex 2)" "blocks (hs heap_os_ex) 32768 = Some (hdr_of 32768 8192 FREE_BLK)"
    by (simp_all add: ls_ex_def heap_os_ex_page blocks_ex)
  have "ALIGN_PAD_SZ 32768 0 = 0" by (simp add: ALIGN_PAD_SZ_def)
  then have fits: "4096 + ALIGN_PAD_SZ 32768 0 \<le> ext (hdr_of 32768 8192 FREE_BLK)" by (simp add: hdr_of_ext)
  show ?thesis
    using GC_allochblk_nth_finds[OF heap_os_ex_inv h, of 4096 4096 0 0 PTRFREE MAY_SPLIT] fits align_ok_0 blocks_4096
    by (simp add: heap_os_ex_page gc_consts)
qed

end
