(* ===== verification/Cord_Rep.thy ===== *)
theory Cord_Rep
  imports GC_Prelude
begin

text \<open>
  The cord representation of \<^verbatim>\<open>cord/cordbscs.c\<close>: flat strings, concatenation nodes with cached
  lengths and depths, function nodes and substring nodes; construction, concatenation and
  rebalancing. Storage allocation is taken to succeed (its failure only prints a message and
  aborts); functions of function nodes are functions from indices to characters.
\<close>

section \<open>Representation\<close>

definition CORD_MAX_DEPTH :: nat where "CORD_MAX_DEPTH = 48"
definition MAX_LEFT_LEN :: nat where "MAX_LEFT_LEN = 255"
definition sizeof_CordRep :: nat where "sizeof_CordRep = 32"
definition SHORT_LIMIT :: nat where "SHORT_LIMIT = sizeof_CordRep - 1"
definition SUBSTR_LIMIT :: nat where "SUBSTR_LIMIT = 10 * SHORT_LIMIT"

definition NUL :: char where "NUL = CHR 0x00"

text \<open>
  \<open>Concat\<close> carries the fields \<open>depth\<close>, \<open>left_len\<close> and \<open>len\<close> of \<open>struct Generic\<close>; the two kinds of
  substring nodes are told apart by their access function.
\<close>

datatype CORD =
    is_EMPTY: CORD_EMPTY
  | CStr string
  | Concat nat nat nat CORD CORD
  | Func nat "nat \<Rightarrow> char"
  | SubstrIndex nat string nat     \<comment> \<open>\<open>CORD_index_access_fn\<close> with \<open>sa_cord\<close> and \<open>sa_index\<close>\<close>
  | SubstrApply nat CORD nat       \<comment> \<open>\<open>CORD_apply_access_fn\<close> with \<open>sa_cord\<close> and \<open>sa_index\<close>\<close>

fun CORD_IS_STRING :: "CORD \<Rightarrow> bool" where
  "CORD_IS_STRING (CStr s) \<longleftrightarrow> True"
| "CORD_IS_STRING _ \<longleftrightarrow> False"

fun IS_CONCATENATION :: "CORD \<Rightarrow> bool" where
  "IS_CONCATENATION (Concat d ll n l r) \<longleftrightarrow> True"
| "IS_CONCATENATION _ \<longleftrightarrow> False"

fun IS_FUNCTION :: "CORD \<Rightarrow> bool" where
  "IS_FUNCTION (Func n f) \<longleftrightarrow> True"
| "IS_FUNCTION (SubstrIndex n s k) \<longleftrightarrow> True"
| "IS_FUNCTION (SubstrApply n c k) \<longleftrightarrow> True"
| "IS_FUNCTION _ \<longleftrightarrow> False"

fun GEN_LEN :: "CORD \<Rightarrow> nat" where
  "GEN_LEN CORD_EMPTY = 0"
| "GEN_LEN (CStr s) = length s"
| "GEN_LEN (Concat d ll n l r) = n"
| "GEN_LEN (Func n f) = n"
| "GEN_LEN (SubstrIndex n s k) = n"
| "GEN_LEN (SubstrApply n c k) = n"

fun DEPTH :: "CORD \<Rightarrow> nat" where
  "DEPTH (Concat d ll n l r) = d"
| "DEPTH _ = 0"

fun LEFT_LEN :: "CORD \<Rightarrow> nat" where
  "LEFT_LEN (Concat d ll n l r) =
     (if ll \<noteq> 0 then ll else if CORD_IS_STRING l then n - GEN_LEN r else GEN_LEN l)"
| "LEFT_LEN _ = 0"

definition CORD_len :: "CORD \<Rightarrow> nat" where
  "CORD_len x = (if is_EMPTY x then 0 else GEN_LEN x)"

text \<open>The access function of a function node.\<close>

fun node_fn :: "CORD \<Rightarrow> nat \<Rightarrow> char" where
  "node_fn (Func n f) i = f i"
| "node_fn (SubstrIndex n s k) i = s ! (i + k)"
| "node_fn (SubstrApply n c k) i = node_fn c (i + k)"
| "node_fn _ i = NUL"

section \<open>Construction\<close>

text \<open>A C string argument is given up to its terminating NUL; \<open>y\<close> holds at least \<open>len\<close> characters.\<close>

definition copy_char_substr :: "string \<Rightarrow> nat \<Rightarrow> string" where
  "copy_char_substr s len = take len s"

definition cat_char_substr :: "string \<Rightarrow> nat \<Rightarrow> string \<Rightarrow> nat \<Rightarrow> string" where
  "cat_char_substr x len_x y len_y = take len_x x @ take len_y y"

definition CORD_from_char_star :: "string \<Rightarrow> CORD" where
  "CORD_from_char_star s =
     (let len = length s in if len = 0 then CORD_EMPTY else CStr (copy_char_substr s len))"

text \<open>The general case at the end of both concatenations, with the balancing as a parameter.\<close>

definition new_concat :: "(CORD \<Rightarrow> CORD outcome) \<Rightarrow> nat \<Rightarrow> nat \<Rightarrow> nat \<Rightarrow> CORD \<Rightarrow> CORD \<Rightarrow> CORD outcome" where
  "new_concat balance depth len_x result_len x y =
     (let result = Concat depth (if len_x \<le> MAX_LEFT_LEN then len_x else 0) result_len x y
      in if depth \<ge> CORD_MAX_DEPTH then balance result else Ret result)"

fun CORD_cat_char_star_with :: "(CORD \<Rightarrow> CORD outcome) \<Rightarrow> CORD \<Rightarrow> string \<Rightarrow> nat \<Rightarrow> CORD outcome" where
  "CORD_cat_char_star_with balance x y len_y =
     (if len_y = 0 then Ret x
      else let whole = (\<lambda>y len_y. CStr (if length y = len_y then y else copy_char_substr y len_y))
      in (case x of
        CORD_EMPTY \<Rightarrow> Ret (whole y len_y)
      | CStr s \<Rightarrow>
          let len_x = length s; result_len = len_x + len_y
          in if result_len \<le> SHORT_LIMIT then Ret (CStr (cat_char_substr s len_x y len_y))
             else new_concat balance 1 len_x result_len x (whole y len_y)
      | Concat d ll n left right \<Rightarrow>
          let len_x = n
          in (case right of
            CStr rs \<Rightarrow>
              if len_y \<le> SHORT_LIMIT div 2 then
                let right_len = (if \<not> CORD_IS_STRING left then len_x - GEN_LEN left
                                 else if ll \<noteq> 0 then len_x - ll else length rs);
                    result_len = right_len + len_y
                in if result_len \<le> SHORT_LIMIT then
                     new_concat balance (if CORD_IS_STRING left then 1 else DEPTH left + 1)
                       (len_x - right_len) (len_x - right_len + result_len) left
                       (whole (cat_char_substr rs right_len y len_y) result_len)
                   else new_concat balance (d + 1) len_x (len_x + len_y) x (whole y len_y)
              else new_concat balance (d + 1) len_x (len_x + len_y) x (whole y len_y)
          | _ \<Rightarrow> new_concat balance (d + 1) len_x (len_x + len_y) x (whole y len_y))
      | _ \<Rightarrow> new_concat balance (DEPTH x + 1) (GEN_LEN x) (GEN_LEN x + len_y) x (whole y len_y)))"

declare CORD_cat_char_star_with.simps [simp del]

definition CORD_cat_with :: "(CORD \<Rightarrow> CORD outcome) \<Rightarrow> CORD \<Rightarrow> CORD \<Rightarrow> CORD outcome" where
  "CORD_cat_with balance x y =
     (if is_EMPTY x then Ret y
      else if is_EMPTY y then Ret x
      else (case y of
        CStr s \<Rightarrow> CORD_cat_char_star_with balance x s (length s)
      | _ \<Rightarrow>
          let len_x = GEN_LEN x;
              depth = (if CORD_IS_STRING x then DEPTH y + 1
                       else let depth = DEPTH x + 1 in if DEPTH y \<ge> depth then DEPTH y + 1 else depth)
          in new_concat balance depth len_x (len_x + GEN_LEN y) x y))"

section \<open>Balancing\<close>

text \<open>\<open>CORD_init_min_len\<close>: Fibonacci numbers, held back at the top of \<open>size_t\<close>.\<close>

fun init_min_len_loop :: "nat \<Rightarrow> nat \<Rightarrow> nat \<Rightarrow> nat list" where
  "init_min_len_loop 0 previous latest = []"
| "init_min_len_loop (Suc n) previous latest =
     (let current = (if latest < 2 ^ 64 - 1 - previous then latest + previous else latest)
      in current # init_min_len_loop n latest current)"

definition min_len :: "nat list" where
  "min_len = 1 # 2 # init_min_len_loop (CORD_MAX_DEPTH - 2) 1 2"

text \<open>
  The forest array; an entry that was not initialised is \<open>None\<close>, and reading it or leaving
  the array has no result.
\<close>

type_synonym forest = "nat \<Rightarrow> (CORD \<times> nat) option"

fun init_forest_loop :: "nat list \<Rightarrow> nat \<Rightarrow> nat \<Rightarrow> forest \<Rightarrow> forest outcome" where
  "init_forest_loop [] i max_len f = Abort ''Cord too long''"
| "init_forest_loop (m # ms) i max_len f =
     (let f = f(i := Some (CORD_EMPTY, 0))
      in if m > max_len then Ret f else init_forest_loop ms (i + 1) max_len f)"

definition CORD_init_forest :: "nat \<Rightarrow> forest outcome" where
  "CORD_init_forest max_len = init_forest_loop min_len 0 max_len (\<lambda>_. None)"

definition add_tree :: "(CORD \<Rightarrow> CORD \<Rightarrow> CORD outcome) \<Rightarrow> forest \<Rightarrow> nat \<Rightarrow> CORD \<Rightarrow> nat \<Rightarrow> (forest \<times> CORD \<times> nat) outcome" where
  "add_tree cat f i sumc sum_len =
     (case f i of
        None \<Rightarrow> Stuck
      | Some (c, l) \<Rightarrow>
          if \<not> is_EMPTY c
          then obind (cat c sumc) (\<lambda>sumc. Ret (f(i := Some (CORD_EMPTY, l)), sumc, sum_len + l))
          else Ret (f, sumc, sum_len))"

function add_forest_lower ::
    "(CORD \<Rightarrow> CORD \<Rightarrow> CORD outcome) \<Rightarrow> nat \<Rightarrow> nat \<Rightarrow> forest \<Rightarrow> CORD \<Rightarrow> nat \<Rightarrow> (nat \<times> forest \<times> CORD \<times> nat) outcome" where
  "add_forest_lower cat len i f sumc sum_len =
     (if i + 1 \<ge> CORD_MAX_DEPTH then Stuck
      else if len > min_len ! (i + 1)
      then obind (add_tree cat f i sumc sum_len) (\<lambda>(f, sumc, sum_len).
             add_forest_lower cat len (i + 1) f sumc sum_len)
      else Ret (i, f, sumc, sum_len))"
  by pat_completeness auto
termination by (relation "measure (\<lambda>(cat, len, i, f, s, n). CORD_MAX_DEPTH - i)") auto

function add_forest_upper ::
    "(CORD \<Rightarrow> CORD \<Rightarrow> CORD outcome) \<Rightarrow> nat \<Rightarrow> forest \<Rightarrow> CORD \<Rightarrow> nat \<Rightarrow> (nat \<times> forest \<times> CORD \<times> nat) outcome" where
  "add_forest_upper cat i f sumc sum_len =
     (if i \<ge> CORD_MAX_DEPTH then Stuck
      else if sum_len \<ge> min_len ! i
      then obind (add_tree cat f i sumc sum_len) (\<lambda>(f, sumc, sum_len).
             add_forest_upper cat (i + 1) f sumc sum_len)
      else Ret (i, f, sumc, sum_len))"
  by pat_completeness auto
termination by (relation "measure (\<lambda>(cat, i, f, s, n). CORD_MAX_DEPTH - i)") auto

declare add_forest_lower.simps [simp del] add_forest_upper.simps [simp del]

definition CORD_add_forest :: "(CORD \<Rightarrow> CORD \<Rightarrow> CORD outcome) \<Rightarrow> forest \<Rightarrow> CORD \<Rightarrow> nat \<Rightarrow> forest outcome" where
  "CORD_add_forest cat f x len =
     obind (add_forest_lower cat len 0 f CORD_EMPTY 0) (\<lambda>(i, f, sumc, sum_len).
     obind (cat sumc x) (\<lambda>sumc.
     obind (add_forest_upper cat i f sumc (sum_len + len)) (\<lambda>(i, f, sumc, sum_len).
       if i = 0 then Stuck else Ret (f(i - 1 := Some (sumc, sum_len))))))"

function concat_forest_loop ::
    "(CORD \<Rightarrow> CORD \<Rightarrow> CORD outcome) \<Rightarrow> forest \<Rightarrow> nat \<Rightarrow> nat \<Rightarrow> CORD \<Rightarrow> nat \<Rightarrow> CORD outcome" where
  "concat_forest_loop cat f expected_len i sumc sum_len =
     (if sum_len \<noteq> expected_len then
        if i \<ge> CORD_MAX_DEPTH then Stuck
        else obind (add_tree cat f i sumc sum_len) (\<lambda>(_, sumc, sum_len).
               concat_forest_loop cat f expected_len (i + 1) sumc sum_len)
      else Ret sumc)"
  by pat_completeness auto
termination by (relation "measure (\<lambda>(cat, f, e, i, s, n). CORD_MAX_DEPTH - i)") auto

declare concat_forest_loop.simps [simp del]

definition CORD_concat_forest :: "(CORD \<Rightarrow> CORD \<Rightarrow> CORD outcome) \<Rightarrow> forest \<Rightarrow> nat \<Rightarrow> CORD outcome" where
  "CORD_concat_forest cat f expected_len = concat_forest_loop cat f expected_len 0 CORD_EMPTY 0"

fun CORD_balance_insert :: "(CORD \<Rightarrow> CORD \<Rightarrow> CORD outcome) \<Rightarrow> CORD \<Rightarrow> nat \<Rightarrow> forest \<Rightarrow> forest outcome" where
  "CORD_balance_insert cat (Concat d ll n l r) len f =
     (if d \<ge> CORD_MAX_DEPTH \<or> len < min_len ! d then
        let left_len = LEFT_LEN (Concat d ll n l r)
        in obind (CORD_balance_insert cat l left_len f) (\<lambda>f.
             CORD_balance_insert cat r (len - left_len) f)
      else CORD_add_forest cat f (Concat d ll n l r) len)"
| "CORD_balance_insert cat x len f = CORD_add_forest cat f x len"

text \<open>
  Concatenation and balancing call each other: a node of maximal depth is balanced, and
  balancing concatenates. The first argument bounds how deep such calls nest.
\<close>

fun CORD_balance_fuel :: "nat \<Rightarrow> CORD \<Rightarrow> CORD outcome" where
  "CORD_balance_fuel 0 x = Stuck"
| "CORD_balance_fuel (Suc n) x =
     (if is_EMPTY x \<or> CORD_IS_STRING x then Ret x
      else let len = GEN_LEN x; cat = CORD_cat_with (CORD_balance_fuel n)
           in obind (CORD_init_forest len) (\<lambda>f.
              obind (CORD_balance_insert cat x len f) (\<lambda>f.
              CORD_concat_forest cat f len)))"

definition BALANCE_FUEL :: nat where "BALANCE_FUEL = 8"

definition CORD_balance :: "CORD \<Rightarrow> CORD outcome" where
  "CORD_balance = CORD_balance_fuel BALANCE_FUEL"

definition CORD_cat :: "CORD \<Rightarrow> CORD \<Rightarrow> CORD outcome" where
  "CORD_cat = CORD_cat_with CORD_balance"

definition CORD_cat_char_star :: "CORD \<Rightarrow> string \<Rightarrow> nat \<Rightarrow> CORD outcome" where
  "CORD_cat_char_star = CORD_cat_char_star_with CORD_balance"

text \<open>\<open>CORD_from_fn_inner\<close>: a short run of characters without NUL becomes a string.\<close>

definition CORD_from_fn_inner :: "(nat \<Rightarrow> char) \<Rightarrow> CORD \<Rightarrow> nat \<Rightarrow> CORD" where
  "CORD_from_fn_inner fn node len =
     (if len = 0 then CORD_EMPTY
      else let buf = takeWhile (\<lambda>c. c \<noteq> NUL) (map fn [0 ..< len])
           in if len \<le> SHORT_LIMIT \<and> length buf = len then CStr (copy_char_substr buf len) else node)"

definition CORD_from_fn :: "(nat \<Rightarrow> char) \<Rightarrow> nat \<Rightarrow> CORD" where
  "CORD_from_fn fn len = CORD_from_fn_inner fn (Func len fn) len"

section \<open>Contents and well-formedness\<close>

fun cord_chars :: "CORD \<Rightarrow> string" where
  "cord_chars CORD_EMPTY = []"
| "cord_chars (CStr s) = s"
| "cord_chars (Concat d ll n l r) = cord_chars l @ cord_chars r"
| "cord_chars x = map (node_fn x) [0 ..< GEN_LEN x]"

text \<open>The cached fields of every node agree with its subtrees.\<close>

fun cord_wf :: "CORD \<Rightarrow> bool" where
  "cord_wf CORD_EMPTY \<longleftrightarrow> True"
| "cord_wf (CStr s) \<longleftrightarrow> s \<noteq> [] \<and> NUL \<notin> set s"
| "cord_wf (Concat d ll n l r) \<longleftrightarrow>
     cord_wf l \<and> cord_wf r \<and> \<not> is_EMPTY l \<and> \<not> is_EMPTY r \<and> d = max (DEPTH l) (DEPTH r) + 1
     \<and> n = length (cord_chars l) + length (cord_chars r)
     \<and> ll = (if length (cord_chars l) \<le> MAX_LEFT_LEN then length (cord_chars l) else 0)"
| "cord_wf (Func n f) \<longleftrightarrow> n > 0"
| "cord_wf (SubstrIndex n s k) \<longleftrightarrow> n > 0 \<and> k + n \<le> length s \<and> NUL \<notin> set s"
| "cord_wf (SubstrApply n c k) \<longleftrightarrow> n > 0 \<and> IS_FUNCTION c \<and> cord_wf c \<and> k + n \<le> GEN_LEN c"

definition cord_ok :: "CORD \<Rightarrow> bool" where
  "cord_ok x \<longleftrightarrow> cord_wf x \<and> DEPTH x < CORD_MAX_DEPTH"

lemma GEN_LEN_chars: "cord_wf x \<Longrightarrow> GEN_LEN x = length (cord_chars x)"
  by (cases x) auto

lemma CORD_len_chars: "cord_wf x \<Longrightarrow> CORD_len x = length (cord_chars x)"
  by (cases x) (auto simp: CORD_len_def GEN_LEN_chars)

lemma chars_nonempty: "cord_wf x \<Longrightarrow> cord_chars x = [] \<longleftrightarrow> is_EMPTY x"
  by (induction x) auto

lemma LEFT_LEN_chars:
  assumes "cord_wf (Concat d ll n l r)"
  shows "LEFT_LEN (Concat d ll n l r) = length (cord_chars l)"
  using assms by (auto simp: GEN_LEN_chars)

lemma function_chars:
  "IS_FUNCTION x \<Longrightarrow> cord_chars x = map (node_fn x) [0 ..< GEN_LEN x]"
  by (cases x) auto

lemma DEPTH_string: "CORD_IS_STRING x \<Longrightarrow> DEPTH x = 0"
  by (cases x) auto

section \<open>Concatenation\<close>

lemma new_concat_wf:
  assumes "cord_wf x" "cord_wf y" "\<not> is_EMPTY x" "\<not> is_EMPTY y"
    and "d = max (DEPTH x) (DEPTH y) + 1" "lx = length (cord_chars x)"
    and "n = length (cord_chars x) + length (cord_chars y)"
  shows "\<exists>z. new_concat bal d lx n x y = (if d < CORD_MAX_DEPTH then Ret z else bal z)
      \<and> cord_wf z \<and> cord_chars z = cord_chars x @ cord_chars y \<and> DEPTH z = d \<and> IS_CONCATENATION z"
  using assms by (auto simp: new_concat_def Let_def not_less)

text \<open>A node \<open>z\<close> for the result, balanced when it is too deep.\<close>

definition joins :: "(CORD \<Rightarrow> CORD outcome) \<Rightarrow> CORD \<Rightarrow> string \<Rightarrow> nat \<Rightarrow> CORD outcome \<Rightarrow> bool" where
  "joins bal x s d res \<longleftrightarrow>
     (\<exists>z. res = (if DEPTH z < CORD_MAX_DEPTH then Ret z else bal z) \<and> cord_wf z
        \<and> cord_chars z = cord_chars x @ s \<and> DEPTH z \<le> d \<and> (DEPTH z < CORD_MAX_DEPTH \<or> IS_CONCATENATION z))"

lemma joins_new_concat:
  assumes "cord_wf x" "cord_wf y" "\<not> is_EMPTY x" "\<not> is_EMPTY y"
    and "d = max (DEPTH x) (DEPTH y) + 1" "lx = length (cord_chars x)"
    and "n = length (cord_chars x) + length (cord_chars y)" "d \<le> D"
    and "cord_chars x @ cord_chars y = cord_chars x' @ s"
  shows "joins bal x' s D (new_concat bal d lx n x y)"
  using new_concat_wf[OF assms(1-7), of bal] assms(8,9) unfolding joins_def by fastforce

lemma joins_Ret:
  "cord_wf z \<Longrightarrow> cord_chars z = cord_chars x @ s \<Longrightarrow> DEPTH z \<le> d \<Longrightarrow> DEPTH z < CORD_MAX_DEPTH
   \<Longrightarrow> joins bal x s d (Ret z)"
  unfolding joins_def by auto

lemma NUL_notin_take: "NUL \<notin> set y \<Longrightarrow> NUL \<notin> set (take n y)"
  by (auto dest: in_set_takeD)

lemma joins_cat_char_star:
  assumes x: "cord_wf x" "DEPTH x < CORD_MAX_DEPTH" and y: "NUL \<notin> set y" "n \<le> length y"
  shows "joins bal x (take n y) (if n = 0 then DEPTH x else DEPTH x + 1) (CORD_cat_char_star_with bal x y n)"
proof (cases "n = 0")
  case True
  then show ?thesis
    using x by (simp add: CORD_cat_char_star_with.simps joins_Ret)
next
  case False
  let ?w = "CStr (if length y = n then y else copy_char_substr y n)"
  have w: "cord_wf ?w" "cord_chars ?w = take n y" "\<not> is_EMPTY ?w" "DEPTH ?w = 0"
    using False y NUL_notin_take[OF y(1), of n] by (auto simp: copy_char_substr_def)
  have gen: "joins bal x (take n y) (DEPTH x + 1) (new_concat bal (DEPTH x + 1) (GEN_LEN x) (GEN_LEN x + n) x ?w)"
    if "\<not> is_EMPTY x"
    using that by (intro joins_new_concat) (use x w y in \<open>simp_all add: GEN_LEN_chars\<close>)
  show ?thesis
  proof (cases x)
    case CORD_EMPTY
    then show ?thesis
      using False w by (simp add: CORD_cat_char_star_with.simps joins_Ret CORD_MAX_DEPTH_def)
  next
    case (CStr s)
    then show ?thesis
      using False x y gen NUL_notin_take[OF y(1), of n]
      by (auto simp: CORD_cat_char_star_with.simps Let_def cat_char_substr_def CORD_MAX_DEPTH_def
          intro!: joins_Ret)
  next
    case (Concat d ll len l r)
    show ?thesis
    proof (cases "\<exists>rs. r = CStr rs \<and> n \<le> SHORT_LIMIT div 2 \<and> length rs + n \<le> SHORT_LIMIT")
      case False
      then show ?thesis
        using gen Concat \<open>n \<noteq> 0\<close> x
        by (cases r) (auto simp: CORD_cat_char_star_with.simps Let_def GEN_LEN_chars)
    next
      case True
      then obtain rs where r: "r = CStr rs" "n \<le> SHORT_LIMIT div 2" "length rs + n \<le> SHORT_LIMIT"
        by blast
      let ?y = "CStr (rs @ take n y)"
      have "joins bal x (take n y) (DEPTH x + 1)
          (new_concat bal (DEPTH l + 1) (length (cord_chars l)) (length (cord_chars l) + (length rs + n)) l ?y)"
        using x y r Concat NUL_notin_take[OF y(1), of n] \<open>n \<noteq> 0\<close>
        by (intro joins_new_concat) auto
      then show ?thesis
        using x y r Concat \<open>n \<noteq> 0\<close>
        by (auto simp: CORD_cat_char_star_with.simps Let_def GEN_LEN_chars cat_char_substr_def
            DEPTH_string)
    qed
  next
    case (Func len f)
    then show ?thesis
      using gen False by (simp add: CORD_cat_char_star_with.simps Let_def)
  next
    case (SubstrIndex len s k)
    then show ?thesis
      using gen False by (simp add: CORD_cat_char_star_with.simps Let_def)
  next
    case (SubstrApply len c k)
    then show ?thesis
      using gen False by (simp add: CORD_cat_char_star_with.simps Let_def)
  qed
qed

lemma joins_cat:
  assumes "cord_wf x" "DEPTH x < CORD_MAX_DEPTH" "cord_wf y" "DEPTH y < CORD_MAX_DEPTH"
  shows "joins bal x (cord_chars y)
     (if is_EMPTY x then DEPTH y else if is_EMPTY y then DEPTH x else max (DEPTH x) (DEPTH y) + 1)
     (CORD_cat_with bal x y)"
proof (cases "is_EMPTY x \<or> is_EMPTY y")
  case True
  then show ?thesis
    using assms by (cases x; cases y) (auto simp: CORD_cat_with_def joins_Ret)
next
  case False
  show ?thesis
  proof (cases y)
    case (CStr s)
    then show ?thesis
      using False assms joins_cat_char_star[of x s "length s" bal]
      by (simp add: CORD_cat_with_def)
  qed (use False assms in \<open>auto simp: CORD_cat_with_def Let_def GEN_LEN_chars DEPTH_string
        intro!: joins_new_concat\<close>)
qed

section \<open>The length table\<close>

lemma init_min_len_loop_numeral:
  "latest + previous < 2 ^ 64 - 1 \<Longrightarrow>
   init_min_len_loop (numeral k) previous latest =
     (latest + previous) # init_min_len_loop (pred_numeral k) latest (latest + previous)"
  by (simp only: numeral_eq_Suc init_min_len_loop.simps Let_def less_diff_conv if_True)

lemma min_len_eq: "min_len = [1, 2, 3, 5, 8, 13, 21, 34, 55, 89, 144, 233, 377, 610, 987, 1597, 2584,
    4181, 6765, 10946, 17711, 28657, 46368, 75025, 121393, 196418, 317811, 514229, 832040,
    1346269, 2178309, 3524578, 5702887, 9227465, 14930352, 24157817, 39088169, 63245986,
    102334155, 165580141, 267914296, 433494437, 701408733, 1134903170, 1836311903,
    2971215073, 4807526976, 7778742049]"
  by (simp add: min_len_def CORD_MAX_DEPTH_def init_min_len_loop_numeral)

lemma min_len_length: "length min_len = 48"
  by (simp add: min_len_eq)

lemma min_len_values: "min_len ! 0 = 1" "min_len ! 44 = 1836311903"
  by (simp_all add: min_len_eq)

lemma min_len_add: "i < 46 \<Longrightarrow> min_len ! (i + 2) = min_len ! i + min_len ! (i + 1)"
proof -
  have "drop 2 min_len = map (\<lambda>(a, b). a + b) (zip (take 46 min_len) (take 46 (tl min_len)))"
    by (simp add: min_len_eq)
  then have "i < 46 \<Longrightarrow> drop 2 min_len ! i = min_len ! i + tl min_len ! i"
    by (simp only:) (simp add: min_len_length)
  then show "i < 46 \<Longrightarrow> min_len ! (i + 2) = min_len ! i + min_len ! (i + 1)"
    by (simp add: min_len_length nth_tl add.commute)
qed

lemma min_len_pos: "i < 48 \<Longrightarrow> min_len ! i > 0"
proof -
  have "\<forall>x \<in> set min_len. x > 0" by (simp add: min_len_eq)
  then show "i < 48 \<Longrightarrow> min_len ! i > 0" by (simp add: min_len_length)
qed

lemma min_len_sorted: "sorted_wrt (<) min_len"
  by (simp add: min_len_eq)

lemma min_len_less: "i < j \<Longrightarrow> j < 48 \<Longrightarrow> min_len ! i < min_len ! j"
  using min_len_sorted by (simp add: sorted_wrt_iff_nth_less min_len_length)

lemma min_len_less_iff: "i < 48 \<Longrightarrow> j < 48 \<Longrightarrow> min_len ! i < min_len ! j \<longleftrightarrow> i < j"
  by (metis min_len_less less_asym less_linear)

section \<open>The forest\<close>

definition tree_chars :: "forest \<Rightarrow> nat \<Rightarrow> string" where
  "tree_chars f i = (case f i of None \<Rightarrow> [] | Some (c, l) \<Rightarrow> cord_chars c)"

text \<open>A tree at index \<open>i\<close> is long enough for its index and at most two levels deeper than it.\<close>

definition tree_ok :: "nat \<Rightarrow> (CORD \<times> nat) option \<Rightarrow> bool" where
  "tree_ok i e \<longleftrightarrow> (\<exists>c l. e = Some (c, l) \<and> (is_EMPTY c \<or>
     cord_wf c \<and> l = length (cord_chars c) \<and> min_len ! i \<le> l \<and> DEPTH c \<le> i + 2))"

definition forest_ok :: "nat \<Rightarrow> forest \<Rightarrow> bool" where
  "forest_ok k f \<longleftrightarrow> (\<forall>i < k. tree_ok i (f i))"

definition forest_chars :: "forest \<Rightarrow> nat \<Rightarrow> nat \<Rightarrow> string" where
  "forest_chars f i k = concat (map (tree_chars f) (rev [i ..< k]))"

lemma forest_chars_step: "i < k \<Longrightarrow> forest_chars f i k = forest_chars f (i + 1) k @ tree_chars f i"
  by (simp add: forest_chars_def upt_conv_Cons)

lemma forest_chars_cong: "(\<And>j. i \<le> j \<Longrightarrow> j < k \<Longrightarrow> f j = f' j) \<Longrightarrow> forest_chars f i k = forest_chars f' i k"
  unfolding forest_chars_def by (rule arg_cong[of _ _ concat]) (auto simp: tree_chars_def)

lemma forest_chars_empty: "(\<And>j. i \<le> j \<Longrightarrow> j < k \<Longrightarrow> tree_chars f j = []) \<Longrightarrow> forest_chars f i k = []"
  by (simp add: forest_chars_def)

lemma forest_chars_low:
  "\<forall>j < i. tree_chars f j = [] \<Longrightarrow> i \<le> k \<Longrightarrow> forest_chars f 0 k = forest_chars f i k"
proof (induction i)
  case (Suc i)
  then show ?case using forest_chars_step[of i k f] by simp
qed simp

lemma min_len_1: "min_len ! Suc 0 = 2"
  by (simp add: min_len_eq)

text \<open>Joining two trees raises the index that their length justifies by one.\<close>

lemma grow_index:
  assumes "min_len ! i \<le> n" "k \<le> 44" "n = length s" "m \<le> i + 1" "min_len ! m \<le> length s" "m < k" "i < k"
  shows "min_len ! (max i m + 1) \<le> min_len ! i + length s"
proof (cases "m = i + 1")
  case True
  then show ?thesis
    using assms min_len_add[of i] by (simp add: max_def)
next
  case False
  then have "max i m = i" using assms(4) by simp
  moreover have "min_len ! (i + 1) \<le> min_len ! i + min_len ! i"
    using assms(2,7) min_len_add[of "i - 1"] min_len_less[of "i - 1" i] min_len_values(1) min_len_1
    by (cases i) simp_all
  ultimately show ?thesis using assms(1,3) by simp
qed

text \<open>The concatenation that balancing relies on: no balancing below the maximal depth.\<close>

locale shallow_cat =
  fixes cat :: "CORD \<Rightarrow> CORD \<Rightarrow> CORD outcome"
  assumes cat_shallow: "cord_wf x \<Longrightarrow> cord_wf y \<Longrightarrow> max (DEPTH x) (DEPTH y) + 1 < CORD_MAX_DEPTH \<Longrightarrow>
    \<exists>z. cat x y = Ret z \<and> cord_wf z \<and> cord_chars z = cord_chars x @ cord_chars y
      \<and> DEPTH z \<le> (if is_EMPTY x then DEPTH y else if is_EMPTY y then DEPTH x else max (DEPTH x) (DEPTH y) + 1)"
begin

lemma add_tree_spec:
  assumes f: "forest_ok k f" "i < k" "k \<le> 44" and s: "cord_wf s" "DEPTH s \<le> 46" "n = length (cord_chars s)"
  shows "\<exists>f' s' n'. add_tree cat f i s n = Ret (f', s', n') \<and> forest_ok k f' \<and> tree_chars f' i = []
     \<and> (\<forall>j. j \<noteq> i \<longrightarrow> f' j = f j) \<and> cord_wf s' \<and> n' = length (cord_chars s')
     \<and> cord_chars s' = tree_chars f i @ cord_chars s
     \<and> (tree_chars f i = [] \<and> s' = s \<or>
        tree_chars f i \<noteq> [] \<and> min_len ! i \<le> length (tree_chars f i)
        \<and> DEPTH s' \<le> (if is_EMPTY s then i + 2 else max (i + 2) (DEPTH s) + 1))"
proof -
  from f obtain c l where c: "f i = Some (c, l)" "is_EMPTY c \<or>
     cord_wf c \<and> l = length (cord_chars c) \<and> min_len ! i \<le> l \<and> DEPTH c \<le> i + 2"
    unfolding forest_ok_def tree_ok_def by blast
  show ?thesis
  proof (cases "is_EMPTY c")
    case True
    then have "add_tree cat f i s n = Ret (f, s, n)" "tree_chars f i = []"
      using c by (auto simp: add_tree_def tree_chars_def is_EMPTY_def)
    then show ?thesis
      using f s by auto
  next
    case False
    with c have c': "cord_wf c" "l = length (cord_chars c)" "min_len ! i \<le> l" "DEPTH c \<le> i + 2"
      by auto
    have "max (DEPTH c) (DEPTH s) + 1 < CORD_MAX_DEPTH"
      using c'(4) f s by (simp add: CORD_MAX_DEPTH_def)
    from cat_shallow[OF c'(1) s(1) this] obtain z where z: "cat c s = Ret z" "cord_wf z"
      "cord_chars z = cord_chars c @ cord_chars s"
      "DEPTH z \<le> (if is_EMPTY s then DEPTH c else max (DEPTH c) (DEPTH s) + 1)"
      using False by auto
    have "add_tree cat f i s n = Ret (f(i := Some (CORD_EMPTY, l)), z, n + l)"
      using c False z(1) by (simp add: add_tree_def)
    moreover have "tree_chars f i = cord_chars c" "cord_chars c \<noteq> []"
      using c c' False chars_nonempty by (simp_all add: tree_chars_def)
    moreover have "forest_ok k (f(i := Some (CORD_EMPTY, l)))"
      using f by (auto simp: forest_ok_def tree_ok_def)
    ultimately show ?thesis
      using z c' s by (auto simp: tree_chars_def split: if_splits)
  qed
qed

lemma add_forest_lower_spec:
  assumes "forest_ok k f" "k \<le> 44" "len < min_len ! k" "i < k" "i = 0 \<or> min_len ! i < len"
    and "\<forall>j < i. tree_chars f j = []" "cord_wf s" "n = length (cord_chars s)"
    and "is_EMPTY s \<or> (\<exists>j < i. min_len ! j \<le> length (cord_chars s) \<and> DEPTH s \<le> j + 3)"
  shows "\<exists>i' f' s'. add_forest_lower cat len i f s n = Ret (i', f', s', length (cord_chars s'))
     \<and> i' < k \<and> forest_ok k f' \<and> (i' = 0 \<or> min_len ! i' < len) \<and> len \<le> min_len ! (i' + 1)
     \<and> (\<forall>j < i'. tree_chars f' j = []) \<and> cord_wf s'
     \<and> (is_EMPTY s' \<or> (\<exists>j < i'. min_len ! j \<le> length (cord_chars s') \<and> DEPTH s' \<le> j + 3))
     \<and> forest_chars f' i' k @ cord_chars s' = forest_chars f i k @ cord_chars s"
  using assms
proof (induction "k - i" arbitrary: i f s n)
  case 0
  then show ?case by simp
next
  case (Suc d)
  note inv = Suc.prems
  show ?case
  proof (cases "min_len ! (i + 1) < len")
    case False
    then show ?thesis
      using inv by (subst add_forest_lower.simps) (auto simp: CORD_MAX_DEPTH_def)
  next
    case True
    have "i + 1 < k"
      using True inv(2,3,4) min_len_less_iff[of "i + 1" k] by simp
    have "DEPTH s \<le> 46"
      using inv(9,2,4) by (cases s) auto
    with add_tree_spec[OF inv(1,4,2,7) _ inv(8)] obtain f' s' n' where
      t: "add_tree cat f i s n = Ret (f', s', n')" "forest_ok k f'" "tree_chars f' i = []"
         "\<forall>j. j \<noteq> i \<longrightarrow> f' j = f j" "cord_wf s'" "n' = length (cord_chars s')"
         "cord_chars s' = tree_chars f i @ cord_chars s"
         "tree_chars f i = [] \<and> s' = s \<or>
          tree_chars f i \<noteq> [] \<and> min_len ! i \<le> length (tree_chars f i)
          \<and> DEPTH s' \<le> (if is_EMPTY s then i + 2 else max (i + 2) (DEPTH s) + 1)"
      by blast
    have low: "\<forall>j < i + 1. tree_chars f' j = []"
      using inv(6) t(3,4) by (auto simp: tree_chars_def less_Suc_eq)
    have dep: "is_EMPTY s' \<or> (\<exists>j < i + 1. min_len ! j \<le> length (cord_chars s') \<and> DEPTH s' \<le> j + 3)"
      using t(8)
    proof
      assume "tree_chars f i = [] \<and> s' = s"
      then show ?thesis using inv(9) by (metis less_SucI Suc_eq_plus1)
    next
      assume a: "tree_chars f i \<noteq> [] \<and> min_len ! i \<le> length (tree_chars f i)
          \<and> DEPTH s' \<le> (if is_EMPTY s then i + 2 else max (i + 2) (DEPTH s) + 1)"
      then have "DEPTH s' \<le> i + 3" "min_len ! i \<le> length (cord_chars s')"
        using inv(9) t(7) by (auto split: if_splits)
      then show ?thesis by auto
    qed
    have "forest_chars f' (i + 1) k = forest_chars f (i + 1) k"
      by (rule forest_chars_cong) (use t(4) in auto)
    then have fc: "forest_chars f' (i + 1) k @ cord_chars s' = forest_chars f i k @ cord_chars s"
      using forest_chars_step[OF inv(4), of f] t(7) by simp
    have d: "d = k - (i + 1)"
      using Suc.hyps(2) by simp
    have "add_forest_lower cat len i f s n = add_forest_lower cat len (i + 1) f' s' n'"
      by (subst add_forest_lower.simps) (use True t(1) \<open>i + 1 < k\<close> inv(2) in \<open>simp add: CORD_MAX_DEPTH_def\<close>)
    moreover note Suc.hyps(1)[OF d t(2) inv(2,3) \<open>i + 1 < k\<close> disjI2[OF True] low t(5,6) dep, unfolded fc]
    ultimately show ?thesis by (simp only:)
  qed
qed

lemma add_forest_upper_spec:
  assumes "forest_ok k f" "k \<le> 44" "length (forest_chars f i k @ cord_chars s) < min_len ! k" "i \<le> k"
    and "\<forall>j < i. tree_chars f j = []" "cord_wf s" "n = length (cord_chars s)"
    and "m \<le> i + 1" "m < 48" "min_len ! m \<le> length (cord_chars s)" "DEPTH s \<le> m + 2"
    and "i = 0 \<or> min_len ! (i - 1) \<le> length (cord_chars s)"
  shows "\<exists>i' f' s'. add_forest_upper cat i f s n = Ret (i', f', s', length (cord_chars s'))
     \<and> i' \<le> k \<and> forest_ok k f' \<and> 0 < i' \<and> min_len ! (i' - 1) \<le> length (cord_chars s')
     \<and> (\<forall>j < i'. tree_chars f' j = []) \<and> cord_wf s' \<and> DEPTH s' \<le> i' - 1 + 2
     \<and> forest_chars f' i' k @ cord_chars s' = forest_chars f i k @ cord_chars s"
  using assms
proof (induction "k - i" arbitrary: i f s n m rule: less_induct)
  case less
  note inv = less.prems
  have m: "m < k"
    using inv(2,3,9,10) min_len_less_iff[of m k] by simp
  show ?case
  proof (cases "min_len ! i \<le> n")
    case False
    then have "i \<noteq> 0"
      using inv(7,9,10) min_len_pos[of m] min_len_values(1) by (intro notI) simp
    moreover have "m < i"
      using False inv(2,4,7,9,10) min_len_less_iff[of m i] by simp
    ultimately show ?thesis
      using False inv by (subst add_forest_upper.simps) (auto simp: CORD_MAX_DEPTH_def)
  next
    case True
    have "i < k"
      using True inv(2,3,4,7) min_len_less_iff[of i k] by simp
    have "DEPTH s \<le> 46"
      using inv(11) m inv(2) by simp
    with add_tree_spec[OF inv(1) \<open>i < k\<close> inv(2,6) _ inv(7)] obtain f' s' n' where
      t: "add_tree cat f i s n = Ret (f', s', n')" "forest_ok k f'" "tree_chars f' i = []"
         "\<forall>j. j \<noteq> i \<longrightarrow> f' j = f j" "cord_wf s'" "n' = length (cord_chars s')"
         "cord_chars s' = tree_chars f i @ cord_chars s"
         "tree_chars f i = [] \<and> s' = s \<or>
          tree_chars f i \<noteq> [] \<and> min_len ! i \<le> length (tree_chars f i)
          \<and> DEPTH s' \<le> (if is_EMPTY s then i + 2 else max (i + 2) (DEPTH s) + 1)"
      by blast
    have low: "\<forall>j < i + 1. tree_chars f' j = []"
      using inv(5) t(3,4) by (auto simp: tree_chars_def less_Suc_eq)
    have "forest_chars f' (i + 1) k = forest_chars f (i + 1) k"
      by (rule forest_chars_cong) (use t(4) in auto)
    then have fc: "forest_chars f' (i + 1) k @ cord_chars s' = forest_chars f i k @ cord_chars s"
      using forest_chars_step[OF \<open>i < k\<close>, of f] t(7) by simp
    have unf: "add_forest_upper cat i f s n = add_forest_upper cat (i + 1) f' s' n'"
      by (subst add_forest_upper.simps) (use True t(1) \<open>i < k\<close> inv(2) in \<open>simp add: CORD_MAX_DEPTH_def\<close>)
    have prev: "i + 1 = 0 \<or> min_len ! (i + 1 - 1) \<le> length (cord_chars s')"
      using True inv(7) t(7) by simp
    obtain m' where m': "m' \<le> i + 1 + 1" "m' < 48" "min_len ! m' \<le> length (cord_chars s')" "DEPTH s' \<le> m' + 2"
      using t(8)
    proof
      assume "tree_chars f i = [] \<and> s' = s"
      then show ?thesis using that[of m] inv(8-11) by simp
    next
      assume a: "tree_chars f i \<noteq> [] \<and> min_len ! i \<le> length (tree_chars f i)
          \<and> DEPTH s' \<le> (if is_EMPTY s then i + 2 else max (i + 2) (DEPTH s) + 1)"
      let ?M = "max i m"
      have "DEPTH s' \<le> ?M + 1 + 2"
        using a inv(11) by (auto split: if_splits)
      moreover have "min_len ! (?M + 1) \<le> min_len ! i + length (cord_chars s)"
        using True inv(2,7,8,10) m \<open>i < k\<close> by (rule grow_index)
      ultimately show ?thesis
        using that[of "?M + 1"] a t(7) inv(2,8) m \<open>i < k\<close> by simp
    qed
    show ?thesis
      unfolding unf fc[symmetric]
      by (rule less.hyps[OF _ t(2) inv(2) _ _ low t(5,6) m' prev])
        (use \<open>i < k\<close> inv(3) fc in simp_all)
  qed
qed

lemma CORD_add_forest_spec:
  assumes f: "forest_ok k f" "0 < k" "k \<le> 44" and x: "cord_wf x" "\<not> is_EMPTY x"
    and len: "len = length (cord_chars x)" "DEPTH x = 0 \<or> DEPTH x < 48 \<and> min_len ! DEPTH x \<le> len"
    and tot: "length (forest_chars f 0 k) + len < min_len ! k"
  shows "\<exists>f'. CORD_add_forest cat f x len = Ret f' \<and> forest_ok k f'
     \<and> forest_chars f' 0 k = forest_chars f 0 k @ cord_chars x"
proof -
  have "len < min_len ! k" using tot by simp
  from add_forest_lower_spec[OF f(1,3) this f(2), of CORD_EMPTY 0] obtain i f1 s where
    l: "add_forest_lower cat len 0 f CORD_EMPTY 0 = Ret (i, f1, s, length (cord_chars s))"
       "i < k" "forest_ok k f1" "i = 0 \<or> min_len ! i < len" "len \<le> min_len ! (i + 1)"
       "\<forall>j < i. tree_chars f1 j = []" "cord_wf s"
       "is_EMPTY s \<or> (\<exists>j < i. min_len ! j \<le> length (cord_chars s) \<and> DEPTH s \<le> j + 3)"
       "forest_chars f1 i k @ cord_chars s = forest_chars f 0 k"
    by auto
  have len0: "0 < len"
    using len(1) x chars_nonempty[OF x(1)] by simp
  have dx: "DEPTH x \<le> i + 1"
    using len(2) l(2,5) f(3) min_len_less_iff[of "i + 1" "DEPTH x"] by (cases "DEPTH x \<le> i + 1") auto
  have ds: "DEPTH s \<le> i + 2" using l(8) by (cases s) auto
  have "max (DEPTH s) (DEPTH x) + 1 < CORD_MAX_DEPTH"
    using dx ds l(2) f(3) by (simp add: CORD_MAX_DEPTH_def)
  from cat_shallow[OF l(7) x(1) this] x(2) obtain z where z: "cat s x = Ret z" "cord_wf z"
     "cord_chars z = cord_chars s @ cord_chars x"
     "DEPTH z \<le> (if is_EMPTY s then DEPTH x else max (DEPTH s) (DEPTH x) + 1)"
    by (simp only: if_False) blast
  have len_i: "min_len ! i \<le> len"
    using l(4) len0 min_len_values(1) by auto
  obtain m where m: "m \<le> i + 1" "m < 48" "min_len ! m \<le> length (cord_chars z)" "DEPTH z \<le> m + 2"
  proof (cases "\<exists>j < i. j + 1 = i \<and> min_len ! j \<le> length (cord_chars s)")
    case True
    then obtain j where "j + 1 = i" "min_len ! j \<le> length (cord_chars s)" by blast
    then have "min_len ! (i + 1) \<le> length (cord_chars z)"
      using z(3) len(1) len_i min_len_add[of j] l(2) f(3) by auto
    moreover have "DEPTH z \<le> i + 1 + 2"
      using z(4) dx ds by (auto split: if_splits)
    ultimately show ?thesis using that[of "i + 1"] l(2) f(3) by simp
  next
    case False
    then have "is_EMPTY s \<or> DEPTH s \<le> i + 1"
      using l(8) by (metis Suc_eq_plus1 add_Suc_right le_trans less_eq_Suc_le nat_less_le add_le_mono1 numeral_3_eq_3 Suc_leI add.right_neutral)
    then have "DEPTH z \<le> i + 2"
      using z(4) dx by (auto split: if_splits)
    then show ?thesis using that[of i] l(2) f(3) z(3) len(1) len_i by simp
  qed
  have prev: "i = 0 \<or> min_len ! (i - 1) \<le> length (cord_chars z)"
    using len_i z(3) len(1) min_len_less[of "i - 1" i] l(2) f(3) by (cases i) auto
  have tot': "length (forest_chars f1 i k @ cord_chars z) < min_len ! k"
    using tot z(3) len(1) arg_cong[OF l(9), of length] by simp
  from add_forest_upper_spec[OF l(3) f(3) tot' less_imp_le[OF l(2)] l(6) z(2) refl m prev]
  obtain i' f2 t where
    u: "add_forest_upper cat i f1 z (length (cord_chars z)) = Ret (i', f2, t, length (cord_chars t))"
       "i' \<le> k" "forest_ok k f2" "0 < i'" "min_len ! (i' - 1) \<le> length (cord_chars t)"
       "\<forall>j < i'. tree_chars f2 j = []" "cord_wf t" "DEPTH t \<le> i' - 1 + 2"
       "forest_chars f2 i' k @ cord_chars t = forest_chars f1 i k @ cord_chars z"
    by blast
  let ?f = "f2(i' - 1 := Some (t, length (cord_chars t)))"
  have "CORD_add_forest cat f x len = Ret ?f"
    using l(1) z(1) u(1,4) z(3) len(1) by (simp add: CORD_add_forest_def)
  moreover have "forest_ok k ?f"
    using u(3,5,7,8) by (auto simp: forest_ok_def tree_ok_def)
  moreover have "forest_chars ?f 0 k = forest_chars f2 i' k @ cord_chars t"
  proof -
    have "forest_chars ?f 0 k = forest_chars ?f (i' - 1) k"
      by (rule forest_chars_low) (use u(2,4,6) in \<open>auto simp: tree_chars_def\<close>)
    also have "\<dots> = forest_chars ?f i' k @ cord_chars t"
      using forest_chars_step[of "i' - 1" k ?f] u(2,4) by (simp add: tree_chars_def)
    also have "forest_chars ?f i' k = forest_chars f2 i' k"
      by (rule forest_chars_cong) (use u(4) in auto)
    finally show ?thesis .
  qed
  moreover have "forest_chars f2 i' k @ cord_chars t = forest_chars f 0 k @ cord_chars x"
    using u(9) z(3) l(9) by (metis append_assoc)
  ultimately show ?thesis by auto
qed

lemma concat_forest_loop_spec:
  assumes "forest_ok k f" "k \<le> 44" "i \<le> k" "cord_wf s" "n = length (cord_chars s)"
    and "expected = length (forest_chars f i k @ cord_chars s)"
    and "is_EMPTY s \<or> (\<exists>j < i. DEPTH s \<le> j + 3)"
  shows "\<exists>z. concat_forest_loop cat f expected i s n = Ret z \<and> cord_wf z \<and> DEPTH z \<le> 46
     \<and> cord_chars z = forest_chars f i k @ cord_chars s"
  using assms
proof (induction "k - i" arbitrary: i s n)
  case 0
  then have "forest_chars f i k = []" by (simp add: forest_chars_def)
  moreover have "DEPTH s \<le> 46"
    using 0 by (cases s) auto
  ultimately show ?case
    using 0 by (subst concat_forest_loop.simps) auto
next
  case (Suc d)
  note inv = Suc.prems
  have "i < k" using Suc.hyps(2) by simp
  have ds: "DEPTH s \<le> 46"
    using inv(2,3,7) by (cases s) auto
  show ?case
  proof (cases "n = expected")
    case True
    then show ?thesis
      using inv ds by (subst concat_forest_loop.simps) auto
  next
    case False
    from add_tree_spec[OF inv(1) \<open>i < k\<close> inv(2,4) ds inv(5)] obtain f' s' n' where
      t: "add_tree cat f i s n = Ret (f', s', n')" "cord_wf s'" "n' = length (cord_chars s')"
         "cord_chars s' = tree_chars f i @ cord_chars s"
         "tree_chars f i = [] \<and> s' = s \<or> DEPTH s' \<le> (if is_EMPTY s then i + 2 else max (i + 2) (DEPTH s) + 1)"
      by blast
    have fc: "forest_chars f (i + 1) k @ cord_chars s' = forest_chars f i k @ cord_chars s"
      using forest_chars_step[OF \<open>i < k\<close>, of f] t(4) by simp
    have dep: "is_EMPTY s' \<or> (\<exists>j < i + 1. DEPTH s' \<le> j + 3)"
      using t(5)
    proof
      assume "DEPTH s' \<le> (if is_EMPTY s then i + 2 else max (i + 2) (DEPTH s) + 1)"
      then have "DEPTH s' \<le> i + 3" using inv(7) by (auto split: if_splits)
      then show ?thesis by auto
    qed (use inv(7) in \<open>auto intro: less_SucI\<close>)
    have "concat_forest_loop cat f expected i s n = concat_forest_loop cat f expected (i + 1) s' n'"
      by (subst concat_forest_loop.simps) (use False t(1) \<open>i < k\<close> inv(2) in \<open>simp add: CORD_MAX_DEPTH_def\<close>)
    moreover have "d = k - (i + 1)" "i + 1 \<le> k" "expected = length (forest_chars f (i + 1) k @ cord_chars s')"
      using Suc.hyps(2) inv(6) fc by simp_all
    ultimately show ?thesis
      using Suc.hyps(1)[of "i + 1" s' n'] inv(1,2) t(2,3) dep fc by simp
  qed
qed

lemma CORD_balance_insert_leaf:
  assumes "forest_ok k f" "0 < k" "k \<le> 44" "cord_wf x" "\<not> is_EMPTY x" "len = length (cord_chars x)"
    and "length (forest_chars f 0 k) + len < min_len ! k" "\<not> IS_CONCATENATION x"
  shows "\<exists>f'. CORD_balance_insert cat x len f = Ret f' \<and> forest_ok k f'
     \<and> forest_chars f' 0 k = forest_chars f 0 k @ cord_chars x"
proof -
  have "CORD_balance_insert cat x len f = CORD_add_forest cat f x len" "DEPTH x = 0"
    using assms(8) by (cases x; simp)+
  then show ?thesis
    using CORD_add_forest_spec[OF assms(1-6) disjI1 assms(7)] by (simp only:)
qed

lemma CORD_balance_insert_spec:
  assumes "forest_ok k f" "0 < k" "k \<le> 44" "cord_wf x" "\<not> is_EMPTY x" "len = length (cord_chars x)"
    and "length (forest_chars f 0 k) + len < min_len ! k"
  shows "\<exists>f'. CORD_balance_insert cat x len f = Ret f' \<and> forest_ok k f'
     \<and> forest_chars f' 0 k = forest_chars f 0 k @ cord_chars x"
  using assms
proof (induction x arbitrary: f len)
  case (Concat d ll n l r)
  note inv = Concat.prems
  show ?case
  proof (cases "d \<ge> CORD_MAX_DEPTH \<or> len < min_len ! d")
    case False
    then show ?thesis
      using CORD_add_forest_spec[OF inv(1-6) _ inv(7)] by (simp add: CORD_MAX_DEPTH_def)
  next
    case True
    have ll: "LEFT_LEN (Concat d ll n l r) = length (cord_chars l)"
      by (rule LEFT_LEN_chars[OF inv(4)])
    from Concat.IH(1)[OF inv(1-3), of "length (cord_chars l)"] inv obtain f1 where
      f1: "CORD_balance_insert cat l (length (cord_chars l)) f = Ret f1" "forest_ok k f1"
        "forest_chars f1 0 k = forest_chars f 0 k @ cord_chars l"
      by auto
    from Concat.IH(2)[OF f1(2) inv(2,3), of "length (cord_chars r)"] inv f1(3) obtain f2 where
      f2: "CORD_balance_insert cat r (length (cord_chars r)) f1 = Ret f2" "forest_ok k f2"
        "forest_chars f2 0 k = forest_chars f1 0 k @ cord_chars r"
      by auto
    have "len - length (cord_chars l) = length (cord_chars r)" using inv(6) by simp
    then have "CORD_balance_insert cat (Concat d ll n l r) len f = Ret f2"
      using True f1(1) f2(1) by (simp only: CORD_balance_insert.simps ll Let_def if_True obind.simps)
    then show ?thesis using f1 f2 by auto
  qed
qed (rule CORD_balance_insert_leaf; simp)+

end

lemma init_forest_loop_spec:
  assumes "i + length ms = 48" "ms = drop i min_len" "i \<le> k" "k < 48" "min_len ! k > max_len"
    and "\<forall>j < k. min_len ! j \<le> max_len"
  shows "init_forest_loop ms i max_len f = Ret (\<lambda>j. if i \<le> j \<and> j \<le> k then Some (CORD_EMPTY, 0) else f j)"
  using assms
proof (induction ms arbitrary: i f)
  case (Cons m ms)
  have m: "m = min_len ! i" "ms = drop (i + 1) min_len"
    using Cons.prems(1,2) by (metis Cons_nth_drop_Suc drop_eq_Nil2 linorder_not_le list.distinct(1) list.inject Suc_eq_plus1)+
  show ?case
  proof (cases "i = k")
    case True
    then show ?thesis using Cons.prems(5) m by (auto simp: Let_def fun_eq_iff)
  next
    case False
    then have "\<not> m > max_len" "i < k" using Cons.prems(3,6) m by (auto simp: not_less)
    then have "init_forest_loop (m # ms) i max_len f = init_forest_loop ms (i + 1) max_len (f(i := Some (CORD_EMPTY, 0)))"
      by (simp only: init_forest_loop.simps Let_def if_False)
    also have "\<dots> = Ret (\<lambda>j. if i + 1 \<le> j \<and> j \<le> k then Some (CORD_EMPTY, 0) else (f(i := Some (CORD_EMPTY, 0))) j)"
      by (rule Cons.IH) (use Cons.prems m(2) \<open>i < k\<close> in simp_all)
    also have "\<dots> = Ret (\<lambda>j. if i \<le> j \<and> j \<le> k then Some (CORD_EMPTY, 0) else f j)"
      using \<open>i < k\<close> by (auto simp: fun_eq_iff)
    finally show ?thesis .
  qed
qed simp

lemma CORD_init_forest_spec:
  assumes "n < min_len ! 44" "0 < n"
  obtains k f where "0 < k" "k \<le> 44" "n < min_len ! k" "CORD_init_forest n = Ret f"
    "forest_ok k f" "forest_chars f 0 k = []"
proof -
  define k where "k = (LEAST k. n < min_len ! k)"
  have k: "n < min_len ! k" "k \<le> 44"
    unfolding k_def using assms by (auto intro: LeastI Least_le)
  have below: "\<forall>j < k. min_len ! j \<le> n"
    unfolding k_def using not_less_Least leI by blast
  have "0 < k" using k(1) assms(2) min_len_values(1) by (cases k) auto
  let ?f = "\<lambda>j. if 0 \<le> j \<and> j \<le> k then Some (CORD_EMPTY, 0) else None"
  have "CORD_init_forest n = Ret ?f"
    unfolding CORD_init_forest_def
    by (rule init_forest_loop_spec) (use k below in \<open>auto simp: min_len_length\<close>)
  moreover have "forest_ok k ?f" by (simp add: forest_ok_def tree_ok_def)
  moreover have "forest_chars ?f 0 k = []" by (rule forest_chars_empty) (simp add: tree_chars_def)
  ultimately show ?thesis using that k \<open>0 < k\<close> by blast
qed

interpretation cord_cat_with: shallow_cat "CORD_cat_with bal" for bal
proof
  fix x y
  assume a: "cord_wf x" "cord_wf y" "max (DEPTH x) (DEPTH y) + 1 < CORD_MAX_DEPTH"
  then have "DEPTH x < CORD_MAX_DEPTH" "DEPTH y < CORD_MAX_DEPTH" by auto
  from joins_cat[OF a(1) this(1) a(2) this(2), of bal] a(3)
  show "\<exists>z. CORD_cat_with bal x y = Ret z \<and> cord_wf z \<and> cord_chars z = cord_chars x @ cord_chars y
      \<and> DEPTH z \<le> (if is_EMPTY x then DEPTH y else if is_EMPTY y then DEPTH x else max (DEPTH x) (DEPTH y) + 1)"
    unfolding joins_def by (auto split: if_splits)
qed

section \<open>Balancing and concatenation\<close>

lemma CORD_balance_fuel_spec:
  assumes "cord_wf x" "length (cord_chars x) < min_len ! 44"
  shows "\<exists>z. CORD_balance_fuel (Suc n) x = Ret z \<and> cord_wf z \<and> DEPTH z \<le> 46 \<and> cord_chars z = cord_chars x"
proof (cases "is_EMPTY x \<or> CORD_IS_STRING x")
  case True
  then show ?thesis
    using assms by (cases x) (auto simp: CORD_MAX_DEPTH_def)
next
  case False
  let ?len = "length (cord_chars x)" and ?cat = "CORD_cat_with (CORD_balance_fuel n)"
  have "0 < ?len"
    using chars_nonempty[OF assms(1)] False by simp
  from CORD_init_forest_spec[OF assms(2) this] obtain k f where
    k: "0 < k" "k \<le> 44" "?len < min_len ! k" and f: "CORD_init_forest ?len = Ret f" "forest_ok k f"
      "forest_chars f 0 k = []"
    by blast
  have "length (forest_chars f 0 k) + ?len < min_len ! k" using k(3) f(3) by simp
  from cord_cat_with.CORD_balance_insert_spec[OF f(2) k(1,2) assms(1) _ refl this, of "CORD_balance_fuel n"]
  obtain f1 where f1: "CORD_balance_insert ?cat x ?len f = Ret f1" "forest_ok k f1"
    "forest_chars f1 0 k = cord_chars x"
    using False f(3) by auto
  have "\<exists>z. concat_forest_loop ?cat f1 ?len 0 CORD_EMPTY 0 = Ret z \<and> cord_wf z \<and> DEPTH z \<le> 46
     \<and> cord_chars z = forest_chars f1 0 k @ cord_chars CORD_EMPTY"
    by (rule cord_cat_with.concat_forest_loop_spec) (use k f1 in simp_all)
  then show ?thesis
    using False f f1 by (simp add: Let_def GEN_LEN_chars[OF assms(1)] CORD_concat_forest_def)
qed

lemma BALANCE_FUEL_Suc: "BALANCE_FUEL = Suc 7"
  by (simp add: BALANCE_FUEL_def)

text \<open>The length from which on balancing may not succeed.\<close>

definition CORD_SAFE_LEN :: nat where "CORD_SAFE_LEN = 1836311903"

lemma joins_CORD_balance:
  assumes "joins CORD_balance x s d res" "length (cord_chars x @ s) < CORD_SAFE_LEN"
  shows "\<exists>z. res = Ret z \<and> cord_ok z \<and> cord_chars z = cord_chars x @ s"
proof -
  from assms obtain z where z: "res = (if DEPTH z < CORD_MAX_DEPTH then Ret z else CORD_balance z)" "cord_wf z"
    "cord_chars z = cord_chars x @ s"
    unfolding joins_def by blast
  then have "length (cord_chars z) < min_len ! 44"
    using assms(2) by (simp add: CORD_SAFE_LEN_def min_len_values)
  with CORD_balance_fuel_spec[OF z(2), of 7] z show ?thesis
    unfolding CORD_balance_def BALANCE_FUEL_Suc cord_ok_def
    by (auto simp: CORD_MAX_DEPTH_def split: if_splits)
qed

lemma CORD_cat_spec:
  assumes "cord_ok x" "cord_ok y" "length (cord_chars x @ cord_chars y) < CORD_SAFE_LEN"
  shows "\<exists>z. CORD_cat x y = Ret z \<and> cord_ok z \<and> cord_chars z = cord_chars x @ cord_chars y"
  unfolding CORD_cat_def
  by (rule joins_CORD_balance[OF joins_cat]) (use assms in \<open>simp_all add: cord_ok_def\<close>)

text \<open>
  C26: \<open>CORD_cat\<close> of two well-formed cords whose total length stays below 1836311903 characters returns
  a well-formed cord of depth below \<open>CORD_MAX_DEPTH\<close> that represents the characters of the first
  followed by those of the second; in particular the rebalancing that a deep result triggers ends.
\<close>

theorem CORD_cat_correct:
  assumes "cord_ok x" "cord_ok y" "CORD_len x + CORD_len y < CORD_SAFE_LEN"
  shows "\<exists>z. CORD_cat x y = Ret z \<and> cord_ok z \<and> cord_chars z = cord_chars x @ cord_chars y
    \<and> CORD_len z = CORD_len x + CORD_len y"
  using CORD_cat_spec[OF assms(1,2)] assms by (auto simp: cord_ok_def CORD_len_chars)

theorem CORD_cat_correct_witness:
  "\<exists>z. CORD_cat (Func 40 (\<lambda>i. CHR ''a'')) (CStr ''b'') = Ret z \<and> cord_ok z \<and> CORD_len z = 41"
proof -
  have "cord_ok (Func 40 (\<lambda>i. CHR ''a''))" "cord_ok (CStr ''b'')"
    by (simp_all add: cord_ok_def CORD_MAX_DEPTH_def NUL_def)
  from CORD_cat_correct[OF this]
  have "\<exists>z. CORD_cat (Func 40 (\<lambda>i. CHR ''a'')) (CStr ''b'') = Ret z \<and> cord_ok z \<and> CORD_len z = 40 + 1"
    unfolding CORD_len_chars[OF conjunct1[OF \<open>cord_ok (CStr ''b'')\<close>[unfolded cord_ok_def]]]
    by (auto simp: CORD_SAFE_LEN_def CORD_len_def[of "Func 40 (\<lambda>i. CHR ''a'')"])
  then show ?thesis by simp
qed

lemma CORD_cat_char_star_spec:
  assumes "cord_ok x" "NUL \<notin> set y" "len_y \<le> length y" "length (cord_chars x) + len_y < CORD_SAFE_LEN"
  shows "\<exists>z. CORD_cat_char_star x y len_y = Ret z \<and> cord_ok z \<and> cord_chars z = cord_chars x @ take len_y y"
  unfolding CORD_cat_char_star_def
  by (rule joins_CORD_balance[OF joins_cat_char_star]) (use assms in \<open>simp_all add: cord_ok_def\<close>)

lemma const_chars: "map (node_fn (Func n (\<lambda>i. c))) [0 ..< n] = replicate n c"
  by (rule nth_equalityI) simp_all

text \<open>
  C27: \<open>CORD_balance\<close> ends with a well-formed cord of the same characters whose depth is at most 46,
  so below \<open>CORD_MAX_DEPTH\<close>, for every well-formed cord, however deep, of fewer than 1836311903
  characters; no uninitialised or out-of-range forest entry is read on the way. It does so for every
  bound \<open>n\<close> on the nesting of rebalancings, also for \<open>n = 1\<close>, where a concatenation that called for
  another rebalancing would be stuck: none does.
\<close>

theorem CORD_balance_correct:
  assumes "cord_wf x" "CORD_len x < CORD_SAFE_LEN"
  shows "(\<forall>n \<ge> 1. \<exists>z. CORD_balance_fuel n x = Ret z \<and> cord_wf z \<and> cord_chars z = cord_chars x \<and> DEPTH z \<le> 46)
    \<and> (\<exists>z. CORD_balance x = Ret z \<and> cord_wf z \<and> cord_chars z = cord_chars x \<and> DEPTH z \<le> 46)"
proof -
  have "length (cord_chars x) < min_len ! 44"
    using assms by (simp add: CORD_SAFE_LEN_def CORD_len_chars min_len_values)
  note spec = CORD_balance_fuel_spec[OF assms(1) this]
  have "\<exists>z. CORD_balance_fuel n x = Ret z \<and> cord_wf z \<and> cord_chars z = cord_chars x \<and> DEPTH z \<le> 46" if "n \<ge> 1" for n
    using spec[of "n - 1"] that by auto
  then show ?thesis by (simp add: CORD_balance_def BALANCE_FUEL_def)
qed

theorem CORD_balance_correct_witness:
  "(\<exists>z. CORD_balance_fuel 1 (Concat 1 40 41 (Func 40 (\<lambda>i. CHR ''a'')) (CStr ''b'')) = Ret z
     \<and> cord_chars z = replicate 40 CHR ''a'' @ ''b'' \<and> DEPTH z \<le> 46)
   \<and> (\<exists>z. CORD_balance (Concat 1 40 41 (Func 40 (\<lambda>i. CHR ''a'')) (CStr ''b'')) = Ret z
     \<and> cord_chars z = replicate 40 CHR ''a'' @ ''b'' \<and> DEPTH z \<le> 46)"
proof -
  let ?x = "Concat 1 40 41 (Func 40 (\<lambda>i. CHR ''a'')) (CStr ''b'')"
  have x: "cord_wf ?x" "CORD_len ?x < CORD_SAFE_LEN" "cord_chars ?x = replicate 40 CHR ''a'' @ ''b''"
    by (simp_all add: NUL_def CORD_SAFE_LEN_def CORD_len_def MAX_LEFT_LEN_def const_chars)
  from CORD_balance_correct[OF x(1,2)] show ?thesis unfolding x(3) by blast
qed

lemma CORD_from_fn_inner_spec:
  assumes "cord_wf node" "cord_chars node = map fn [0 ..< len]" "DEPTH node = 0" "0 < len"
  shows "cord_ok (CORD_from_fn_inner fn node len) \<and> cord_chars (CORD_from_fn_inner fn node len) = map fn [0 ..< len]"
proof -
  let ?buf = "takeWhile (\<lambda>c. c \<noteq> NUL) (map fn [0 ..< len])"
  have eq: "?buf = map fn [0 ..< len]" if "length ?buf = len"
    using that by (metis append_Nil2 append_eq_append_conv diff_zero length_map length_upt takeWhile_dropWhile_id self_append_conv)
  have "NUL \<notin> set ?buf" using set_takeWhileD by fastforce
  then show ?thesis
    using assms eq
    by (auto simp: CORD_from_fn_inner_def Let_def cord_ok_def copy_char_substr_def CORD_MAX_DEPTH_def)
qed

lemma CORD_from_fn_spec: "cord_ok (CORD_from_fn fn len) \<and> cord_chars (CORD_from_fn fn len) = map fn [0 ..< len]"
proof (cases "len = 0")
  case True
  then show ?thesis by (simp add: CORD_from_fn_def CORD_from_fn_inner_def cord_ok_def CORD_MAX_DEPTH_def)
next
  case False
  then show ?thesis
    unfolding CORD_from_fn_def by (intro CORD_from_fn_inner_spec) simp_all
qed

lemma CORD_from_char_star_spec:
  "NUL \<notin> set s \<Longrightarrow> cord_ok (CORD_from_char_star s) \<and> cord_chars (CORD_from_char_star s) = s"
  by (auto simp: CORD_from_char_star_def Let_def cord_ok_def copy_char_substr_def CORD_MAX_DEPTH_def)

end
