(* ===== verification/Cord_Access.thy ===== *)
theory Cord_Access
  imports Cord_Rep
begin

text \<open>
  Substrings and iteration of \<^verbatim>\<open>cord/cordbscs.c\<close>. A client function with its \<open>client_data\<close> is a
  function of a character (or of a string, for the batched form) and a state to a flag that asks
  to stop and the next state.
\<close>

section \<open>Substrings\<close>

definition size_add :: "nat \<Rightarrow> nat \<Rightarrow> nat" where
  "size_add a b = (a + b) mod 2 ^ 64"

fun CORD_index_access_fn :: "nat \<Rightarrow> string \<Rightarrow> nat \<Rightarrow> char" where
  "CORD_index_access_fn i sa_cord sa_index = sa_cord ! (i + sa_index)"

fun CORD_apply_access_fn :: "nat \<Rightarrow> CORD \<Rightarrow> nat \<Rightarrow> char" where
  "CORD_apply_access_fn i sa_cord sa_index = node_fn sa_cord (i + sa_index)"

text \<open>\<open>CORD_substr_closure\<close>, for each of the two access functions.\<close>

definition substr_closure_index :: "string \<Rightarrow> nat \<Rightarrow> nat \<Rightarrow> CORD" where
  "substr_closure_index s i n = CORD_from_fn_inner (\<lambda>j. CORD_index_access_fn j s i) (SubstrIndex n s i) n"

definition substr_closure_apply :: "CORD \<Rightarrow> nat \<Rightarrow> nat \<Rightarrow> CORD" where
  "substr_closure_apply x i n = CORD_from_fn_inner (\<lambda>j. CORD_apply_access_fn j x i) (SubstrApply n x i) n"

definition substr_function :: "CORD \<Rightarrow> nat \<Rightarrow> nat \<Rightarrow> CORD" where
  "substr_function x i n =
     (if n > SUBSTR_LIMIT then
        (case x of
           SubstrIndex len sa_cord sa_index \<Rightarrow> substr_closure_index sa_cord (i + sa_index) n
         | SubstrApply len sa_cord sa_index \<Rightarrow> substr_closure_apply sa_cord (i + sa_index) n
         | _ \<Rightarrow> substr_closure_apply x i n)
      else
        let buf = takeWhile (\<lambda>c. c \<noteq> NUL) (map (\<lambda>j. node_fn x (i + j)) [0 ..< n])
        in if length buf < n then substr_closure_apply x i n else CStr (copy_char_substr buf n))"

fun CORD_substr_checked :: "CORD \<Rightarrow> nat \<Rightarrow> nat \<Rightarrow> CORD outcome" where
  "CORD_substr_checked CORD_EMPTY i n = Stuck"
| "CORD_substr_checked (CStr s) i n =
     (if n > SUBSTR_LIMIT then Ret (substr_closure_index s i n)
      else Ret (CStr (copy_char_substr (drop i s) n)))"
| "CORD_substr_checked (Concat d ll len l r) i n =
     (let left_len = LEFT_LEN (Concat d ll len l r); right_len = len - left_len
      in if i \<ge> left_len then
           if n = right_len then Ret r else CORD_substr_checked r (i - left_len) n
         else if size_add i n \<le> left_len then
           if n = left_len then Ret l else CORD_substr_checked l i n
         else
           let left_part_len = left_len - i
           in obind (if i = 0 then Ret l else CORD_substr_checked l i left_part_len) (\<lambda>left_part.
              obind (if size_add i n = right_len + left_len then Ret r
                     else CORD_substr_checked r 0 (n - left_part_len)) (\<lambda>right_part.
              CORD_cat left_part right_part)))"
| "CORD_substr_checked x i n = Ret (substr_function x i n)"

definition CORD_substr :: "CORD \<Rightarrow> nat \<Rightarrow> nat \<Rightarrow> CORD outcome" where
  "CORD_substr x i n =
     (let len = CORD_len x
      in if i \<ge> len \<or> n = 0 then Ret CORD_EMPTY
         else CORD_substr_checked x i (if size_add i n > len then len - i else n))"

section \<open>Iteration\<close>

type_synonym 's iter_fn = "char \<Rightarrow> 's \<Rightarrow> bool \<times> 's"
type_synonym 's batched_iter_fn = "string \<Rightarrow> 's \<Rightarrow> bool \<times> 's"

text \<open>The two loops: over the characters of a string up to its end, and over indices.\<close>

fun iter_chars :: "'s iter_fn \<Rightarrow> string \<Rightarrow> 's \<Rightarrow> bool \<times> 's" where
  "iter_chars f1 [] s = (False, s)"
| "iter_chars f1 (c # cs) s = (case f1 c s of (b, s) \<Rightarrow> if b then (True, s) else iter_chars f1 cs s)"

fun iter_fn_loop :: "'s iter_fn \<Rightarrow> (nat \<Rightarrow> char) \<Rightarrow> nat \<Rightarrow> nat \<Rightarrow> 's \<Rightarrow> bool \<times> 's" where
  "iter_fn_loop f1 fn j 0 s = (False, s)"
| "iter_fn_loop f1 fn j (Suc n) s =
     (case f1 (fn j) s of (b, s) \<Rightarrow> if b then (True, s) else iter_fn_loop f1 fn (j + 1) n s)"

fun riter_fn_loop :: "'s iter_fn \<Rightarrow> (nat \<Rightarrow> char) \<Rightarrow> nat \<Rightarrow> 's \<Rightarrow> bool \<times> 's" where
  "riter_fn_loop f1 fn 0 s = f1 (fn 0) s"
| "riter_fn_loop f1 fn (Suc j) s =
     (case f1 (fn (Suc j)) s of (b, s) \<Rightarrow> if b then (True, s) else riter_fn_loop f1 fn j s)"

fun CORD_iter5 :: "CORD \<Rightarrow> nat \<Rightarrow> 's iter_fn \<Rightarrow> 's batched_iter_fn option \<Rightarrow> 's \<Rightarrow> (bool \<times> 's) outcome" where
  "CORD_iter5 CORD_EMPTY i f1 f2 s = Ret (False, s)"
| "CORD_iter5 (CStr x) i f1 f2 s =
     (if i = length x then Abort ''2nd arg to CORD_iter5 too big''
      else if i > length x then Stuck
      else case f2 of Some f2 \<Rightarrow> Ret (f2 (drop i x) s) | None \<Rightarrow> Ret (iter_chars f1 (drop i x) s))"
| "CORD_iter5 (Concat d ll len l r) i f1 f2 s =
     (let left_len = LEFT_LEN (Concat d ll len l r)
      in if i > 0 \<and> i \<ge> left_len then CORD_iter5 r (i - left_len) f1 f2 s
         else obind (CORD_iter5 l i f1 f2 s) (\<lambda>(b, s).
                if b then Ret (True, s) else CORD_iter5 r 0 f1 f2 s))"
| "CORD_iter5 x i f1 f2 s = Ret (iter_fn_loop f1 (node_fn x) i (GEN_LEN x - i) s)"

definition CORD_iter :: "CORD \<Rightarrow> 's iter_fn \<Rightarrow> 's \<Rightarrow> (bool \<times> 's) outcome" where
  "CORD_iter x f1 s = CORD_iter5 x 0 f1 None s"

fun CORD_riter4 :: "CORD \<Rightarrow> nat \<Rightarrow> 's iter_fn \<Rightarrow> 's \<Rightarrow> (bool \<times> 's) outcome" where
  "CORD_riter4 CORD_EMPTY i f1 s = Ret (False, s)"
| "CORD_riter4 (CStr x) i f1 s =
     (if i = length x then Abort ''2nd arg to CORD_riter4 too big''
      else if i > length x then Stuck
      else Ret (riter_fn_loop f1 (\<lambda>j. x ! j) i s))"
| "CORD_riter4 (Concat d ll len l r) i f1 s =
     (let left_len = LEFT_LEN (Concat d ll len l r)
      in if i \<ge> left_len then
           obind (CORD_riter4 r (i - left_len) f1 s) (\<lambda>(b, s).
             if b then Ret (True, s) else CORD_riter4 l (left_len - 1) f1 s)
         else CORD_riter4 l i f1 s)"
| "CORD_riter4 x i f1 s = Ret (riter_fn_loop f1 (node_fn x) i s)"

definition CORD_riter :: "CORD \<Rightarrow> 's iter_fn \<Rightarrow> 's \<Rightarrow> (bool \<times> 's) outcome" where
  "CORD_riter x f1 s =
     (let len = CORD_len x in if len = 0 then Ret (False, s) else CORD_riter4 x (len - 1) f1 s)"

section \<open>Substrings are sublists\<close>

declare LEFT_LEN.simps(1) [simp del] CORD_substr_checked.simps(3) [simp del]

lemma size_add_small: "a + b < 2 ^ 64 \<Longrightarrow> size_add a b = a + b"
  by (simp add: size_add_def)

lemma substr_closure_index_spec:
  assumes "0 < n" "i + n \<le> length s" "NUL \<notin> set s"
  shows "cord_ok (substr_closure_index s i n) \<and> cord_chars (substr_closure_index s i n) = take n (drop i s)"
proof -
  have "map (\<lambda>j. CORD_index_access_fn j s i) [0 ..< n] = take n (drop i s)"
    "cord_chars (SubstrIndex n s i) = take n (drop i s)"
    using assms by (intro nth_equalityI; simp add: add.commute)+
  then show ?thesis
    using CORD_from_fn_inner_spec[of "SubstrIndex n s i" "\<lambda>j. CORD_index_access_fn j s i" n] assms
    by (simp add: substr_closure_index_def)
qed

lemma function_chars_drop:
  assumes "IS_FUNCTION x" "i + n \<le> GEN_LEN x"
  shows "map (\<lambda>j. node_fn x (i + j)) [0 ..< n] = take n (drop i (cord_chars x))"
  using assms by (intro nth_equalityI) (simp_all add: function_chars)

lemma substr_closure_apply_spec:
  assumes "0 < n" "i + n \<le> GEN_LEN x" "IS_FUNCTION x" "cord_wf x"
  shows "cord_ok (substr_closure_apply x i n)
    \<and> cord_chars (substr_closure_apply x i n) = take n (drop i (cord_chars x))"
proof -
  have "map (\<lambda>j. CORD_apply_access_fn j x i) [0 ..< n] = take n (drop i (cord_chars x))"
    "cord_chars (SubstrApply n x i) = take n (drop i (cord_chars x))"
    unfolding function_chars_drop[OF assms(3,2), symmetric] by (auto simp: add.commute)
  then show ?thesis
    using CORD_from_fn_inner_spec[of "SubstrApply n x i" "\<lambda>j. CORD_apply_access_fn j x i" n] assms
    by (simp add: substr_closure_apply_def)
qed

lemma substr_function_spec:
  assumes "0 < n" "i + n \<le> GEN_LEN x" "IS_FUNCTION x" "cord_wf x"
  shows "cord_ok (substr_function x i n) \<and> cord_chars (substr_function x i n) = take n (drop i (cord_chars x))"
proof (cases "n > SUBSTR_LIMIT")
  case True
  show ?thesis
  proof (cases x)
    case (SubstrIndex len s k)
    then have "take n (drop (i + k) s) = take n (drop i (cord_chars x))"
      using assms by (intro nth_equalityI) (auto simp: ac_simps)
    then show ?thesis
      using substr_closure_index_spec[of n "i + k" s] SubstrIndex assms True by (simp add: substr_function_def)
  next
    case (SubstrApply len c k)
    then have "take n (drop (i + k) (cord_chars c)) = take n (drop i (cord_chars x))"
      using assms by (intro nth_equalityI) (auto simp: function_chars ac_simps)
    then show ?thesis
      using substr_closure_apply_spec[of n "i + k" c] SubstrApply assms True by (simp add: substr_function_def)
  qed (use substr_closure_apply_spec[OF assms] True assms(3) in \<open>simp_all add: substr_function_def\<close>)
next
  case False
  let ?m = "map (\<lambda>j. node_fn x (i + j)) [0 ..< n]"
  let ?buf = "takeWhile (\<lambda>c. c \<noteq> NUL) ?m"
  have m: "?m = take n (drop i (cord_chars x))"
    by (rule function_chars_drop[OF assms(3,2)])
  have len: "length ?buf \<le> n" using length_takeWhile_le[of _ ?m] by simp
  show ?thesis
  proof (cases "length ?buf < n")
    case True
    then show ?thesis
      using False substr_closure_apply_spec[OF assms] by (simp add: substr_function_def Let_def)
  next
    case long: False
    with len have "length ?buf = length ?m" by simp
    then have b: "?buf = ?m"
      by (metis append_eq_append_conv append_Nil2 takeWhile_dropWhile_id)
    then have "NUL \<notin> set ?m" by (metis (mono_tags, lifting) set_takeWhileD)
    moreover have "substr_function x i n = CStr ?m"
      unfolding substr_function_def Let_def copy_char_substr_def b using False by simp
    moreover have "?m \<noteq> []" using assms(1) by simp
    ultimately show ?thesis
      unfolding m by (simp add: cord_ok_def CORD_MAX_DEPTH_def)
  qed
qed

lemma cord_ok_parts:
  assumes "cord_ok (Concat d ll len l r)"
  shows "cord_ok l" "cord_ok r" "cord_wf (Concat d ll len l r)" "len = length (cord_chars l) + length (cord_chars r)"
    "LEFT_LEN (Concat d ll len l r) = length (cord_chars l)" "0 < length (cord_chars l)"
    "0 < length (cord_chars r)"
  using assms LEFT_LEN_chars chars_nonempty[of l] chars_nonempty[of r] by (auto simp: cord_ok_def)

lemma CORD_substr_checked_spec:
  assumes "cord_ok x" "length (cord_chars x) < CORD_SAFE_LEN" "0 < n" "i + n \<le> length (cord_chars x)"
  shows "\<exists>z. CORD_substr_checked x i n = Ret z \<and> cord_ok z \<and> cord_chars z = take n (drop i (cord_chars x))"
  using assms
proof (induction x arbitrary: i n)
  case (CStr s)
  then show ?case
    using substr_closure_index_spec[of n i s]
    by (auto simp: cord_ok_def copy_char_substr_def CORD_MAX_DEPTH_def dest!: in_set_takeD in_set_dropD)
next
  case (Concat d ll len l r)
  note p = cord_ok_parts[OF Concat.prems(1)]
  let ?L = "length (cord_chars l)" and ?R = "length (cord_chars r)"
  have small: "?L < CORD_SAFE_LEN" "?R < CORD_SAFE_LEN" and bound: "i + n \<le> ?L + ?R"
    using Concat.prems(2,4) by simp_all
  have add: "size_add i n = i + n"
    by (rule size_add_small) (use Concat.prems(2) bound in \<open>simp add: CORD_SAFE_LEN_def\<close>)
  have right_len: "len - ?L = ?R" using p(4) by simp
  note unf = CORD_substr_checked.simps(3)[of d ll len l r i n, unfolded p(5) Let_def add right_len]
  consider (right) "?L \<le> i" | (left) "i < ?L" "i + n \<le> ?L" | (both) "i < ?L" "?L < i + n" by linarith
  then show ?case
  proof cases
    case right
    then show ?thesis
      using Concat.IH(2)[OF p(2) small(2) Concat.prems(3), of "i - ?L"] bound p(2) unf
      by (cases "n = ?R") auto
  next
    case left
    then show ?thesis
      using Concat.IH(1)[OF p(1) small(1) Concat.prems(3), of i] p(1) unf
      by (cases "n = ?L") auto
  next
    case both
    obtain a where a: "(if i = 0 then Ret l else CORD_substr_checked l i (?L - i)) = Ret a" "cord_ok a"
      "cord_chars a = drop i (cord_chars l)"
      using Concat.IH(1)[OF p(1) small(1), of "?L - i" i] both p(1) by (cases "i = 0") auto
    obtain b where b: "(if i + n = ?R + ?L then Ret r else CORD_substr_checked r 0 (n - (?L - i))) = Ret b"
      "cord_ok b" "cord_chars b = take (n - (?L - i)) (cord_chars r)"
    proof (cases "i + n = ?R + ?L")
      case True
      then show ?thesis using that[of r] p(2) both by simp
    next
      case False
      have "0 < n - (?L - i)" "0 + (n - (?L - i)) \<le> ?R" using both bound by simp_all
      from Concat.IH(2)[OF p(2) small(2) this] False that show ?thesis by auto
    qed
    have eq: "cord_chars a @ cord_chars b = take n (drop i (cord_chars (Concat d ll len l r)))"
      using a(3) b(3) both by simp
    have "length (cord_chars a @ cord_chars b) < CORD_SAFE_LEN"
      unfolding eq using Concat.prems(2) by simp
    then obtain z where "CORD_cat a b = Ret z" "cord_ok z" "cord_chars z = cord_chars a @ cord_chars b"
      using CORD_cat_spec[OF a(2) b(2)] by auto
    moreover have "CORD_substr_checked (Concat d ll len l r) i n = CORD_cat a b"
      using both a(1) b(1) unf by simp
    ultimately show ?thesis unfolding eq by simp
  qed
qed (use substr_function_spec in \<open>auto simp: cord_ok_def\<close>)

lemma CORD_substr_spec:
  assumes "cord_ok x" "length (cord_chars x) < CORD_SAFE_LEN" "i + n < 2 ^ 64"
  shows "\<exists>z. CORD_substr x i n = Ret z \<and> cord_ok z \<and> cord_chars z = take n (drop i (cord_chars x))"
proof (cases "i \<ge> length (cord_chars x) \<or> n = 0")
  case True
  then show ?thesis
    using assms(1) by (auto simp: CORD_substr_def cord_ok_def CORD_len_chars CORD_MAX_DEPTH_def)
next
  case False
  let ?n = "if i + n > length (cord_chars x) then length (cord_chars x) - i else n"
  have "CORD_substr x i n = CORD_substr_checked x i ?n"
    using False assms by (auto simp: CORD_substr_def cord_ok_def CORD_len_chars size_add_small)
  moreover have "take ?n (drop i (cord_chars x)) = take n (drop i (cord_chars x))" by simp
  ultimately show ?thesis
    using CORD_substr_checked_spec[OF assms(1,2), of ?n i] False by auto
qed

text \<open>
  C28: \<open>CORD_substr\<close> returns a well-formed cord with the at most \<open>n\<close> characters of \<open>x\<close> from index \<open>i\<close>
  on, through all node kinds, as long as \<open>i + n\<close> does not overflow a \<open>size_t\<close>.
\<close>

theorem CORD_substr_correct:
  assumes "cord_ok x" "CORD_len x < CORD_SAFE_LEN" "i + n < 2 ^ 64"
  shows "\<exists>z. CORD_substr x i n = Ret z \<and> cord_ok z \<and> cord_chars z = take n (drop i (cord_chars x))
    \<and> CORD_len z = min n (CORD_len x - i)"
  using CORD_substr_spec[OF assms(1) _ assms(3)] assms by (auto simp: cord_ok_def CORD_len_chars)

theorem CORD_substr_correct_witness:
  "\<exists>z. CORD_substr (Concat 1 3 5 (CStr ''abc'') (CStr ''de'')) 1 3 = Ret z \<and> cord_chars z = ''bcd''"
  using CORD_substr_correct[of "Concat 1 3 5 (CStr ''abc'') (CStr ''de'')" 1 3]
  by (auto simp: cord_ok_def CORD_MAX_DEPTH_def NUL_def CORD_SAFE_LEN_def CORD_len_def MAX_LEFT_LEN_def)

text \<open>
  When \<open>i + n\<close> overflows, the range check of \<open>CORD_substr\<close> is passed unclipped: the tail of a
  four-character string requested with the largest \<open>size_t\<close> as length is a cord whose length field is
  that number instead of two.
\<close>

lemma CORD_substr_overflow:
  "CORD_substr (CStr ''abcd'') 2 (2 ^ 64 - 1) = Ret (SubstrIndex (2 ^ 64 - 1) ''abcd'' 2)"
  by (simp add: CORD_substr_def CORD_len_def size_add_def Let_def substr_closure_index_def
      CORD_from_fn_inner_def SUBSTR_LIMIT_def SHORT_LIMIT_def sizeof_CordRep_def)

section \<open>Iteration visits the characters in order\<close>

lemma iter_chars_append:
  "iter_chars f (xs @ ys) s = (case iter_chars f xs s of (b, s) \<Rightarrow> if b then (True, s) else iter_chars f ys s)"
  by (induction xs arbitrary: s) (auto split: prod.split)

lemma iter_fn_loop_chars: "iter_fn_loop f fn j n s = iter_chars f (map fn [j ..< j + n]) s"
  by (induction n arbitrary: j s) (simp_all add: upt_conv_Cons del: upt_Suc split: prod.split)

lemma riter_fn_loop_chars: "riter_fn_loop f fn j s = iter_chars f (rev (map fn [0 ..< Suc j])) s"
  by (induction j arbitrary: s) (auto split: prod.split)

text \<open>
  Client functions that simulate a function \<open>h\<close> on single characters under a relation between their
  states; a batched function gets a non-empty string without NUL.
\<close>

definition step_rel :: "('s \<Rightarrow> 'a \<Rightarrow> bool) \<Rightarrow> bool \<times> 's \<Rightarrow> bool \<times> 'a \<Rightarrow> bool" where
  "step_rel R x y \<longleftrightarrow> fst x = fst y \<and> R (snd x) (snd y)"

definition simulates :: "('s \<Rightarrow> 'a \<Rightarrow> bool) \<Rightarrow> 's iter_fn \<Rightarrow> 's batched_iter_fn option \<Rightarrow> 'a iter_fn \<Rightarrow> bool" where
  "simulates R f1 f2 h \<longleftrightarrow> (\<forall>c s a. R s a \<longrightarrow> step_rel R (f1 c s) (h c a))
     \<and> (\<forall>g. f2 = Some g \<longrightarrow> (\<forall>cs s a. cs \<noteq> [] \<longrightarrow> NUL \<notin> set cs \<longrightarrow> R s a \<longrightarrow> step_rel R (g cs s) (iter_chars h cs a)))"

lemma iter_chars_simulates:
  "simulates R f1 f2 h \<Longrightarrow> R s a \<Longrightarrow> step_rel R (iter_chars f1 cs s) (iter_chars h cs a)"
proof (induction cs arbitrary: s a)
  case (Cons c cs)
  have "step_rel R (f1 c s) (h c a)" using Cons.prems by (simp add: simulates_def)
  then show ?case
    using Cons.IH[OF Cons.prems(1)] by (auto simp: step_rel_def split: prod.splits)
qed (simp add: step_rel_def)

lemma CORD_iter5_simulates:
  assumes "cord_ok x" "simulates R f1 f2 h" "i < length (cord_chars x)" "R s a"
  shows "\<exists>r. CORD_iter5 x i f1 f2 s = Ret r \<and> step_rel R r (iter_chars h (drop i (cord_chars x)) a)"
  using assms
proof (induction x arbitrary: i s a)
  case (CStr c)
  then have c: "NUL \<notin> set (drop i c)" "drop i c \<noteq> []" by (auto simp: cord_ok_def dest: in_set_dropD)
  with CStr iter_chars_simulates[OF CStr.prems(2,4)] show ?case
    by (cases f2) (auto simp: simulates_def)
next
  case (Concat d ll len l r)
  note p = cord_ok_parts[OF Concat.prems(1)]
  show ?case
  proof (cases "length (cord_chars l) \<le> i")
    case True
    then have "i - length (cord_chars l) < length (cord_chars r)" "0 < i"
      using Concat.prems(3) less_le_trans[OF p(6), of i] by simp_all
    then show ?thesis
      using True Concat.IH(2)[OF p(2) Concat.prems(2), of "i - length (cord_chars l)" s a] Concat.prems(4) p(5) by simp
  next
    case False
    then have "i < length (cord_chars l)" by simp
    from Concat.IH(1)[OF p(1) Concat.prems(2) this Concat.prems(4)] obtain b s' a' where
      l: "CORD_iter5 l i f1 f2 s = Ret (b, s')" "iter_chars h (drop i (cord_chars l)) a = (b, a')" "R s' a'"
      by (auto simp: step_rel_def prod_eq_iff)
    show ?thesis
    proof (cases b)
      case True
      then show ?thesis
        using False l by (simp add: p(5) iter_chars_append step_rel_def)
    next
      case nb: False
      then show ?thesis
        using False l Concat.IH(2)[OF p(2) Concat.prems(2) p(7) l(3)] by (simp add: p(5) iter_chars_append)
    qed
  qed
qed (auto simp: iter_fn_loop_chars drop_map iter_chars_simulates)

text \<open>What a batched function usually does: the same as the function for single characters.\<close>

definition batched :: "'s iter_fn \<Rightarrow> 's batched_iter_fn option \<Rightarrow> bool" where
  "batched f1 f2 \<longleftrightarrow> (\<forall>g. f2 = Some g \<longrightarrow> (\<forall>cs s. cs \<noteq> [] \<longrightarrow> NUL \<notin> set cs \<longrightarrow> g cs s = iter_chars f1 cs s))"

lemma CORD_iter5_spec:
  assumes "cord_ok x" "batched f1 f2" "i < length (cord_chars x)"
  shows "CORD_iter5 x i f1 f2 s = Ret (iter_chars f1 (drop i (cord_chars x)) s)"
proof -
  have "simulates (=) f1 f2 f1" using assms(2) by (simp add: simulates_def batched_def step_rel_def)
  from CORD_iter5_simulates[OF assms(1) this assms(3) refl] show ?thesis
    by (auto simp: step_rel_def prod_eq_iff)
qed

lemma CORD_riter4_spec:
  assumes "cord_ok x" "i < length (cord_chars x)"
  shows "CORD_riter4 x i f1 s = Ret (iter_chars f1 (rev (take (i + 1) (cord_chars x))) s)"
  using assms
proof (induction x arbitrary: i s)
  case (CStr c)
  then have "map ((!) c) [0 ..< Suc i] = take (Suc i) c"
    by (intro nth_equalityI) (auto simp del: upt_Suc)
  with CStr show ?case by (simp add: riter_fn_loop_chars)
next
  case (Concat d ll len l r)
  note p = cord_ok_parts[OF Concat.prems(1)]
  let ?L = "length (cord_chars l)"
  show ?case
  proof (cases "?L \<le> i")
    case True
    have r: "i - ?L < length (cord_chars r)" using True Concat.prems(2) by simp
    have l: "?L - 1 < ?L" "take (?L - 1 + 1) (cord_chars l) = cord_chars l" using p(6) by simp_all
    have t: "rev (take (i + 1) (cord_chars (Concat d ll len l r)))
        = rev (take (i - ?L + 1) (cord_chars r)) @ rev (cord_chars l)"
      using True by (simp add: Suc_diff_le)
    show ?thesis
      unfolding t iter_chars_append using True Concat.IH(2)[OF p(2) r] Concat.IH(1)[OF p(1) l(1)] l(2)
      by (simp add: p(5) split: prod.split)
  next
    case False
    then show ?thesis
      using Concat.IH(1)[OF p(1), of i s] by (simp add: p(5))
  qed
qed (simp_all add: riter_fn_loop_chars take_map)

text \<open>
  C29: Iteration visits the characters in order, whatever the shape of the cord: \<open>CORD_iter5\<close> from a valid
  index calls the client function on the characters from there to the end until it asks to stop
  (with a batched function that does the same on each string the result is the same), and
  \<open>CORD_riter4\<close> on the characters from there down to the first one.
\<close>

theorem CORD_iter_correct:
  assumes "cord_ok x" "batched f1 f2" "i < CORD_len x"
  shows "CORD_iter5 x i f1 f2 s = Ret (iter_chars f1 (drop i (cord_chars x)) s)
    \<and> CORD_riter4 x i f1 s = Ret (iter_chars f1 (rev (take (i + 1) (cord_chars x))) s)"
proof -
  have "i < length (cord_chars x)" using assms by (simp add: cord_ok_def CORD_len_chars)
  then show ?thesis by (intro conjI CORD_iter5_spec[OF assms(1,2)] CORD_riter4_spec[OF assms(1)])
qed

theorem CORD_iter_correct_witness:
  "CORD_iter5 (Concat 1 3 5 (CStr ''abc'') (CStr ''de'')) 1 (\<lambda>c s. (c = CHR ''d'', c # s)) None [] = Ret (True, ''dcb'')"
  using CORD_iter_correct[of "Concat 1 3 5 (CStr ''abc'') (CStr ''de'')"
      "\<lambda>c s. (c = CHR ''d'', c # s)" None 1 "[]"]
  by (simp add: cord_ok_def CORD_MAX_DEPTH_def NUL_def CORD_len_def MAX_LEFT_LEN_def batched_def)

end
