(* ===== verification/Cord_Pos.thy ===== *)
theory Cord_Pos
  imports Cord_Access
begin

text \<open>
  Cord positions (\<^verbatim>\<open>cord/cordbscs.c\<close>, \<^verbatim>\<open>include/gc/cord_pos.h\<close>): a path from the cord to the leaf
  that holds the current character, and a cache of characters of that leaf. An access outside of
  an array has no result (\<^term>\<open>Stuck\<close>).
\<close>

section \<open>Positions\<close>

definition CORD_POS_INVALID :: nat where "CORD_POS_INVALID = 0x55555555"
definition CORD_FUNCTION_BUF_SZ :: nat where "CORD_FUNCTION_BUF_SZ = 8"

text \<open>\<open>cur_leaf\<close> points to a string leaf or to \<open>function_buf\<close>.\<close>

datatype leaf_ptr = LeafStr string | FunctionBuf

record CORD_pos =
  cur_pos :: nat
  path_len :: nat
  cur_leaf :: leaf_ptr
  cur_start :: nat
  cur_end :: nat
  path :: "nat \<Rightarrow> CORD \<times> nat"       \<comment> \<open>\<open>pe_cord\<close> and \<open>pe_start_pos\<close>\<close>
  function_buf :: "char list"

definition CORD_pos_valid :: "CORD_pos \<Rightarrow> bool" where
  "CORD_pos_valid p \<longleftrightarrow> path_len p \<noteq> CORD_POS_INVALID"

definition CORD_pos_to_index :: "CORD_pos \<Rightarrow> nat" where
  "CORD_pos_to_index p = cur_pos p"

definition CORD_pos_to_cord :: "CORD_pos \<Rightarrow> CORD" where
  "CORD_pos_to_cord p = fst (path p 0)"

text \<open>The loop of \<open>CORD_extend_path\<close>; the array \<open>path\<close> has \<open>CORD_MAX_DEPTH + 1\<close> entries.\<close>

fun extend_path_loop ::
    "CORD \<Rightarrow> nat \<Rightarrow> nat \<Rightarrow> nat \<Rightarrow> nat \<Rightarrow> (nat \<Rightarrow> CORD \<times> nat) \<Rightarrow> (CORD \<times> nat \<times> nat \<times> nat \<times> (nat \<Rightarrow> CORD \<times> nat)) outcome" where
  "extend_path_loop (Concat d ll n l r) pos top_pos top_len pl pa =
     (if pl + 1 > CORD_MAX_DEPTH then Stuck
      else let left_len = LEFT_LEN (Concat d ll n l r)
      in if pos \<ge> top_pos + left_len
         then extend_path_loop r pos (top_pos + left_len) (top_len - left_len) (pl + 1)
                (pa(pl + 1 := (r, top_pos + left_len)))
         else extend_path_loop l pos top_pos left_len (pl + 1) (pa(pl + 1 := (l, top_pos))))"
| "extend_path_loop top_cord pos top_pos top_len pl pa = Ret (top_cord, top_pos, top_len, pl, pa)"

definition CORD_extend_path :: "CORD_pos \<Rightarrow> CORD_pos outcome" where
  "CORD_extend_path p =
     (let (top_cord, top_pos) = path p (path_len p); pos = cur_pos p
      in obind (extend_path_loop top_cord pos top_pos (GEN_LEN top_cord) (path_len p) (path p))
           (\<lambda>(leaf, top_pos, top_len, pl, pa).
             let p = p\<lparr>path_len := pl, path := pa\<rparr>;
                 p = (case leaf of
                        CStr s \<Rightarrow> p\<lparr>cur_leaf := LeafStr s, cur_start := top_pos, cur_end := top_pos + top_len\<rparr>
                      | _ \<Rightarrow> p\<lparr>cur_end := 0\<rparr>)
             in Ret (if pos \<ge> top_pos + top_len then p\<lparr>path_len := CORD_POS_INVALID\<rparr> else p)))"

definition CORD__pos_fetch :: "CORD_pos \<Rightarrow> char outcome" where
  "CORD__pos_fetch p =
     (if \<not> CORD_pos_valid p then Abort ''CORD_pos_fetch: invalid argument''
      else let (leaf, start_pos) = path p (path_len p)
      in if \<not> IS_FUNCTION leaf then Abort ''CORD_pos_fetch: bad leaf''
         else Ret (node_fn leaf (cur_pos p - start_pos)))"

text \<open>The loop of \<open>CORD__next\<close> that pops the path, and the one of \<open>CORD__prev\<close>.\<close>

fun pop_right :: "(nat \<Rightarrow> CORD \<times> nat) \<Rightarrow> nat \<Rightarrow> nat" where
  "pop_right pa 0 = 0"
| "pop_right pa (Suc n) = (if snd (pa (Suc n)) \<noteq> snd (pa n) then pop_right pa n else Suc n)"

fun pop_left :: "(nat \<Rightarrow> CORD \<times> nat) \<Rightarrow> nat \<Rightarrow> nat" where
  "pop_left pa 0 = 0"
| "pop_left pa (Suc n) = (if snd (pa (Suc n)) = snd (pa n) then pop_left pa n else Suc n)"

definition fill_function_buf :: "(nat \<Rightarrow> char) \<Rightarrow> nat \<Rightarrow> nat \<Rightarrow> nat \<Rightarrow> char list \<Rightarrow> char list" where
  "fill_function_buf fn limit cpos start_pos buf =
     map (\<lambda>i. if i < limit then fn (i + cpos - start_pos) else buf ! i) [0 ..< CORD_FUNCTION_BUF_SZ]"

definition CORD__next :: "CORD_pos \<Rightarrow> CORD_pos outcome" where
  "CORD__next p =
     (let cpos = cur_pos p + 1
      in if \<not> CORD_pos_valid p then Abort ''CORD_next: invalid argument''
      else let (leaf, start_pos) = path p (path_len p); p = p\<lparr>cur_pos := cpos\<rparr>; end_pos = start_pos + GEN_LEN leaf
      in if \<not> CORD_IS_STRING leaf \<and> cpos < end_pos
         then let limit = (if end_pos - cpos < CORD_FUNCTION_BUF_SZ then end_pos - cpos else CORD_FUNCTION_BUF_SZ)
              in Ret (p\<lparr>function_buf := fill_function_buf (node_fn leaf) limit cpos start_pos (function_buf p),
                        cur_start := cpos, cur_leaf := FunctionBuf, cur_end := cpos + limit\<rparr>)
         else let pl = pop_right (path p) (path_len p)
              in if pl = 0 then Ret (p\<lparr>path_len := CORD_POS_INVALID\<rparr>)
                 else CORD_extend_path (p\<lparr>path_len := pl - 1\<rparr>))"

definition CORD__prev :: "CORD_pos \<Rightarrow> CORD_pos outcome" where
  "CORD__prev p =
     (if cur_pos p = 0 then Ret (p\<lparr>path_len := CORD_POS_INVALID\<rparr>)
      else let p = p\<lparr>cur_pos := cur_pos p - 1\<rparr>
      in if path_len p > CORD_MAX_DEPTH then Stuck
         else if cur_pos p \<ge> snd (path p (path_len p)) then Ret p
         else let pl = pop_left (path p) (path_len p)
              in if pl = 0 then Stuck else CORD_extend_path (p\<lparr>path_len := pl - 1\<rparr>))"

definition read_leaf :: "CORD_pos \<Rightarrow> char outcome" where
  "read_leaf p =
     (if cur_pos p < cur_start p then Stuck
      else let i = cur_pos p - cur_start p
      in (case cur_leaf p of
            LeafStr s \<Rightarrow> if i < length s then Ret (s ! i) else if i = length s then Ret NUL else Stuck
          | FunctionBuf \<Rightarrow> if i < CORD_FUNCTION_BUF_SZ then Ret (function_buf p ! i) else Stuck))"

definition CORD_pos_fetch :: "CORD_pos \<Rightarrow> char outcome" where
  "CORD_pos_fetch p = (if cur_end p \<noteq> 0 then read_leaf p else CORD__pos_fetch p)"

definition CORD_next :: "CORD_pos \<Rightarrow> CORD_pos outcome" where
  "CORD_next p = (if cur_pos p + 1 < cur_end p then Ret (p\<lparr>cur_pos := cur_pos p + 1\<rparr>) else CORD__next p)"

definition CORD_prev :: "CORD_pos \<Rightarrow> CORD_pos outcome" where
  "CORD_prev p =
     (if cur_end p \<noteq> 0 \<and> cur_pos p > cur_start p then Ret (p\<lparr>cur_pos := cur_pos p - 1\<rparr>) else CORD__prev p)"

definition CORD_set_pos :: "CORD_pos \<Rightarrow> CORD \<Rightarrow> nat \<Rightarrow> CORD_pos outcome" where
  "CORD_set_pos p x i =
     (if is_EMPTY x then Ret (p\<lparr>path_len := CORD_POS_INVALID\<rparr>)
      else CORD_extend_path (p\<lparr>path := (path p)(0 := (x, 0)), path_len := 0, cur_pos := i\<rparr>))"

section \<open>Paths\<close>

text \<open>One step down: to the left part at the same position, or to the right part behind it.\<close>

definition is_child :: "CORD \<times> nat \<Rightarrow> CORD \<times> nat \<Rightarrow> bool" where
  "is_child c c' \<longleftrightarrow> (\<exists>d ll n l r. fst c = Concat d ll n l r \<and>
     (c' = (l, snd c) \<or> c' = (r, snd c + length (cord_chars l))))"

definition is_path :: "CORD \<Rightarrow> (nat \<Rightarrow> CORD \<times> nat) \<Rightarrow> nat \<Rightarrow> bool" where
  "is_path x pa k \<longleftrightarrow> cord_ok x \<and> \<not> is_EMPTY x \<and> pa 0 = (x, 0) \<and> (\<forall>i < k. is_child (pa i) (pa (i + 1)))"

lemma is_path_extend: "is_path x pa k \<Longrightarrow> is_child (pa k) c \<Longrightarrow> is_path x (pa(k + 1 := c)) (k + 1)"
  unfolding is_path_def by (auto simp: less_Suc_eq)

lemma is_path_le: "is_path x pa k \<Longrightarrow> j \<le> k \<Longrightarrow> is_path x pa j"
  unfolding is_path_def by auto

lemma path_part:
  assumes "is_path x pa k" "pa k = (c, st)"
  shows "cord_ok c \<and> \<not> is_EMPTY c \<and> st + length (cord_chars c) \<le> length (cord_chars x)
    \<and> take (length (cord_chars c)) (drop st (cord_chars x)) = cord_chars c \<and> DEPTH c + k \<le> DEPTH x"
  using assms
proof (induction k arbitrary: c st)
  case (Suc k)
  obtain c0 st0 where pk: "pa k = (c0, st0)" by (cases "pa k")
  have "is_child (pa k) (pa (k + 1))" using Suc.prems(1) by (auto simp: is_path_def)
  then obtain d ll n l r where c0: "c0 = Concat d ll n l r"
    and ch: "(c, st) = (l, st0) \<or> (c, st) = (r, st0 + length (cord_chars l))"
    unfolding is_child_def pk Suc.prems(2)[unfolded Suc_eq_plus1] by auto
  from Suc.IH[OF is_path_le[OF Suc.prems(1)] pk] have IH: "cord_ok (Concat d ll n l r)"
    "st0 + length (cord_chars l @ cord_chars r) \<le> length (cord_chars x)"
    "take (length (cord_chars l @ cord_chars r)) (drop st0 (cord_chars x)) = cord_chars l @ cord_chars r"
    "DEPTH (Concat d ll n l r) + k \<le> DEPTH x"
    unfolding c0 by simp_all
  have dep: "DEPTH l < DEPTH (Concat d ll n l r)" "DEPTH r < DEPTH (Concat d ll n l r)"
    and ne: "\<not> is_EMPTY l" "\<not> is_EMPTY r"
    using IH(1) by (auto simp: cord_ok_def)
  note p = cord_ok_parts[OF IH(1)]
  have l: "take (length (cord_chars l)) (drop st0 (cord_chars x)) = cord_chars l"
    using arg_cong[OF IH(3), of "take (length (cord_chars l))"] by (simp add: min_def)
  have r: "take (length (cord_chars r)) (drop (st0 + length (cord_chars l)) (cord_chars x)) = cord_chars r"
    using arg_cong[OF IH(3), of "drop (length (cord_chars l))"] by (simp add: drop_take ac_simps)
  show ?case
    using ch IH(2,4) dep ne p(1,2) l r by auto
qed (auto simp: is_path_def)

section \<open>Positions and indices\<close>

text \<open>
  What the cache may hold: for a string leaf the string, for a function leaf nothing or some of
  its characters in \<open>function_buf\<close>.
\<close>

definition cache_ok :: "CORD_pos \<Rightarrow> CORD \<Rightarrow> nat \<Rightarrow> bool" where
  "cache_ok p leaf st \<longleftrightarrow> (case leaf of
     CStr s \<Rightarrow> cur_leaf p = LeafStr s \<and> cur_start p = st \<and> cur_end p = st + length s
   | _ \<Rightarrow> cur_end p = 0 \<or>
       cur_leaf p = FunctionBuf \<and> st \<le> cur_start p \<and> cur_end p \<le> st + GEN_LEN leaf
       \<and> cur_start p \<le> cur_end p \<and> cur_end p \<le> cur_start p + CORD_FUNCTION_BUF_SZ
       \<and> (\<forall>i. cur_start p \<le> i \<longrightarrow> i < cur_end p \<longrightarrow> function_buf p ! (i - cur_start p) = node_fn leaf (i - st)))"

definition pos_ok :: "CORD \<Rightarrow> CORD_pos \<Rightarrow> bool" where
  "pos_ok x p \<longleftrightarrow> is_path x (path p) (path_len p) \<and> path_len p \<le> CORD_MAX_DEPTH
     \<and> (case path p (path_len p) of (leaf, st) \<Rightarrow>
          \<not> IS_CONCATENATION leaf \<and> st \<le> cur_pos p \<and> cur_pos p < st + length (cord_chars leaf)
          \<and> cache_ok p leaf st)"

text \<open>The current character is not before the cached ones.\<close>

definition cache_covers :: "CORD_pos \<Rightarrow> bool" where
  "cache_covers p \<longleftrightarrow> cur_end p = 0 \<or> cur_start p \<le> cur_pos p \<and> cur_pos p < cur_end p"

lemma pos_ok_valid: "pos_ok x p \<Longrightarrow> CORD_pos_valid p"
  by (auto simp: pos_ok_def CORD_pos_valid_def CORD_MAX_DEPTH_def CORD_POS_INVALID_def)

lemma pos_ok_range: "pos_ok x p \<Longrightarrow> cur_pos p < length (cord_chars x)"
  using path_part[of x "path p" "path_len p"] unfolding pos_ok_def by (force split: prod.splits)

lemma extend_path_loop_spec:
  assumes "is_path x pa k" "pa k = (top_cord, top_pos)" "top_len = length (cord_chars top_cord)" "top_pos \<le> pos"
  shows "\<exists>leaf tp k' pa'. extend_path_loop top_cord pos top_pos top_len k pa = Ret (leaf, tp, length (cord_chars leaf), k', pa')
    \<and> is_path x pa' k' \<and> pa' k' = (leaf, tp) \<and> \<not> IS_CONCATENATION leaf \<and> k' \<le> CORD_MAX_DEPTH \<and> tp \<le> pos
    \<and> (pos < tp + length (cord_chars leaf) \<longleftrightarrow> pos < top_pos + length (cord_chars top_cord))"
  using assms
proof (induction top_cord arbitrary: pa k top_pos top_len)
  case (Concat d ll n l r)
  note part = path_part[OF Concat.prems(1,2)]
  then have ok: "cord_ok (Concat d ll n l r)" by simp
  note p = cord_ok_parts[OF ok]
  have "DEPTH x < CORD_MAX_DEPTH" using Concat.prems(1) by (simp add: is_path_def cord_ok_def)
  then have k: "\<not> k + 1 > CORD_MAX_DEPTH" using part by simp
  show ?case
  proof (cases "top_pos + length (cord_chars l) \<le> pos")
    case True
    let ?c = "(r, top_pos + length (cord_chars l))"
    have "is_path x (pa(k + 1 := ?c)) (k + 1)"
      by (rule is_path_extend[OF Concat.prems(1)]) (simp add: is_child_def Concat.prems(2))
    from Concat.IH(2)[OF this fun_upd_same refl True] True k Concat.prems(3)
    show ?thesis by (simp add: p(5) add.assoc Let_def fun_upd_def)
  next
    case False
    let ?c = "(l, top_pos)"
    have "is_path x (pa(k + 1 := ?c)) (k + 1)"
      by (rule is_path_extend[OF Concat.prems(1)]) (simp add: is_child_def Concat.prems(2))
    from Concat.IH(1)[OF this fun_upd_same refl Concat.prems(4)] False k
    show ?thesis by (simp add: p(5) Let_def not_le trans_less_add1 fun_upd_def)
  qed
next
  case CORD_EMPTY
  then show ?case using path_part[OF CORD_EMPTY.prems(1,2)] by simp
next
  case (CStr s)
  then show ?case using path_part[OF CStr.prems(1,2)] by (auto simp: is_path_def cord_ok_def)
next
  case (Func n f)
  then show ?case using path_part[OF Func.prems(1,2)] by (auto simp: is_path_def cord_ok_def)
next
  case (SubstrIndex n s i)
  then show ?case using path_part[OF SubstrIndex.prems(1,2)] by (auto simp: is_path_def cord_ok_def)
next
  case (SubstrApply n c i)
  then show ?case using path_part[OF SubstrApply.prems(1,2)] by (auto simp: is_path_def cord_ok_def)
qed

lemma CORD_extend_path_spec:
  assumes "is_path x (path p) (path_len p)" "path p (path_len p) = (c, st)" "st \<le> cur_pos p"
  shows "\<exists>p'. CORD_extend_path p = Ret p' \<and> cur_pos p' = cur_pos p
    \<and> (if cur_pos p < st + length (cord_chars c) then pos_ok x p' \<and> cache_covers p' else \<not> CORD_pos_valid p')"
proof -
  have ok: "cord_wf c" using path_part[OF assms(1,2)] by (simp add: cord_ok_def)
  from extend_path_loop_spec[OF assms(1,2) refl assms(3)] obtain leaf tp k pa where
    e: "extend_path_loop c (cur_pos p) st (length (cord_chars c)) (path_len p) (path p)
          = Ret (leaf, tp, length (cord_chars leaf), k, pa)"
       "is_path x pa k" "pa k = (leaf, tp)" "\<not> IS_CONCATENATION leaf" "k \<le> CORD_MAX_DEPTH" "tp \<le> cur_pos p"
       "cur_pos p < tp + length (cord_chars leaf) \<longleftrightarrow> cur_pos p < st + length (cord_chars c)"
    by blast
  let ?p = "p\<lparr>path_len := k, path := pa\<rparr>"
  let ?q = "case leaf of CStr s \<Rightarrow> ?p\<lparr>cur_leaf := LeafStr s, cur_start := tp, cur_end := tp + length (cord_chars leaf)\<rparr>
                      | _ \<Rightarrow> ?p\<lparr>cur_end := 0\<rparr>"
  have unf: "CORD_extend_path p =
      Ret (if cur_pos p \<ge> tp + length (cord_chars leaf) then ?q\<lparr>path_len := CORD_POS_INVALID\<rparr> else ?q)"
    using e(1) assms(2) by (simp add: CORD_extend_path_def GEN_LEN_chars[OF ok] Let_def)
  have q: "cur_pos ?q = cur_pos p" "path_len ?q = k" "path ?q = pa" "cache_ok ?q leaf tp"
    "cur_end ?q = 0 \<or> cur_start ?q = tp \<and> cur_end ?q = tp + length (cord_chars leaf)"
    using e(4) by (cases leaf; simp add: cache_ok_def)+
  show ?thesis
  proof (cases "cur_pos p < st + length (cord_chars c)")
    case True
    then have "CORD_extend_path p = Ret ?q" using unf e(7) by (simp del: cord_chars.simps)
    moreover have "pos_ok x ?q" "cache_covers ?q"
      using q e True unfolding pos_ok_def cache_covers_def by auto
    ultimately show ?thesis using True q(1) by auto
  next
    case False
    then show ?thesis using unf e(7) q(1) by (simp add: CORD_pos_valid_def)
  qed
qed

definition pos_at :: "CORD \<Rightarrow> nat \<Rightarrow> CORD_pos \<Rightarrow> bool" where
  "pos_at x i p \<longleftrightarrow> pos_ok x p \<and> cache_covers p \<and> cur_pos p = i"

lemma CORD_set_pos_spec:
  assumes "cord_ok x"
  shows "\<exists>p'. CORD_set_pos p x i = Ret p' \<and> (if i < length (cord_chars x) then pos_at x i p' else \<not> CORD_pos_valid p')"
proof (cases "is_EMPTY x")
  case True
  then show ?thesis
    by (auto simp: CORD_set_pos_def CORD_pos_valid_def is_EMPTY_def)
next
  case False
  let ?p = "p\<lparr>path := (path p)(0 := (x, 0)), path_len := 0, cur_pos := i\<rparr>"
  have "is_path x (path ?p) (path_len ?p)"
    using assms False by (simp add: is_path_def)
  from CORD_extend_path_spec[OF this, of x 0] False show ?thesis
    by (auto simp: CORD_set_pos_def pos_at_def split: if_splits)
qed

lemma part_nth:
  assumes "take n (drop st xs) = ys" "st \<le> i" "i < st + n" "st + n \<le> length xs"
  shows "ys ! (i - st) = xs ! i"
  using assms by auto

lemma pos_okE:
  assumes "pos_ok x p"
  obtains leaf st where "path p (path_len p) = (leaf, st)" "is_path x (path p) (path_len p)" "path_len p \<le> CORD_MAX_DEPTH"
    "\<not> IS_CONCATENATION leaf" "st \<le> cur_pos p" "cur_pos p < st + length (cord_chars leaf)" "cache_ok p leaf st"
    "cord_ok leaf" "\<not> is_EMPTY leaf" "st + length (cord_chars leaf) \<le> length (cord_chars x)"
    "cord_chars leaf ! (cur_pos p - st) = cord_chars x ! cur_pos p"
proof -
  obtain leaf st where e: "path p (path_len p) = (leaf, st)" by (cases "path p (path_len p)")
  have o: "is_path x (path p) (path_len p)" "path_len p \<le> CORD_MAX_DEPTH" "\<not> IS_CONCATENATION leaf"
    "st \<le> cur_pos p" "cur_pos p < st + length (cord_chars leaf)" "cache_ok p leaf st"
    using assms e by (auto simp: pos_ok_def)
  have q: "cord_ok leaf" "\<not> is_EMPTY leaf" "st + length (cord_chars leaf) \<le> length (cord_chars x)"
    "take (length (cord_chars leaf)) (drop st (cord_chars x)) = cord_chars leaf"
    using path_part[OF o(1) e] by auto
  show thesis
    by (rule that[OF e o q(1-3) part_nth[OF q(4) o(4,5) q(3)]])
qed

lemma leaf_cases:
  assumes "\<not> IS_CONCATENATION leaf" "\<not> is_EMPTY leaf"
  shows "(\<exists>s. leaf = CStr s) \<or> IS_FUNCTION leaf"
  using assms by (cases leaf) auto

lemma cache_ok_function:
  assumes "IS_FUNCTION leaf"
  shows "cache_ok p leaf st \<longleftrightarrow> (cur_end p = 0 \<or>
       cur_leaf p = FunctionBuf \<and> st \<le> cur_start p \<and> cur_end p \<le> st + GEN_LEN leaf
       \<and> cur_start p \<le> cur_end p \<and> cur_end p \<le> cur_start p + CORD_FUNCTION_BUF_SZ
       \<and> (\<forall>i. cur_start p \<le> i \<longrightarrow> i < cur_end p \<longrightarrow> function_buf p ! (i - cur_start p) = node_fn leaf (i - st)))"
  using assms by (cases leaf) (auto simp: cache_ok_def)

lemma CORD_pos_fetch_spec:
  assumes "pos_at x i p"
  shows "CORD_pos_fetch p = Ret (cord_chars x ! i)"
proof -
  have ok: "pos_ok x p" "cache_covers p" "cur_pos p = i" using assms by (auto simp: pos_at_def)
  from ok(1) obtain leaf st where e: "path p (path_len p) = (leaf, st)" "is_path x (path p) (path_len p)"
    "path_len p \<le> CORD_MAX_DEPTH" "\<not> IS_CONCATENATION leaf" "st \<le> cur_pos p" "cur_pos p < st + length (cord_chars leaf)"
    "cache_ok p leaf st" "cord_ok leaf" "\<not> is_EMPTY leaf" "st + length (cord_chars leaf) \<le> length (cord_chars x)"
    "cord_chars leaf ! (cur_pos p - st) = cord_chars x ! cur_pos p"
    by (rule pos_okE)
  from leaf_cases[OF e(4,9)] show ?thesis
  proof
    assume "\<exists>s. leaf = CStr s"
    then show ?thesis
      using e(5-7,11) ok(2,3) by (auto simp: cache_ok_def CORD_pos_fetch_def read_leaf_def Let_def)
  next
    assume f: "IS_FUNCTION leaf"
    have fn: "node_fn leaf (cur_pos p - st) = cord_chars x ! i"
      using f e(5,6,11) ok(3) by (simp add: function_chars)
    show ?thesis
      using e(1,5,7) f ok fn pos_ok_valid[OF ok(1)]
      by (auto simp: cache_ok_function CORD_pos_fetch_def CORD__pos_fetch_def read_leaf_def Let_def cache_covers_def)
  qed
qed

lemma pop_right_spec:
  assumes "is_path x pa k"
  shows "pop_right pa k \<le> k \<and>
    snd (pa (pop_right pa k)) + length (cord_chars (fst (pa (pop_right pa k)))) = snd (pa k) + length (cord_chars (fst (pa k)))
    \<and> (pop_right pa k = 0 \<or> snd (pa (pop_right pa k)) = snd (pa (pop_right pa k - 1)))"
  using assms
proof (induction k)
  case (Suc k)
  show ?case
  proof (cases "snd (pa (Suc k)) = snd (pa k)")
    case False
    have "is_child (pa k) (pa (k + 1))" using Suc.prems by (auto simp: is_path_def)
    then have "snd (pa (Suc k)) + length (cord_chars (fst (pa (Suc k)))) = snd (pa k) + length (cord_chars (fst (pa k)))"
      using False by (auto simp: is_child_def)
    then show ?thesis using False Suc.IH[OF is_path_le[OF Suc.prems]] by auto
  qed simp
qed simp

lemma pop_left_spec:
  "pop_left pa k \<le> k \<and> snd (pa (pop_left pa k)) = snd (pa k)
    \<and> (pop_left pa k = 0 \<or> snd (pa (pop_left pa k)) \<noteq> snd (pa (pop_left pa k - 1)))"
  by (induction k) auto

text \<open>The step to a node's left part when the part has the node's position, else to its right part.\<close>

lemma path_step:
  assumes "is_path x pa k" "0 < m" "m \<le> k"
  obtains d ll n l r st where "pa (m - 1) = (Concat d ll n l r, st)" "0 < length (cord_chars l)" "0 < length (cord_chars r)"
    "snd (pa m) = st \<Longrightarrow> pa m = (l, st)" "snd (pa m) \<noteq> st \<Longrightarrow> pa m = (r, st + length (cord_chars l))"
proof -
  obtain c st where c: "pa (m - 1) = (c, st)" by (cases "pa (m - 1)")
  have "is_child (pa (m - 1)) (pa (m - 1 + 1))"
    using assms(1)[unfolded is_path_def, THEN conjunct2, THEN conjunct2, THEN conjunct2, rule_format, of "m - 1"]
      assms(2,3) by simp
  then obtain d ll n l r where k: "c = Concat d ll n l r" "pa (m - 1 + 1) = (l, st) \<or> pa (m - 1 + 1) = (r, st + length (cord_chars l))"
    unfolding is_child_def c fst_conv snd_conv by blast
  have m: "m - 1 + 1 = m" using assms(2) by simp
  have "cord_ok c" using path_part[OF is_path_le[OF assms(1)] c] assms(3) by simp
  then have ne: "0 < length (cord_chars l)" "0 < length (cord_chars r)"
    using cord_ok_parts(6,7) k(1) by blast+
  from k(2)[unfolded m] have "snd (pa m) = st \<Longrightarrow> pa m = (l, st)" "snd (pa m) \<noteq> st \<Longrightarrow> pa m = (r, st + length (cord_chars l))"
    using ne(1) by (metis add_cancel_right_right less_nat_zero_code snd_conv)+
  then show thesis by (rule that[OF c[unfolded k(1)] ne])
qed

lemma CORD_next_leaf_end:
  assumes "pos_ok x p" "path p (path_len p) = (leaf, st)" "cur_pos p + 1 = st + length (cord_chars leaf)"
    and "CORD_IS_STRING leaf \<or> \<not> cur_pos p + 1 < st + GEN_LEN leaf"
  shows "\<exists>p'. CORD__next p = Ret p' \<and> (if cur_pos p + 1 < length (cord_chars x) then pos_at x (cur_pos p + 1) p' else \<not> CORD_pos_valid p')"
proof -
  let ?m = "pop_right (path p) (path_len p)" and ?q = "p\<lparr>cur_pos := cur_pos p + 1\<rparr>"
  have path: "is_path x (path p) (path_len p)" using assms(1) by (simp add: pos_ok_def)
  note pop = pop_right_spec[OF path]
  have unf: "CORD__next p = (if ?m = 0 then Ret (?q\<lparr>path_len := CORD_POS_INVALID\<rparr>) else CORD_extend_path (?q\<lparr>path_len := ?m - 1\<rparr>))"
    using assms(2,4) pos_ok_valid[OF assms(1)] by (auto simp: CORD__next_def Let_def)
  show ?thesis
  proof (cases "?m = 0")
    case True
    have "path p 0 = (x, 0)" using path by (simp add: is_path_def)
    with pop True assms(2,3) have "cur_pos p + 1 = length (cord_chars x)" by simp
    then show ?thesis using unf True by (simp add: CORD_pos_valid_def)
  next
    case False
    then have m: "0 < ?m" "?m \<le> path_len p" using pop by auto
    from path_step[OF path m] obtain d ll n l r s where
      s: "path p (?m - 1) = (Concat d ll n l r, s)" "0 < length (cord_chars l)" "0 < length (cord_chars r)"
        "snd (path p ?m) = s \<Longrightarrow> path p ?m = (l, s)"
      by metis
    have pm: "path p ?m = (l, s)"
      using s(1,4) pop False by simp
    with pop assms(2,3) have pos: "cur_pos p + 1 = s + length (cord_chars l)" by simp
    let ?r = "?q\<lparr>path_len := ?m - 1\<rparr>"
    have "is_path x (path ?r) (path_len ?r)" using is_path_le[OF path] m by simp
    from CORD_extend_path_spec[OF this, of "Concat d ll n l r" s] s(1,3) pos
    obtain p' where p': "CORD_extend_path ?r = Ret p'" "cur_pos p' = cur_pos p + 1" "pos_ok x p'" "cache_covers p'"
      by auto
    have "cur_pos p + 1 < length (cord_chars x)" using pos_ok_range[OF p'(3)] p'(2) by simp
    then show ?thesis using unf False p' by (simp add: pos_at_def)
  qed
qed

lemma pos_ok_move:
  assumes "pos_ok x p" "path p (path_len p) = (leaf, st)" "st \<le> i" "i < st + length (cord_chars leaf)"
  shows "pos_ok x (p\<lparr>cur_pos := i\<rparr>)"
proof -
  have "cache_ok (p\<lparr>cur_pos := i\<rparr>) leaf st = cache_ok p leaf st" by (cases leaf) (simp_all add: cache_ok_def)
  then show ?thesis using assms by (simp add: pos_ok_def)
qed

lemma cache_end:
  assumes "cache_ok p leaf st" "cord_wf leaf" "\<not> IS_CONCATENATION leaf" "cur_end p \<noteq> 0"
  shows "cur_end p \<le> st + length (cord_chars leaf)" "st \<le> cur_start p"
  using assms by (cases leaf; auto simp: cache_ok_def)+

lemma CORD_next_spec:
  assumes "pos_at x i p"
  shows "\<exists>p'. CORD_next p = Ret p' \<and> (if i + 1 < length (cord_chars x) then pos_at x (i + 1) p' else \<not> CORD_pos_valid p')"
proof -
  have ok: "pos_ok x p" "cache_covers p" "cur_pos p = i" using assms by (auto simp: pos_at_def)
  from ok(1) obtain leaf st where e: "path p (path_len p) = (leaf, st)" "is_path x (path p) (path_len p)"
    "path_len p \<le> CORD_MAX_DEPTH" "\<not> IS_CONCATENATION leaf" "st \<le> cur_pos p" "cur_pos p < st + length (cord_chars leaf)"
    "cache_ok p leaf st" "cord_ok leaf" "\<not> is_EMPTY leaf" "st + length (cord_chars leaf) \<le> length (cord_chars x)"
    "cord_chars leaf ! (cur_pos p - st) = cord_chars x ! cur_pos p"
    by (rule pos_okE)
  have wf: "cord_wf leaf" using e(8) by (simp add: cord_ok_def)
  note move = pos_ok_move[OF ok(1) e(1), of "i + 1"]
  consider (cached) "i + 1 < cur_end p"
    | (fill) "\<not> i + 1 < cur_end p" "IS_FUNCTION leaf" "i + 1 < st + length (cord_chars leaf)"
    | (last) "\<not> i + 1 < cur_end p" "i + 1 = st + length (cord_chars leaf)" "CORD_IS_STRING leaf \<or> \<not> i + 1 < st + GEN_LEN leaf"
  proof (cases "i + 1 < cur_end p")
    case False
    from leaf_cases[OF e(4,9)] show ?thesis
    proof
      assume "\<exists>s. leaf = CStr s"
      then show ?thesis using e(5-7) ok(3) False last by (auto simp: cache_ok_def)
    next
      assume "IS_FUNCTION leaf"
      then show ?thesis using fill last False e(6) ok(3) GEN_LEN_chars[OF wf] by fastforce
    qed
  qed
  then show ?thesis
  proof cases
    case cached
    then have "CORD_next p = Ret (p\<lparr>cur_pos := i + 1\<rparr>)" by (simp add: CORD_next_def ok(3))
    moreover have "i + 1 < st + length (cord_chars leaf)"
      using cached cache_end(1)[OF e(7) wf e(4)] by simp
    ultimately show ?thesis
      using move e(5,10) ok(2,3) cached by (auto simp: pos_at_def cache_covers_def)
  next
    case fill
    let ?limit = "if st + GEN_LEN leaf - (i + 1) < CORD_FUNCTION_BUF_SZ then st + GEN_LEN leaf - (i + 1) else CORD_FUNCTION_BUF_SZ"
    let ?p' = "p\<lparr>cur_pos := i + 1, function_buf := fill_function_buf (node_fn leaf) ?limit (i + 1) st (function_buf p),
        cur_start := i + 1, cur_leaf := FunctionBuf, cur_end := i + 1 + ?limit\<rparr>"
    have "\<not> CORD_IS_STRING leaf" using fill(2) by (cases leaf) auto
    then have "CORD_next p = Ret ?p'"
      using fill pos_ok_valid[OF ok(1)] e(1) ok(3) GEN_LEN_chars[OF wf]
      by (simp add: CORD_next_def CORD__next_def Let_def)
    moreover have "cache_ok ?p' leaf st"
      using fill(2,3) e(5) ok(3) GEN_LEN_chars[OF wf]
      by (auto simp: cache_ok_function fill_function_buf_def)
    then have "pos_ok x ?p'"
      using ok(1,3) e(1,5) fill(3) by (simp add: pos_ok_def)
    moreover have "cache_covers ?p'"
      using fill(3) GEN_LEN_chars[OF wf] by (simp add: cache_covers_def CORD_FUNCTION_BUF_SZ_def)
    ultimately show ?thesis
      using fill(3) e(10) by (simp add: pos_at_def)
  next
    case last
    then have "CORD_next p = CORD__next p" by (simp only: CORD_next_def ok(3) if_False)
    then show ?thesis
      using CORD_next_leaf_end[OF ok(1) e(1), unfolded ok(3), OF last(2,3)] by (simp only:)
  qed
qed

text \<open>The cache of a function leaf starts at the current character, which is not the first of the leaf.\<close>

definition stale_after_prev :: "CORD_pos \<Rightarrow> bool" where
  "stale_after_prev p \<longleftrightarrow> (case path p (path_len p) of (leaf, st) \<Rightarrow>
     IS_FUNCTION leaf \<and> cur_end p \<noteq> 0 \<and> cur_pos p = cur_start p \<and> st < cur_start p)"

lemma CORD_prev_leaf_start:
  assumes "pos_ok x p" "path p (path_len p) = (leaf, st)" "cur_pos p = st" "0 < st"
  shows "\<exists>p'. CORD__prev p = Ret p' \<and> pos_at x (st - 1) p'"
proof -
  let ?m = "pop_left (path p) (path_len p)" and ?q = "p\<lparr>cur_pos := st - 1\<rparr>"
  have path: "is_path x (path p) (path_len p)" "path_len p \<le> CORD_MAX_DEPTH" using assms(1) by (simp_all add: pos_ok_def)
  note pop = pop_left_spec[of "path p" "path_len p"]
  have "path p 0 = (x, 0)" using path(1) by (simp add: is_path_def)
  then have "?m \<noteq> 0" using pop assms(2,4) by (intro notI) simp
  then have m: "0 < ?m" "?m \<le> path_len p" using pop by auto
  from path_step[OF path(1) m] obtain d ll n l r s where
    s: "path p (?m - 1) = (Concat d ll n l r, s)" "0 < length (cord_chars l)"
      "snd (path p ?m) \<noteq> s \<Longrightarrow> path p ?m = (r, s + length (cord_chars l))"
    by metis
  have "path p ?m = (r, s + length (cord_chars l))" using s(1,3) pop \<open>?m \<noteq> 0\<close> by simp
  with pop assms(2) have st: "st = s + length (cord_chars l)" by simp
  let ?r = "?q\<lparr>path_len := ?m - 1\<rparr>"
  have "is_path x (path ?r) (path_len ?r)" using is_path_le[OF path(1)] m by simp
  moreover have "length (cord_chars (Concat d ll n l r)) = length (cord_chars l) + length (cord_chars r)" by simp
  then have "s \<le> st - 1" "st - 1 < s + length (cord_chars (Concat d ll n l r))" using st s(2) by linarith+
  ultimately obtain p' where p': "CORD_extend_path ?r = Ret p'" "cur_pos p' = st - 1" "pos_ok x p'" "cache_covers p'"
    using CORD_extend_path_spec[of x ?r "Concat d ll n l r" s] s(1) by auto
  moreover have "CORD__prev p = CORD_extend_path ?r"
    using assms path(2) \<open>?m \<noteq> 0\<close> by (auto simp: CORD__prev_def Let_def)
  ultimately show ?thesis by (simp add: pos_at_def)
qed

lemma CORD_prev_spec:
  assumes "pos_at x i p"
  shows "\<exists>p'. CORD_prev p = Ret p' \<and> (if i = 0 then \<not> CORD_pos_valid p'
     else pos_ok x p' \<and> cur_pos p' = i - 1 \<and> (cache_covers p' \<longleftrightarrow> \<not> stale_after_prev p))"
proof -
  have ok: "pos_ok x p" "cache_covers p" "cur_pos p = i" using assms by (auto simp: pos_at_def)
  from ok(1) obtain leaf st where e: "path p (path_len p) = (leaf, st)" "is_path x (path p) (path_len p)"
    "path_len p \<le> CORD_MAX_DEPTH" "\<not> IS_CONCATENATION leaf" "st \<le> cur_pos p" "cur_pos p < st + length (cord_chars leaf)"
    "cache_ok p leaf st" "cord_ok leaf" "\<not> is_EMPTY leaf" "st + length (cord_chars leaf) \<le> length (cord_chars x)"
    "cord_chars leaf ! (cur_pos p - st) = cord_chars x ! cur_pos p"
    by (rule pos_okE)
  have wf: "cord_wf leaf" using e(8) by (simp add: cord_ok_def)
  note move = pos_ok_move[OF ok(1) e(1), of "i - 1"]
  consider (cached) "cur_end p \<noteq> 0 \<and> i > cur_start p" | (zero) "\<not> (cur_end p \<noteq> 0 \<and> i > cur_start p)" "i = 0"
    | (leaf) "\<not> (cur_end p \<noteq> 0 \<and> i > cur_start p)" "st < i" | (start) "\<not> (cur_end p \<noteq> 0 \<and> i > cur_start p)" "i = st" "0 < st"
  proof (cases "cur_end p \<noteq> 0 \<and> i > cur_start p")
    case False
    consider "i = 0" | "st < i" | "i = st" "0 < st" using e(5)[unfolded ok(3)] by linarith
    then show ?thesis using False zero leaf start by cases blast+
  qed
  then show ?thesis
  proof cases
    case cached
    then have "CORD_prev p = Ret (p\<lparr>cur_pos := i - 1\<rparr>)" by (simp add: CORD_prev_def ok(3))
    moreover have "st \<le> i - 1" "i - 1 < st + length (cord_chars leaf)"
      using cached cache_end(2)[OF e(7) wf e(4)] e(6) ok(3) by auto
    ultimately show ?thesis
      using move ok(2,3) cached e(1) by (auto simp: cache_covers_def stale_after_prev_def)
  next
    case zero
    then show ?thesis by (simp add: CORD_prev_def CORD__prev_def ok(3) CORD_pos_valid_def)
  next
    case leaf
    have f: "IS_FUNCTION leaf"
      using leaf_cases[OF e(4,9)] leaf e(7) wf by (auto simp: cache_ok_def)
    have "CORD_prev p = Ret (p\<lparr>cur_pos := i - 1\<rparr>)"
      using leaf e(1,3) ok(3) by (auto simp: CORD_prev_def CORD__prev_def Let_def)
    moreover have "cache_covers (p\<lparr>cur_pos := i - 1\<rparr>) \<longleftrightarrow> \<not> stale_after_prev p"
      using leaf f e(1) ok(2,3) by (auto simp: cache_covers_def stale_after_prev_def)
    ultimately show ?thesis
      using move leaf(2) e(6) ok(3) by auto
  next
    case start
    then have "CORD_prev p = CORD__prev p" by (simp only: CORD_prev_def ok(3) if_False)
    moreover have "\<not> stale_after_prev p" using e(1) start ok(3) by (simp add: stale_after_prev_def)
    ultimately show ?thesis
      using CORD_prev_leaf_start[OF ok(1) e(1) _ start(3)] start ok(3) by (auto simp: pos_at_def)
  qed
qed

primrec advance :: "('p \<Rightarrow> 'p outcome) \<Rightarrow> nat \<Rightarrow> 'p \<Rightarrow> 'p outcome" where
  "advance next_pos 0 p = Ret p"
| "advance next_pos (Suc n) p = obind (next_pos p) (advance next_pos n)"

text \<open>An interface to cursors over the characters of a cord, as the string operations use them.\<close>

locale cord_cursor =
  fixes at :: "CORD \<Rightarrow> nat \<Rightarrow> 'p \<Rightarrow> bool"
    and valid :: "'p \<Rightarrow> bool"
    and set_pos :: "'p \<Rightarrow> CORD \<Rightarrow> nat \<Rightarrow> 'p outcome"
    and fetch :: "'p \<Rightarrow> char outcome"
    and next_pos :: "'p \<Rightarrow> 'p outcome"
  assumes set_pos_law: "cord_ok x \<Longrightarrow>
      \<exists>p'. set_pos p x i = Ret p' \<and> (if i < length (cord_chars x) then at x i p' else \<not> valid p')"
    and fetch_law: "at x i p \<Longrightarrow> fetch p = Ret (cord_chars x ! i)"
    and next_law: "at x i p \<Longrightarrow>
      \<exists>p'. next_pos p = Ret p' \<and> (if i + 1 < length (cord_chars x) then at x (i + 1) p' else \<not> valid p')"
    and at_valid: "at x i p \<Longrightarrow> valid p \<and> i < length (cord_chars x)"
begin

lemma advance_law: "at x i p \<Longrightarrow> i + n < length (cord_chars x) \<Longrightarrow> \<exists>p'. advance next_pos n p = Ret p' \<and> at x (i + n) p'"
proof (induction n arbitrary: i p)
  case (Suc n)
  from next_law[OF Suc.prems(1)] Suc.prems(2) obtain p' where p': "next_pos p = Ret p'" "at x (i + 1) p'" by auto
  from Suc.IH[OF p'(2)] Suc.prems(2) p'(1) show ?case by auto
qed simp

lemma walk_law:
  assumes "cord_ok x" "i + n < length (cord_chars x)"
  shows "obind (set_pos p x i) (\<lambda>p. obind (advance next_pos n p) fetch) = Ret (cord_chars x ! (i + n))"
proof -
  from set_pos_law[OF assms(1), of p i] assms(2) obtain q where q: "set_pos p x i = Ret q" "at x i q" by auto
  from advance_law[OF q(2) assms(2)] obtain r where "advance next_pos n q = Ret r" "at x (i + n) r" by blast
  then show ?thesis using q(1) fetch_law by simp
qed

end

interpretation cursor: cord_cursor pos_at CORD_pos_valid CORD_set_pos CORD_pos_fetch CORD_next
proof unfold_locales
  show "CORD_pos_valid p \<and> i < length (cord_chars x)" if "pos_at x i p" for x i p
    using that pos_ok_valid pos_ok_range by (auto simp: pos_at_def)
qed (rule CORD_set_pos_spec CORD_pos_fetch_spec CORD_next_spec; assumption)+

text \<open>
  C30: A position reaches every character: setting it to index \<open>i\<close> of a well-formed cord and moving it
  \<open>n\<close> times forward, across leaves of all kinds, makes \<open>CORD_pos_fetch\<close> return character \<open>i + n\<close>; no
  access leaves the path or the character cache.
\<close>

theorem CORD_pos_walk_correct:
  assumes "cord_ok x" "i + n < CORD_len x"
  shows "obind (CORD_set_pos p x i) (\<lambda>p. obind (advance CORD_next n p) CORD_pos_fetch) = Ret (cord_chars x ! (i + n))"
  using cursor.walk_law[OF assms(1), of i n] assms by (simp add: cord_ok_def CORD_len_chars)

definition pos_ex :: CORD_pos where
  "pos_ex = \<lparr>cur_pos = 0, path_len = 0, cur_leaf = FunctionBuf, cur_start = 0, cur_end = 0,
     path = (\<lambda>_. (CORD_EMPTY, 0)), function_buf = replicate 8 NUL\<rparr>"

theorem CORD_pos_walk_correct_witness:
  "obind (CORD_set_pos pos_ex (Concat 1 3 5 (CStr ''abc'') (CStr ''de'')) 1) (\<lambda>p.
     obind (advance CORD_next 3 p) CORD_pos_fetch) = Ret CHR ''e''"
  using CORD_pos_walk_correct[of "Concat 1 3 5 (CStr ''abc'') (CStr ''de'')" 1 3 pos_ex]
  by (simp add: cord_ok_def CORD_MAX_DEPTH_def NUL_def CORD_len_def MAX_LEFT_LEN_def)

text \<open>
  C31: \<open>CORD_next\<close> and \<open>CORD_prev\<close> refine the steps on indices: from index \<open>i\<close> they lead to the position of
  \<open>i + 1\<close> and \<open>i - 1\<close> on the path to its leaf, and past either end to an invalid position. After
  \<open>CORD_prev\<close> the cached characters are those around the index except in one case: the leaf is a
  function node whose cache starts just behind the new index.
\<close>

theorem CORD_next_prev_correct:
  assumes "pos_at x i p"
  shows "(\<exists>p'. CORD_next p = Ret p' \<and> (if i + 1 < CORD_len x then pos_at x (i + 1) p' else \<not> CORD_pos_valid p'))
    \<and> (\<exists>p'. CORD_prev p = Ret p' \<and> (if i = 0 then \<not> CORD_pos_valid p'
        else pos_ok x p' \<and> CORD_pos_to_index p' = i - 1 \<and> (cache_covers p' \<longleftrightarrow> \<not> stale_after_prev p)))"
proof -
  have "cord_wf x" using assms by (simp add: pos_at_def pos_ok_def is_path_def cord_ok_def)
  then show ?thesis
    using CORD_next_spec[OF assms] CORD_prev_spec[OF assms] by (simp only: CORD_len_chars CORD_pos_to_index_def)
qed

lemma pos_at_ex: "pos_at (CStr ''ab'') 0 (pos_ex\<lparr>cur_leaf := LeafStr ''ab'', cur_end := 2, path := (\<lambda>_. (CStr ''ab'', 0))\<rparr>)"
  by (simp add: pos_at_def pos_ok_def is_path_def pos_ex_def cord_ok_def cache_ok_def cache_covers_def
      CORD_MAX_DEPTH_def NUL_def)

theorem CORD_next_prev_correct_witness:
  "\<exists>p'. CORD_next (pos_ex\<lparr>cur_leaf := LeafStr ''ab'', cur_end := 2, path := (\<lambda>_. (CStr ''ab'', 0))\<rparr>) = Ret p'
     \<and> pos_at (CStr ''ab'') 1 p'"
  using CORD_next_prev_correct[OF pos_at_ex] by (simp add: CORD_len_def)

text \<open>
  C32: The exceptional case arises on every function leaf: from a position in it whose cache is empty
  or used up, with the next index in the same leaf, one step forward and one step back lead back
  to the index, with a cache that starts behind it, and \<open>CORD_pos_fetch\<close> then reads in front of
  \<open>function_buf\<close>.
\<close>

theorem CORD_prev_stale_cache:
  assumes p: "pos_at x i p" and leaf: "path p (path_len p) = (leaf, st)" "\<not> CORD_IS_STRING leaf"
    and used: "cur_end p \<le> i + 1" and inside: "i + 1 < st + GEN_LEN leaf"
  shows "obind (CORD_next p) (\<lambda>p. obind (CORD_prev p) CORD_pos_fetch) = Stuck"
proof -
  have pos: "cur_pos p = i" "path_len p \<le> CORD_MAX_DEPTH" "st \<le> i"
    using p leaf by (auto simp: pos_at_def pos_ok_def)
  then have "CORD_pos_valid p" by (auto simp: CORD_pos_valid_def CORD_POS_INVALID_def CORD_MAX_DEPTH_def)
  then obtain k buf where "CORD_next p = Ret (p\<lparr>cur_pos := i + 1, function_buf := buf, cur_start := i + 1,
      cur_leaf := FunctionBuf, cur_end := i + 1 + k\<rparr>)"
    using used inside leaf pos(1) by (auto simp: CORD_next_def CORD__next_def Let_def)
  then show ?thesis
    using leaf pos by (simp add: CORD_prev_def CORD__prev_def CORD_pos_fetch_def read_leaf_def Let_def)
qed

theorem CORD_prev_stale_cache_witness:
  "obind (CORD_next (pos_ex\<lparr>path := (\<lambda>_. (Func 40 (\<lambda>i. CHR ''a''), 0))\<rparr>)) (\<lambda>p. obind (CORD_prev p) CORD_pos_fetch) = Stuck"
proof -
  let ?p = "pos_ex\<lparr>path := (\<lambda>_. (Func 40 (\<lambda>i. CHR ''a''), 0))\<rparr>"
  have "pos_at (Func 40 (\<lambda>i. CHR ''a'')) 0 ?p"
    by (simp add: pos_at_def pos_ok_def is_path_def pos_ex_def cord_ok_def cache_ok_def cache_covers_def CORD_MAX_DEPTH_def)
  from CORD_prev_stale_cache[OF this, of "Func 40 (\<lambda>i. CHR ''a'')" 0] show ?thesis by (simp add: pos_ex_def)
qed

end
