(* ===== verification/Cord_Extra.thy ===== *)
theory Cord_Extra
  imports Cord_Pos "HOL-Library.Word"
begin

unbundle bit_operations_syntax

text \<open>
  The operations of \<^verbatim>\<open>cord/cordxtra.c\<close> that are built from the basic ones, and the extensible cords
  of \<^verbatim>\<open>include/gc/ec.h\<close>. The C library comparisons are modelled by the sign of their result; the
  contents of fresh storage and of uninitialised positions are fixed arbitrarily (the lemmas about
  filling and about setting a position hold for all of them).
\<close>

section \<open>Operations\<close>

definition CORD_nul_func :: "char \<Rightarrow> nat \<Rightarrow> char" where
  "CORD_nul_func c i = c"

definition CORD_chars :: "char \<Rightarrow> nat \<Rightarrow> CORD" where
  "CORD_chars c i = CORD_from_fn (CORD_nul_func c) i"

definition CORD_cat_char :: "CORD \<Rightarrow> char \<Rightarrow> CORD outcome" where
  "CORD_cat_char x c = (if c = NUL then CORD_cat x (CORD_chars NUL 1) else CORD_cat_char_star x [c] 1)"

fun catn_loop :: "CORD list \<Rightarrow> CORD \<Rightarrow> CORD outcome" where
  "catn_loop [] result = Ret result"
| "catn_loop (x # xs) result = obind (CORD_cat result x) (catn_loop xs)"

definition CORD_catn :: "CORD list \<Rightarrow> CORD outcome" where
  "CORD_catn args = catn_loop args CORD_EMPTY"

subsection \<open>Conversion to strings\<close>

record CORD_fill_data =
  fd_len :: nat
  fd_cnt :: nat
  fd_buf :: "nat \<Rightarrow> char"

definition CORD_fill_proc :: "CORD_fill_data iter_fn" where
  "CORD_fill_proc c d =
     (let cnt = fd_cnt d; d = d\<lparr>fd_buf := (fd_buf d)(cnt := c), fd_cnt := cnt + 1\<rparr>
      in (cnt + 1 \<ge> fd_len d, d))"

fun batched_fill_loop :: "string \<Rightarrow> nat \<Rightarrow> nat \<Rightarrow> (nat \<Rightarrow> char) \<Rightarrow> bool \<times> nat \<times> (nat \<Rightarrow> char)" where
  "batched_fill_loop [] cnt mx buf = (False, cnt, buf(cnt := NUL))"
| "batched_fill_loop (c # t) cnt mx buf =
     (if cnt + 1 \<ge> mx then (True, cnt + 1, buf(cnt := c))
      else batched_fill_loop t (cnt + 1) mx (buf(cnt := c)))"

definition CORD_batched_fill_proc :: "CORD_fill_data batched_iter_fn" where
  "CORD_batched_fill_proc s d =
     (case batched_fill_loop s (fd_cnt d) (fd_len d) (fd_buf d) of
        (b, cnt, buf) \<Rightarrow> (b, d\<lparr>fd_buf := buf, fd_cnt := cnt\<rparr>))"

definition CORD_fill_buf :: "CORD \<Rightarrow> nat \<Rightarrow> nat \<Rightarrow> (nat \<Rightarrow> char) \<Rightarrow> (bool \<times> CORD_fill_data) outcome" where
  "CORD_fill_buf x i len buf =
     CORD_iter5 x i CORD_fill_proc (Some CORD_batched_fill_proc) \<lparr>fd_len = len, fd_cnt = 0, fd_buf = buf\<rparr>"

text \<open>The result buffer up to its final NUL.\<close>

definition CORD_to_char_star :: "CORD \<Rightarrow> string outcome" where
  "CORD_to_char_star x =
     (let len = CORD_len x; result = (\<lambda>_. NUL)
      in if len > 0
         then obind (CORD_fill_buf x 0 len result) (\<lambda>(b, d).
                if \<not> b then Abort ''CORD_fill_buf malfunction'' else Ret (map (fd_buf d) [0 ..< len]))
         else Ret [])"

definition CORD_to_const_char_star :: "CORD \<Rightarrow> string outcome" where
  "CORD_to_const_char_star x =
     (case x of CORD_EMPTY \<Rightarrow> Ret [] | CStr s \<Rightarrow> Ret s | _ \<Rightarrow> CORD_to_char_star x)"

definition fresh_pos :: CORD_pos where
  "fresh_pos = pos_ex"

definition CORD_fetch :: "CORD \<Rightarrow> nat \<Rightarrow> char outcome" where
  "CORD_fetch x i =
     obind (CORD_set_pos fresh_pos x i) (\<lambda>xpos.
       if \<not> CORD_pos_valid xpos then Abort ''bad index?'' else CORD_pos_fetch xpos)"

text \<open>\<open>putc\<close> and \<open>fputs\<close> on a stream, with the flag of a failure.\<close>

definition CORD_put :: "'f iter_fn \<Rightarrow> 'f batched_iter_fn \<Rightarrow> CORD \<Rightarrow> 'f \<Rightarrow> (bool \<times> 'f) outcome" where
  "CORD_put putc fputs x f = CORD_iter5 x 0 putc (Some fputs) f"

subsection \<open>Comparison\<close>

text \<open>The sign of \<open>memcmp\<close> on equally long arguments and of \<open>strncmp\<close> on NUL-terminated ones.\<close>

fun str_cmp :: "string \<Rightarrow> string \<Rightarrow> int" where
  "str_cmp [] [] = 0"
| "str_cmp [] (d # ds) = -1"
| "str_cmp (c # cs) [] = 1"
| "str_cmp (c # cs) (d # ds) =
     (if c = d then str_cmp cs ds else if (of_char c :: nat) < of_char d then -1 else 1)"

text \<open>The value of a plain \<open>char\<close>, which is signed.\<close>

definition schar :: "char \<Rightarrow> int" where
  "schar c = (let n = of_char c in if n \<ge> 128 then n - 256 else n)"

definition CORD_pos_chars_left :: "CORD_pos \<Rightarrow> int" where
  "CORD_pos_chars_left p = int (cur_end p) - int (cur_pos p)"

definition CORD_pos_advance :: "CORD_pos \<Rightarrow> nat \<Rightarrow> CORD_pos outcome" where
  "CORD_pos_advance p n = CORD_next (p\<lparr>cur_pos := cur_pos p + n - 1\<rparr>)"

text \<open>The \<open>n\<close> characters from \<open>CORD_pos_cur_char_addr\<close> on.\<close>

definition cur_chars :: "CORD_pos \<Rightarrow> nat \<Rightarrow> string outcome" where
  "cur_chars p n =
     (let (buf, size) = (case cur_leaf p of
            LeafStr s \<Rightarrow> (s, length s) | FunctionBuf \<Rightarrow> (function_buf p, CORD_FUNCTION_BUF_SZ))
      in if cur_pos p < cur_start p \<or> cur_pos p - cur_start p + n > size then Stuck
         else Ret (map (\<lambda>j. buf ! (cur_pos p - cur_start p + j)) [0 ..< n]))"

function ncmp_loop :: "nat \<Rightarrow> nat \<Rightarrow> CORD_pos \<Rightarrow> CORD_pos \<Rightarrow> int outcome" where
  "ncmp_loop len cnt xpos ypos =
     (if \<not> cnt < len then Ret 0
      else if \<not> CORD_pos_valid xpos then Ret (if CORD_pos_valid ypos then -1 else 0)
      else if \<not> CORD_pos_valid ypos then Ret 1
      else if CORD_pos_chars_left xpos \<le> 0 \<or> CORD_pos_chars_left ypos \<le> 0 then
        obind (CORD_pos_fetch xpos) (\<lambda>cur_x. obind (CORD_pos_fetch ypos) (\<lambda>cur_y.
          if cur_x \<noteq> cur_y then Ret (schar cur_x - schar cur_y)
          else obind (CORD_next xpos) (\<lambda>xpos. obind (CORD_next ypos) (\<lambda>ypos.
                 ncmp_loop len (cnt + 1) xpos ypos))))
      else
        let avail = nat (min (CORD_pos_chars_left xpos) (CORD_pos_chars_left ypos));
            cnt' = cnt + avail;
            avail = (if cnt' > len then avail - (cnt' - len) else avail)
        in obind (cur_chars xpos avail) (\<lambda>xs. obind (cur_chars ypos avail) (\<lambda>ys.
             let result = str_cmp xs ys
             in if result \<noteq> 0 then Ret result
                else obind (CORD_pos_advance xpos avail) (\<lambda>xpos. obind (CORD_pos_advance ypos avail) (\<lambda>ypos.
                       ncmp_loop len cnt' xpos ypos)))))"
  by pat_completeness auto
termination by (relation "measure (\<lambda>(len, cnt, _). len - cnt)") auto

declare ncmp_loop.simps [simp del]

definition ncmp_positions :: "CORD \<Rightarrow> nat \<Rightarrow> CORD \<Rightarrow> nat \<Rightarrow> nat \<Rightarrow> int outcome" where
  "ncmp_positions x x_start y y_start len =
     obind (CORD_set_pos fresh_pos x x_start) (\<lambda>xpos.
     obind (CORD_set_pos fresh_pos y y_start) (\<lambda>ypos. ncmp_loop len 0 xpos ypos))"

text \<open>An empty cord is a null pointer: testing whether it is a string has no result.\<close>

definition CORD_ncmp :: "CORD \<Rightarrow> nat \<Rightarrow> CORD \<Rightarrow> nat \<Rightarrow> nat \<Rightarrow> int outcome" where
  "CORD_ncmp x x_start y y_start len =
     (if len = 0 then Ret 0
      else if x_start = 0 \<and> y_start = 0 \<and> is_EMPTY y then Ret (if is_EMPTY x then 0 else 1)
      else if x_start = 0 \<and> y_start = 0 \<and> is_EMPTY x then Ret (-1)
      else (case x of
          CORD_EMPTY \<Rightarrow> Stuck
        | CStr xs \<Rightarrow>
            (case y of
               CORD_EMPTY \<Rightarrow> Stuck
             | CStr ys \<Rightarrow>
                 if x_start > length xs \<or> y_start > length ys then Stuck
                 else Ret (str_cmp (take len (drop x_start xs)) (take len (drop y_start ys)))
             | _ \<Rightarrow> ncmp_positions x x_start y y_start len)
        | _ \<Rightarrow> ncmp_positions x x_start y y_start len))"

definition CORD_cmp :: "CORD \<Rightarrow> CORD \<Rightarrow> int outcome" where
  "CORD_cmp x y = CORD_ncmp x 0 y 0 ((2 ^ 64 - 1) div 2)"

subsection \<open>Searching\<close>

definition CORD_NOT_FOUND :: nat where "CORD_NOT_FOUND = 2 ^ 64 - 1"

definition CORD_chr_proc :: "char \<Rightarrow> nat iter_fn" where
  "CORD_chr_proc target c pos = (if c = target then (True, pos) else (False, size_add pos 1))"

definition CORD_rchr_proc :: "char \<Rightarrow> nat iter_fn" where
  "CORD_rchr_proc target c pos = (if c = target then (True, pos) else (False, size_add pos (2 ^ 64 - 1)))"

text \<open>\<open>strchr\<close> also finds the terminating NUL.\<close>

fun strchr :: "string \<Rightarrow> char \<Rightarrow> nat option" where
  "strchr [] t = (if t = NUL then Some 0 else None)"
| "strchr (c # cs) t = (if c = t then Some 0 else map_option Suc (strchr cs t))"

definition CORD_batched_chr_proc :: "char \<Rightarrow> nat batched_iter_fn" where
  "CORD_batched_chr_proc target s pos =
     (case strchr s target of None \<Rightarrow> (False, size_add pos (length s)) | Some k \<Rightarrow> (True, size_add pos k))"

definition CORD_chr :: "CORD \<Rightarrow> nat \<Rightarrow> char \<Rightarrow> nat outcome" where
  "CORD_chr x i c =
     obind (CORD_iter5 x i (CORD_chr_proc c) (Some (CORD_batched_chr_proc c)) i) (\<lambda>(b, pos).
       Ret (if b then pos else CORD_NOT_FOUND))"

definition CORD_rchr :: "CORD \<Rightarrow> nat \<Rightarrow> char \<Rightarrow> nat outcome" where
  "CORD_rchr x i c =
     obind (CORD_riter4 x i (CORD_rchr_proc c) i) (\<lambda>(b, pos). Ret (if b then pos else CORD_NOT_FOUND))"

definition STR_START_MAX_LEN :: nat where "STR_START_MAX_LEN = 8"

definition shift_in :: "64 word \<Rightarrow> char \<Rightarrow> 64 word" where
  "shift_in w c = push_bit 8 w OR word_of_nat (of_char c)"

text \<open>The loop that fills \<open>mask\<close>, \<open>s_buf\<close> and \<open>x_buf\<close>.\<close>

fun str_start_loop :: "string \<Rightarrow> 64 word \<Rightarrow> 64 word \<Rightarrow> 64 word \<Rightarrow> CORD_pos \<Rightarrow> (64 word \<times> 64 word \<times> 64 word \<times> CORD_pos) outcome" where
  "str_start_loop [] m s_buf x_buf xpos = Ret (m, s_buf, x_buf, xpos)"
| "str_start_loop (c # cs) m s_buf x_buf xpos =
     obind (CORD_pos_fetch xpos) (\<lambda>d. obind (CORD_next xpos) (\<lambda>xpos.
       str_start_loop cs (push_bit 8 m OR 0xff) (shift_in s_buf c) (shift_in x_buf d) xpos))"

function str_match_loop ::
    "CORD \<Rightarrow> nat \<Rightarrow> CORD \<Rightarrow> nat \<Rightarrow> nat \<Rightarrow> 64 word \<Rightarrow> 64 word \<Rightarrow> nat \<Rightarrow> 64 word \<Rightarrow> CORD_pos \<Rightarrow> nat outcome" where
  "str_match_loop x xlen s slen start_len m s_buf match_pos x_buf xpos =
     obind (if x_buf AND m = s_buf
            then if slen = start_len then Ret True
                 else obind (CORD_ncmp x (match_pos + start_len) s start_len (slen - start_len)) (\<lambda>r. Ret (r = 0))
            else Ret False) (\<lambda>matched.
     if matched then Ret match_pos
     else if match_pos = xlen - slen then Ret CORD_NOT_FOUND
     else if match_pos > xlen - slen then Stuck
     else obind (CORD_pos_fetch xpos) (\<lambda>d. obind (CORD_next xpos) (\<lambda>xpos.
            str_match_loop x xlen s slen start_len m s_buf (match_pos + 1) (shift_in x_buf d) xpos)))"
  by pat_completeness auto
termination by (relation "measure (\<lambda>(x, xlen, s, slen, start_len, m, s_buf, match_pos, _). xlen - slen - match_pos)") auto

declare str_match_loop.simps [simp del]

definition CORD_str :: "CORD \<Rightarrow> nat \<Rightarrow> CORD \<Rightarrow> nat outcome" where
  "CORD_str x start s =
     (let xlen = CORD_len x
      in if is_EMPTY s then Ret start
         else obind (case s of
                CStr t \<Rightarrow> Ret (t, length t)
              | _ \<Rightarrow> obind (CORD_substr s 0 STR_START_MAX_LEN) (\<lambda>u.
                     obind (CORD_to_char_star u) (\<lambda>t. Ret (t, CORD_len s)))) (\<lambda>(s_start, slen).
         if xlen < start \<or> xlen - start < slen then Ret CORD_NOT_FOUND
         else let start_len = min slen STR_START_MAX_LEN
              in obind (CORD_set_pos fresh_pos x start) (\<lambda>xpos.
                 obind (str_start_loop (take start_len s_start) 0 0 0 xpos) (\<lambda>(m, s_buf, x_buf, xpos).
                 str_match_loop x xlen s slen start_len m s_buf start x_buf xpos))))"

section \<open>Strings from cords\<close>

text \<open>The abstract filling: the characters written so far, and how many are wanted.\<close>

definition collect :: "(nat \<times> string) iter_fn" where
  "collect c a = (case a of (n, w) \<Rightarrow> (length w + 1 \<ge> n, (n, w @ [c])))"

definition fill_rel :: "(nat \<Rightarrow> char) \<Rightarrow> CORD_fill_data \<Rightarrow> nat \<times> string \<Rightarrow> bool" where
  "fill_rel buf0 d a \<longleftrightarrow> (case a of (n, w) \<Rightarrow> fd_len d = n \<and> fd_cnt d = length w
     \<and> (\<forall>j < length w. fd_buf d j = w ! j) \<and> (\<forall>j. j \<ge> max n (length w) \<longrightarrow> fd_buf d j = buf0 j))"

lemma fill_rel_step:
  "fill_rel b0 d (n, w) \<Longrightarrow> fill_rel b0 (d\<lparr>fd_buf := (fd_buf d)(length w := c), fd_cnt := length w + 1\<rparr>) (n, w @ [c])"
  by (auto simp: fill_rel_def nth_append less_Suc_eq)

lemma batched_fill_loop_rel:
  assumes "fill_rel b0 d (n, w)" "cs \<noteq> [] \<or> length w < n"
  shows "step_rel (fill_rel b0) (CORD_batched_fill_proc cs d) (iter_chars collect cs (n, w))"
  using assms
proof (induction cs arbitrary: d w)
  case Nil
  then show ?case by (auto simp: CORD_batched_fill_proc_def step_rel_def fill_rel_def)
next
  case (Cons c cs)
  have d: "fd_cnt d = length w" "fd_len d = n" using Cons.prems(1) by (auto simp: fill_rel_def)
  let ?d = "d\<lparr>fd_buf := (fd_buf d)(length w := c), fd_cnt := length w + 1\<rparr>"
  have step: "fill_rel b0 ?d (n, w @ [c])" by (rule fill_rel_step[OF Cons.prems(1)])
  show ?case
  proof (cases "length w + 1 \<ge> n")
    case True
    then show ?thesis
      using step d by (simp add: CORD_batched_fill_proc_def collect_def step_rel_def)
  next
    case False
    then have "CORD_batched_fill_proc (c # cs) d = CORD_batched_fill_proc cs ?d"
      using d by (simp add: CORD_batched_fill_proc_def split: prod.split)
    then show ?thesis using Cons.IH[OF step] False by (simp add: collect_def)
  qed
qed

lemma fill_simulates: "simulates (fill_rel b0) CORD_fill_proc (Some CORD_batched_fill_proc) collect"
proof -
  have "step_rel (fill_rel b0) (CORD_fill_proc c d) (collect c a)" if "fill_rel b0 d a" for c d a
  proof -
    obtain n w where a: "a = (n, w)" by (cases a)
    have "fd_cnt d = length w" "fd_len d = n" using that by (auto simp: fill_rel_def a)
    then show ?thesis
      using fill_rel_step[OF that[unfolded a]] by (simp add: CORD_fill_proc_def collect_def step_rel_def a Let_def)
  qed
  then show ?thesis
    using batched_fill_loop_rel by (auto simp: simulates_def)
qed

lemma iter_collect:
  "length w < n \<Longrightarrow> iter_chars collect cs (n, w) = (length w + length cs \<ge> n, (n, w @ take (n - length w) cs))"
proof (induction cs arbitrary: w)
  case (Cons c cs)
  show ?case
  proof (cases "length w + 1 \<ge> n")
    case True
    then have "n - length w = 1" using Cons.prems by simp
    then show ?thesis using True Cons.prems by (simp add: collect_def)
  next
    case False
    then have "length (w @ [c]) < n" "n - length w = Suc (n - length (w @ [c]))" by simp_all
    with False Cons.IH[OF this(1)] show ?thesis by (simp add: collect_def)
  qed
qed simp

text \<open>Filling a buffer writes the wanted characters and nothing from \<open>len\<close> on.\<close>

lemma CORD_fill_buf_spec:
  assumes "cord_ok x" "i < length (cord_chars x)" "0 < len"
  shows "\<exists>d. CORD_fill_buf x i len buf = Ret (i + len \<le> length (cord_chars x), d)
    \<and> (\<forall>j < min len (length (cord_chars x) - i). fd_buf d j = cord_chars x ! (i + j)) \<and> (\<forall>j \<ge> len. fd_buf d j = buf j)"
proof -
  let ?d = "\<lparr>fd_len = len, fd_cnt = 0, fd_buf = buf\<rparr>"
  have "fill_rel buf ?d (len, [])" by (simp add: fill_rel_def)
  from CORD_iter5_simulates[OF assms(1) fill_simulates assms(2) this] iter_collect[of "[]" len "drop i (cord_chars x)"] assms(3)
  obtain r where r: "CORD_iter5 x i CORD_fill_proc (Some CORD_batched_fill_proc) ?d = Ret r"
    "step_rel (fill_rel buf) r (len \<le> length (drop i (cord_chars x)), (len, take len (drop i (cord_chars x))))"
    by auto
  have "(len \<le> length (drop i (cord_chars x))) = (i + len \<le> length (cord_chars x))" using assms(2) by auto
  then show ?thesis
    using r assms(2) by (cases r) (auto simp: CORD_fill_buf_def step_rel_def fill_rel_def)
qed

lemma CORD_to_char_star_spec:
  assumes "cord_ok x"
  shows "CORD_to_char_star x = Ret (cord_chars x)"
proof (cases "length (cord_chars x) = 0")
  case True
  then show ?thesis using assms by (simp add: CORD_to_char_star_def CORD_len_chars cord_ok_def)
next
  case False
  from CORD_fill_buf_spec[OF assms, of 0 "length (cord_chars x)" "\<lambda>_. NUL"] False obtain d where
    d: "CORD_fill_buf x 0 (length (cord_chars x)) (\<lambda>_. NUL) = Ret (True, d)"
      "\<forall>j < length (cord_chars x). fd_buf d j = cord_chars x ! j"
    by auto
  then have "map (fd_buf d) [0 ..< length (cord_chars x)] = cord_chars x"
    by (intro nth_equalityI) auto
  then show ?thesis
    using d(1) False assms by (simp add: CORD_to_char_star_def CORD_len_chars cord_ok_def Let_def)
qed

lemma CORD_chars_spec: "cord_ok (CORD_chars c n) \<and> cord_chars (CORD_chars c n) = replicate n c"
proof -
  have "map (CORD_nul_func c) [0 ..< n] = replicate n c"
    by (rule nth_equalityI) (simp_all add: CORD_nul_func_def)
  then show ?thesis using CORD_from_fn_spec[of "CORD_nul_func c" n] by (simp add: CORD_chars_def)
qed

lemma CORD_cat_char_spec:
  assumes "cord_ok x" "length (cord_chars x) + 1 < CORD_SAFE_LEN"
  shows "\<exists>z. CORD_cat_char x c = Ret z \<and> cord_ok z \<and> cord_chars z = cord_chars x @ [c]"
  using CORD_cat_spec[OF assms(1), of "CORD_chars NUL 1"] CORD_chars_spec[of NUL 1]
    CORD_cat_char_star_spec[OF assms(1), of "[c]" 1] assms(2)
  by (auto simp: CORD_cat_char_def)

lemma catn_loop_spec:
  assumes "cord_ok x" "\<forall>y \<in> set ys. cord_ok y" "length (cord_chars x @ concat (map cord_chars ys)) < CORD_SAFE_LEN"
  shows "\<exists>z. catn_loop ys x = Ret z \<and> cord_ok z \<and> cord_chars z = cord_chars x @ concat (map cord_chars ys)"
  using assms
proof (induction ys arbitrary: x)
  case (Cons y ys)
  from CORD_cat_spec[of x y] Cons.prems obtain z where
    "CORD_cat x y = Ret z" "cord_ok z" "cord_chars z = cord_chars x @ cord_chars y" by auto
  with Cons.IH[of z] Cons.prems show ?case by simp
qed simp

text \<open>
  C33: \<open>CORD_catn\<close> concatenates its arguments in order, and \<open>CORD_cat_char\<close> appends a single character, also NUL.
\<close>

theorem CORD_catn_correct:
  assumes "\<forall>y \<in> set ys. cord_ok y" "length (concat (map cord_chars ys)) + 1 < CORD_SAFE_LEN"
  shows "\<exists>z w. CORD_catn ys = Ret z \<and> cord_ok z \<and> cord_chars z = concat (map cord_chars ys)
    \<and> CORD_cat_char z c = Ret w \<and> cord_ok w \<and> cord_chars w = cord_chars z @ [c]"
proof -
  have "cord_ok CORD_EMPTY" by (simp add: cord_ok_def CORD_MAX_DEPTH_def)
  from catn_loop_spec[OF this assms(1)] assms(2) obtain z where
    "CORD_catn ys = Ret z" "cord_ok z" "cord_chars z = concat (map cord_chars ys)" by (auto simp: CORD_catn_def)
  with CORD_cat_char_spec[of z c] assms(2) show ?thesis by auto
qed

theorem CORD_catn_correct_witness:
  "\<exists>z w. CORD_catn [CStr ''ab'', CORD_EMPTY, CStr ''c''] = Ret z \<and> cord_chars z = ''abc'' \<and> CORD_cat_char z NUL = Ret w"
  using CORD_catn_correct[of "[CStr ''ab'', CORD_EMPTY, CStr ''c'']" NUL]
  by (auto simp: cord_ok_def CORD_MAX_DEPTH_def NUL_def CORD_SAFE_LEN_def)

text \<open>
  C34: The conversions to C strings and back are inverse: \<open>CORD_to_char_star\<close> returns exactly the
  characters of a well-formed cord of any shape, \<open>CORD_to_const_char_star\<close> the same, and
  \<open>CORD_from_char_star\<close> of a string without NUL is a cord with these characters.
\<close>

theorem CORD_to_char_star_roundtrip:
  assumes "cord_ok x" "NUL \<notin> set s"
  shows "CORD_to_char_star x = Ret (cord_chars x) \<and> CORD_to_const_char_star x = Ret (cord_chars x)
    \<and> CORD_to_char_star (CORD_from_char_star s) = Ret s"
proof -
  have "CORD_to_const_char_star x = Ret (cord_chars x)"
    using CORD_to_char_star_spec[OF assms(1)] by (cases x) (simp_all add: CORD_to_const_char_star_def)
  then show ?thesis
    using CORD_to_char_star_spec CORD_from_char_star_spec[OF assms(2)] assms(1) by simp
qed

theorem CORD_to_char_star_roundtrip_witness:
  "CORD_to_char_star (Concat 1 3 5 (CStr ''abc'') (CStr ''de'')) = Ret ''abcde''
   \<and> CORD_to_char_star (CORD_from_char_star ''xyz'') = Ret ''xyz''"
  using CORD_to_char_star_roundtrip[of "Concat 1 3 5 (CStr ''abc'') (CStr ''de'')" "''xyz''"]
  by (simp add: cord_ok_def CORD_MAX_DEPTH_def NUL_def MAX_LEFT_LEN_def)

text \<open>
  \<open>CORD_fetch\<close> returns the character at a valid index, and aborts on an index at or behind the end.
\<close>

lemma CORD_fetch_correct:
  assumes "cord_ok x"
  shows "CORD_fetch x i = (if i < CORD_len x then Ret (cord_chars x ! i) else Abort ''bad index?'')"
proof -
  have l: "CORD_len x = length (cord_chars x)" using assms by (simp add: CORD_len_chars cord_ok_def)
  from CORD_set_pos_spec[OF assms, of fresh_pos i] show ?thesis
    unfolding l CORD_fetch_def
    using cursor.at_valid[of x i] CORD_pos_fetch_spec[of x i] by (cases "i < length (cord_chars x)") auto
qed

section \<open>Comparison\<close>

lemma str_cmp_eq_0: "str_cmp xs ys = 0 \<longleftrightarrow> xs = ys"
  by (induction xs ys rule: str_cmp.induct) auto

lemma str_cmp_append: "length xs = length ys \<Longrightarrow> str_cmp (xs @ us) (ys @ vs) = (if xs = ys then str_cmp us vs else str_cmp xs ys)"
  by (induction xs ys rule: list_induct2) auto

text \<open>Seven-bit characters, on which signed and unsigned comparison agree.\<close>

definition ascii :: "string \<Rightarrow> bool" where
  "ascii s \<longleftrightarrow> (\<forall>c \<in> set s. (of_char c :: nat) < 128)"

lemma ascii_take_drop: "ascii s \<Longrightarrow> ascii (take n s)" "ascii s \<Longrightarrow> ascii (drop n s)"
  by (auto simp: ascii_def dest: in_set_takeD in_set_dropD)

definition cmp_agrees :: "int \<Rightarrow> string \<Rightarrow> string \<Rightarrow> bool" where
  "cmp_agrees r u v \<longleftrightarrow> (r = 0 \<longleftrightarrow> u = v) \<and> (ascii u \<longrightarrow> ascii v \<longrightarrow> sgn r = str_cmp u v)"

lemma sgn_str_cmp: "sgn (str_cmp u v) = str_cmp u v"
  by (induction u v rule: str_cmp.induct) auto

lemma cmp_agrees_str_cmp: "cmp_agrees (str_cmp u v) u v"
  by (simp add: cmp_agrees_def str_cmp_eq_0 sgn_str_cmp)

lemma schar_nat: "schar c = (if (of_char c :: nat) \<ge> 128 then int (of_char c) - 256 else int (of_char c))"
proof -
  have "(of_char c :: int) = int (of_char c)" by (metis of_nat_of_char)
  then show ?thesis by (simp add: schar_def Let_def)
qed

lemma of_char_256: "(of_char c :: nat) < 256"
  using nat_of_char_less_256 by simp

lemma schar_inj: "schar c = schar d \<longleftrightarrow> c = d"
proof
  assume "schar c = schar d"
  then have "(of_char c :: nat) = of_char d"
    using of_char_256[of c] of_char_256[of d] unfolding schar_nat
    by (cases "128 \<le> (of_char c :: nat)"; cases "128 \<le> (of_char d :: nat)"; simp only: if_True if_False; linarith)
  then show "c = d" by simp
qed simp

lemma cmp_agrees_schar:
  assumes "c \<noteq> d"
  shows "cmp_agrees (schar c - schar d) (c # u) (d # v)"
proof -
  have "sgn (schar c - schar d) = (if (of_char c :: nat) < of_char d then -1 else 1)"
    if "(of_char c :: nat) < 128" "(of_char d :: nat) < 128"
  proof -
    have "(of_char c :: nat) \<noteq> of_char d" using assms by simp
    then show ?thesis using that by (auto simp: schar_nat sgn_if)
  qed
  then show ?thesis
    using assms schar_inj[of c d] by (auto simp: cmp_agrees_def ascii_def)
qed

lemma cmp_agrees_append:
  "length u = length v \<Longrightarrow> u = v \<Longrightarrow> cmp_agrees r us vs \<Longrightarrow> cmp_agrees r (u @ us) (v @ vs)"
  by (auto simp: cmp_agrees_def str_cmp_append ascii_def)

lemma cmp_agrees_prefix:
  "length u = length v \<Longrightarrow> u \<noteq> v \<Longrightarrow> cmp_agrees (str_cmp u v) (u @ us) (v @ vs)"
  by (auto simp: cmp_agrees_def str_cmp_append str_cmp_eq_0 sgn_str_cmp)

text \<open>A position at an index, or an invalid one when the index is past the end.\<close>

definition pos_from :: "CORD \<Rightarrow> nat \<Rightarrow> CORD_pos \<Rightarrow> bool" where
  "pos_from x i p \<longleftrightarrow> (if i < length (cord_chars x) then pos_at x i p else \<not> CORD_pos_valid p)"

lemma pos_from_valid: "pos_from x i p \<Longrightarrow> CORD_pos_valid p \<longleftrightarrow> i < length (cord_chars x)"
  using cursor.at_valid by (auto simp: pos_from_def split: if_splits)

lemma CORD_next_from: "pos_at x i p \<Longrightarrow> \<exists>p'. CORD_next p = Ret p' \<and> pos_from x (i + 1) p'"
  using CORD_next_spec unfolding pos_from_def .

lemma cached:
  assumes "pos_at x i p" "0 < n" "int n \<le> CORD_pos_chars_left p"
  shows "cur_chars p n = Ret (take n (drop i (cord_chars x)))" "\<exists>p'. CORD_pos_advance p n = Ret p' \<and> pos_from x (i + n) p'"
    "i + n \<le> length (cord_chars x)"
proof -
  have ok: "pos_ok x p" "cache_covers p" "cur_pos p = i" using assms(1) by (auto simp: pos_at_def)
  from ok(1) obtain leaf st where e: "path p (path_len p) = (leaf, st)" "is_path x (path p) (path_len p)"
    "path_len p \<le> CORD_MAX_DEPTH" "\<not> IS_CONCATENATION leaf" "st \<le> cur_pos p" "cur_pos p < st + length (cord_chars leaf)"
    "cache_ok p leaf st" "cord_ok leaf" "\<not> is_EMPTY leaf" "st + length (cord_chars leaf) \<le> length (cord_chars x)"
    "cord_chars leaf ! (cur_pos p - st) = cord_chars x ! cur_pos p"
    by (rule pos_okE)
  have wf: "cord_wf leaf" using e(8) by (simp add: cord_ok_def)
  have n: "i + n \<le> cur_end p" "cur_end p \<noteq> 0"
    using assms(2,3) ok(3) by (auto simp: CORD_pos_chars_left_def)
  have ce: "cur_end p \<le> st + length (cord_chars leaf)" "st \<le> cur_start p"
    using cache_end[OF e(7) wf e(4) n(2)] by auto
  show le: "i + n \<le> length (cord_chars x)" using n(1) ce(1) e(10) by simp
  have cs: "cur_start p \<le> i" using ok(2,3) n(2) by (simp add: cache_covers_def)
  have leaf_nth: "cord_chars leaf ! (j - st) = cord_chars x ! j" if "st \<le> j" "j < st + length (cord_chars leaf)" for j
    by (rule part_nth[OF _ that e(10)]) (use path_part[OF e(2,1)] in simp)
  have sub: "take n (drop i (cord_chars x)) = map (\<lambda>j. cord_chars x ! (i + j)) [0 ..< n]"
    using le by (intro nth_equalityI) simp_all
  show "cur_chars p n = Ret (take n (drop i (cord_chars x)))"
  proof (cases "\<exists>s. leaf = CStr s")
    case True
    then obtain s where s: "leaf = CStr s" by blast
    then have l: "cur_leaf p = LeafStr s" "cur_start p = st" "cur_end p = st + length s"
      using e(7) by (auto simp: cache_ok_def)
    have "s ! (i - cur_start p + j) = cord_chars x ! (i + j)" if "j < n" for j
      using leaf_nth[of "i + j"] s n(1) l(2,3) cs that by simp
    then show ?thesis using l s ok(3) n(1) cs le unfolding sub by (simp add: cur_chars_def)
  next
    case False
    then have f: "IS_FUNCTION leaf" using leaf_cases[OF e(4,9)] by blast
    then have l: "cur_leaf p = FunctionBuf" "cur_end p \<le> cur_start p + CORD_FUNCTION_BUF_SZ"
       "\<forall>i. cur_start p \<le> i \<longrightarrow> i < cur_end p \<longrightarrow> function_buf p ! (i - cur_start p) = node_fn leaf (i - st)"
      using e(7) n(2) by (auto simp: cache_ok_function)
    have "function_buf p ! (i - cur_start p + j) = cord_chars x ! (i + j)" if "j < n" for j
    proof -
      have "st \<le> i + j" "i + j < st + length (cord_chars leaf)" using that cs ce n(1) by simp_all
      from leaf_nth[OF this] this f show ?thesis
        using l(3)[rule_format, of "i + j"] that n(1) cs by (simp add: function_chars)
    qed
    then show ?thesis using l(1,2) ok(3) n(1) cs unfolding sub by (simp add: cur_chars_def)
  qed
  show "\<exists>p'. CORD_pos_advance p n = Ret p' \<and> pos_from x (i + n) p'"
  proof -
    let ?p = "p\<lparr>cur_pos := i + n - 1\<rparr>"
    have "pos_ok x ?p"
      by (rule pos_ok_move[OF ok(1) e(1)]) (use n ce cs e(5) ok(3) assms(2) in auto)
    moreover have "cache_covers ?p" using ok(2,3) n assms(2) by (auto simp: cache_covers_def)
    ultimately have "pos_at x (i + n - 1) ?p" by (simp add: pos_at_def)
    from CORD_next_from[OF this] assms(2) ok(3) show ?thesis by (simp add: CORD_pos_advance_def)
  qed
qed

lemma drop_nth_Cons: "i < length xs \<Longrightarrow> 0 < n \<Longrightarrow> take n (drop i xs) = xs ! i # take (n - 1) (drop (i + 1) xs)"
  by (simp add: take_Cons' flip: Cons_nth_drop_Suc)

lemma take_split: "n \<le> m \<Longrightarrow> take m xs = take n xs @ take (m - n) (drop n xs)"
  by (metis le_add_diff_inverse take_add)

lemma ncmp_loop_spec:
  assumes "pos_from x i xpos" "pos_from y j ypos"
  shows "\<exists>r. ncmp_loop len cnt xpos ypos = Ret r
    \<and> cmp_agrees r (take (len - cnt) (drop i (cord_chars x))) (take (len - cnt) (drop j (cord_chars y)))"
  using assms
proof (induction "len - cnt" arbitrary: i j cnt xpos ypos rule: less_induct)
  case less
  let ?X = "cord_chars x" and ?Y = "cord_chars y"
  note vx = pos_from_valid[OF less.prems(1)] and vy = pos_from_valid[OF less.prems(2)]
  note unf = ncmp_loop.simps[of len cnt xpos ypos]
  show ?case
  proof (cases "cnt < len \<and> i < length ?X \<and> j < length ?Y")
    case False
    then consider "\<not> cnt < len" | "cnt < len" "\<not> i < length ?X" "\<not> j < length ?Y"
      | "cnt < len" "\<not> i < length ?X" "j < length ?Y" | "cnt < len" "i < length ?X" "\<not> j < length ?Y" by blast
    then show ?thesis
    proof cases
      case 3
      then show ?thesis using unf vx vy
        by (auto simp: cmp_agrees_def drop_nth_Cons simp del: take_eq_Nil drop_eq_Nil)
    next
      case 4
      then show ?thesis using unf vx vy
        by (auto simp: cmp_agrees_def drop_nth_Cons simp del: take_eq_Nil drop_eq_Nil)
    qed (use unf vx vy in \<open>auto simp: cmp_agrees_def\<close>)
  next
    case True
    then have at: "pos_at x i xpos" "pos_at y j ypos"
      using less.prems by (simp_all add: pos_from_def)
    show ?thesis
    proof (cases "CORD_pos_chars_left xpos \<le> 0 \<or> CORD_pos_chars_left ypos \<le> 0")
      case single: True
      have f: "CORD_pos_fetch xpos = Ret (?X ! i)" "CORD_pos_fetch ypos = Ret (?Y ! j)"
        using at by (simp_all add: CORD_pos_fetch_spec)
      have hd: "take (len - cnt) (drop i ?X) = ?X ! i # take (len - (cnt + 1)) (drop (i + 1) ?X)"
        "take (len - cnt) (drop j ?Y) = ?Y ! j # take (len - (cnt + 1)) (drop (j + 1) ?Y)"
        using True by (simp_all add: drop_nth_Cons)
      show ?thesis
      proof (cases "?X ! i = ?Y ! j")
        case False
        then show ?thesis
          unfolding hd using unf True vx vy single f by (simp add: cmp_agrees_schar)
      next
        case eq: True
        from CORD_next_from[OF at(1)] CORD_next_from[OF at(2)] obtain xp yp where
          n: "CORD_next xpos = Ret xp" "pos_from x (i + 1) xp" "CORD_next ypos = Ret yp" "pos_from y (j + 1) yp"
          by blast
        have "len - (cnt + 1) < len - cnt" using True by linarith
        from less.hyps[OF this n(2,4)] obtain r where r: "ncmp_loop len (cnt + 1) xp yp = Ret r"
          "cmp_agrees r (take (len - (cnt + 1)) (drop (i + 1) ?X)) (take (len - (cnt + 1)) (drop (j + 1) ?Y))"
          by blast
        have "ncmp_loop len cnt xpos ypos = Ret r"
          using unf True vx vy single f eq n r(1) by simp
        then show ?thesis
          unfolding hd using cmp_agrees_append[of "[?X ! i]" "[?Y ! j]", OF _ _ r(2)] eq by simp
      qed
    next
      case both: False
      define avail where "avail = nat (min (CORD_pos_chars_left xpos) (CORD_pos_chars_left ypos))"
      define n where "n = (if cnt + avail > len then avail - (cnt + avail - len) else avail)"
      have n: "0 < n" "n \<le> avail" "n \<le> len - cnt" "0 < avail"
        using both True by (auto simp: n_def avail_def)
      have nx: "int n \<le> CORD_pos_chars_left xpos" and ny: "int n \<le> CORD_pos_chars_left ypos"
        using n(2) both by (auto simp: avail_def)
      note cx = cached[OF at(1) n(1) nx] and cy = cached[OF at(2) n(1) ny]
      let ?u = "take n (drop i ?X)" and ?v = "take n (drop j ?Y)"
      have len: "length ?u = length ?v" using cx(3) cy(3) by simp
      have split: "take (len - cnt) (drop i ?X) = ?u @ take (len - cnt - n) (drop (i + n) ?X)"
        "take (len - cnt) (drop j ?Y) = ?v @ take (len - cnt - n) (drop (j + n) ?Y)"
        using take_split[OF n(3), of "drop i ?X"] take_split[OF n(3), of "drop j ?Y"]
        by (simp_all only: drop_drop add.commute[of n])
      have step: "ncmp_loop len cnt xpos ypos =
         (if ?u \<noteq> ?v then Ret (str_cmp ?u ?v)
          else obind (CORD_pos_advance xpos n) (\<lambda>xpos. obind (CORD_pos_advance ypos n) (\<lambda>ypos.
                 ncmp_loop len (cnt + avail) xpos ypos)))"
        using unf[folded avail_def] True vx vy both cx(1) cy(1)
        by (simp add: Let_def str_cmp_eq_0 flip: n_def)
      show ?thesis
      proof (cases "?u = ?v")
        case False
        then show ?thesis
          unfolding split using cmp_agrees_prefix[OF len False] step by simp
      next
        case eq: True
        from cx(2) cy(2) obtain xp yp where
          a: "CORD_pos_advance xpos n = Ret xp" "pos_from x (i + n) xp" "CORD_pos_advance ypos n = Ret yp" "pos_from y (j + n) yp"
          by blast
        have "len - (cnt + avail) < len - cnt" using True n(4) by linarith
        from less.hyps[OF this a(2,4)] obtain r where r: "ncmp_loop len (cnt + avail) xp yp = Ret r"
          "cmp_agrees r (take (len - (cnt + avail)) (drop (i + n) ?X)) (take (len - (cnt + avail)) (drop (j + n) ?Y))"
          by blast
        have "len - (cnt + avail) = len - cnt - n" by (auto simp: n_def)
        with r(2) cmp_agrees_append[OF len eq] have "cmp_agrees r (take (len - cnt) (drop i ?X)) (take (len - cnt) (drop j ?Y))"
          unfolding split by simp
        moreover have "ncmp_loop len cnt xpos ypos = Ret r"
          unfolding step using eq a(1,3) r(1) by (simp only: not_True_eq_False if_False obind.simps simp_thms)
        ultimately show ?thesis by blast
      qed
    qed
  qed
qed

lemma ncmp_positions_spec:
  assumes "cord_ok x" "cord_ok y"
  shows "\<exists>r. ncmp_positions x i y j len = Ret r
    \<and> cmp_agrees r (take len (drop i (cord_chars x))) (take len (drop j (cord_chars y)))"
proof -
  from CORD_set_pos_spec[OF assms(1), of fresh_pos i] obtain xp where
    xp: "CORD_set_pos fresh_pos x i = Ret xp" "pos_from x i xp" unfolding pos_from_def by blast
  from CORD_set_pos_spec[OF assms(2), of fresh_pos j] obtain yp where
    yp: "CORD_set_pos fresh_pos y j = Ret yp" "pos_from y j yp" unfolding pos_from_def by blast
  from ncmp_loop_spec[OF xp(2) yp(2), of len 0] xp(1) yp(1) show ?thesis
    by (simp add: ncmp_positions_def)
qed

lemma CORD_ncmp_spec:
  assumes "cord_ok x" "cord_ok y" "i \<le> length (cord_chars x)" "j \<le> length (cord_chars y)"
    and "i = 0 \<and> j = 0 \<or> \<not> is_EMPTY x \<and> \<not> is_EMPTY y"
  shows "\<exists>r. CORD_ncmp x i y j len = Ret r
    \<and> cmp_agrees r (take len (drop i (cord_chars x))) (take len (drop j (cord_chars y)))"
proof (cases "len = 0 \<or> is_EMPTY x \<or> is_EMPTY y")
  case True
  have "cord_wf x" "cord_wf y" using assms by (auto simp: cord_ok_def)
  then have ne: "cord_chars x = [] \<longleftrightarrow> is_EMPTY x" "cord_chars y = [] \<longleftrightarrow> is_EMPTY y" using chars_nonempty by auto
  show ?thesis
    using True assms(5) ne
    by (cases "cord_chars x"; cases "cord_chars y"; cases len) (auto simp: CORD_ncmp_def cmp_agrees_def)
next
  case False
  show ?thesis
  proof (cases "\<exists>s t. x = CStr s \<and> y = CStr t")
    case True
    then show ?thesis
      using False assms(3,4) by (auto simp: CORD_ncmp_def cmp_agrees_str_cmp)
  next
    case ns: False
    then have "CORD_ncmp x i y j len = ncmp_positions x i y j len"
      using False by (cases x; cases y) (auto simp: CORD_ncmp_def)
    then show ?thesis using ncmp_positions_spec[OF assms(1,2)] by simp
  qed
qed

text \<open>
  C35: \<open>CORD_ncmp\<close> compares at most \<open>len\<close> characters of two cords from in-range start indices: its result
  is 0 exactly when the two character sequences are equal, and for seven-bit characters its sign is
  that of the lexicographic comparison, whatever the shapes of the cords.
\<close>

theorem CORD_ncmp_correct:
  assumes "cord_ok x" "cord_ok y" "x_start \<le> CORD_len x" "y_start \<le> CORD_len y"
    and "x_start = 0 \<and> y_start = 0 \<or> \<not> is_EMPTY x \<and> \<not> is_EMPTY y"
  shows "\<exists>r. CORD_ncmp x x_start y y_start len = Ret r
    \<and> cmp_agrees r (take len (drop x_start (cord_chars x))) (take len (drop y_start (cord_chars y)))"
  using CORD_ncmp_spec[OF assms(1,2) _ _ assms(5)] assms(1-4) by (simp add: cord_ok_def CORD_len_chars)

theorem CORD_ncmp_correct_witness:
  "\<exists>r. CORD_ncmp (Concat 1 3 5 (CStr ''abc'') (CStr ''de'')) 1 (CStr ''zbcx'') 1 3 = Ret r \<and> sgn r = -1"
  using CORD_ncmp_correct[of "Concat 1 3 5 (CStr ''abc'') (CStr ''de'')" "CStr ''zbcx''" 1 1 3]
  by (auto simp: cord_ok_def CORD_MAX_DEPTH_def NUL_def MAX_LEFT_LEN_def CORD_len_def cmp_agrees_def ascii_def of_char_def)

text \<open>
  With characters above 127 the order depends on the representation: the one-character cord
  of byte 128 is greater than the string \<open>a\<close> as a string, and smaller as a function node.
\<close>

lemma CORD_cmp_sign_depends_on_shape:
  "CORD_cmp (CStr [CHR 0x80]) (CStr ''a'') = Ret 1
   \<and> (\<exists>r. CORD_cmp (Func 1 (\<lambda>_. CHR 0x80)) (CStr ''a'') = Ret r \<and> r < 0)"
  by (simp add: CORD_cmp_def CORD_ncmp_def ncmp_positions_def CORD_set_pos_def CORD_extend_path_def fresh_pos_def pos_ex_def
      ncmp_loop.simps CORD_pos_valid_def CORD_POS_INVALID_def CORD_pos_chars_left_def CORD_pos_fetch_def
      CORD__pos_fetch_def read_leaf_def Let_def schar_nat of_char_def)

section \<open>Searching for a character\<close>

lemma size_add_add: "size_add (size_add a b) c = size_add a (b + c)"
  by (simp add: size_add_def mod_simps add.assoc)

lemma size_add_less: "size_add a b < 2 ^ 64"
  by (simp add: size_add_def)

lemma size_add_0: "a < 2 ^ 64 \<Longrightarrow> size_add a 0 = a"
  by (simp add: size_add_def)

lemma iter_chr:
  "pos < 2 ^ 64 \<Longrightarrow> iter_chars (CORD_chr_proc c) cs pos = (c \<in> set cs, size_add pos (length (takeWhile (\<lambda>d. d \<noteq> c) cs)))"
proof (induction cs arbitrary: pos)
  case (Cons d cs)
  then show ?case
    using Cons.IH[OF size_add_less] by (simp add: CORD_chr_proc_def size_add_add size_add_0)
qed (simp add: size_add_0)

lemma strchr_takeWhile:
  "c \<noteq> NUL \<Longrightarrow> strchr s c = (if c \<in> set s then Some (length (takeWhile (\<lambda>d. d \<noteq> c) s)) else None)"
  by (induction s) auto

lemma takeWhile_all: "c \<notin> set s \<Longrightarrow> takeWhile (\<lambda>d. d \<noteq> c) s = s"
  by (induction s) auto

lemma takeWhile_shorter: "c \<in> set s \<Longrightarrow> length (takeWhile (\<lambda>d. d \<noteq> c) s) < length s"
  by (induction s) auto

lemma chr_simulates:
  assumes "c \<noteq> NUL"
  shows "simulates (\<lambda>s a. s = a \<and> a < 2 ^ 64) (CORD_chr_proc c) (Some (CORD_batched_chr_proc c)) (CORD_chr_proc c)"
  using assms size_add_less
  by (auto simp: simulates_def step_rel_def iter_chr CORD_batched_chr_proc_def strchr_takeWhile takeWhile_all)
    (auto simp: CORD_chr_proc_def)

text \<open>The first index at or behind \<open>i\<close>, or the last one at or before it, with a character.\<close>

definition first_index :: "string \<Rightarrow> nat \<Rightarrow> char \<Rightarrow> nat option \<Rightarrow> bool" where
  "first_index s i c r \<longleftrightarrow> (case r of
     Some k \<Rightarrow> i \<le> k \<and> k < length s \<and> s ! k = c \<and> (\<forall>j. i \<le> j \<and> j < k \<longrightarrow> s ! j \<noteq> c)
   | None \<Rightarrow> \<forall>j. i \<le> j \<and> j < length s \<longrightarrow> s ! j \<noteq> c)"

definition last_index :: "string \<Rightarrow> nat \<Rightarrow> char \<Rightarrow> nat option \<Rightarrow> bool" where
  "last_index s i c r \<longleftrightarrow> (case r of
     Some k \<Rightarrow> k \<le> i \<and> s ! k = c \<and> (\<forall>j. k < j \<and> j \<le> i \<longrightarrow> s ! j \<noteq> c)
   | None \<Rightarrow> \<forall>j. j \<le> i \<longrightarrow> s ! j \<noteq> c)"

definition index_or :: "nat option \<Rightarrow> nat" where
  "index_or r = (case r of Some k \<Rightarrow> k | None \<Rightarrow> CORD_NOT_FOUND)"

lemma CORD_chr_spec:
  assumes "cord_ok x" "i < length (cord_chars x)" "length (cord_chars x) < 2 ^ 64" "c \<noteq> NUL"
  shows "\<exists>r. CORD_chr x i c = Ret (index_or r) \<and> first_index (cord_chars x) i c r"
proof -
  let ?ys = "drop i (cord_chars x)"
  let ?k = "length (takeWhile (\<lambda>d. d \<noteq> c) ?ys)"
  have i: "i < 2 ^ 64" using assms(2,3) by simp
  obtain p where p: "CORD_iter5 x i (CORD_chr_proc c) (Some (CORD_batched_chr_proc c)) i = Ret p"
     "p = (c \<in> set ?ys, size_add i ?k)"
    using CORD_iter5_simulates[OF assms(1) chr_simulates[OF assms(4)] assms(2), of i i] i
    by (auto simp: step_rel_def iter_chr prod_eq_iff)
  show ?thesis
  proof (cases "c \<in> set ?ys")
    case True
    then have k: "?k < length ?ys" "?ys ! ?k = c"
      using nth_length_takeWhile[of "\<lambda>d. d \<noteq> c" ?ys] takeWhile_shorter[OF True] by auto
    then have "size_add i ?k = i + ?k" using assms(3) by (simp add: size_add_small)
    moreover have "\<forall>j. i \<le> j \<and> j < i + ?k \<longrightarrow> cord_chars x ! j \<noteq> c"
    proof (intro allI impI)
      fix j assume "i \<le> j \<and> j < i + ?k"
      then have "j - i < ?k" "?ys ! (j - i) = cord_chars x ! j" using k(1) assms(2) by auto
      then show "cord_chars x ! j \<noteq> c"
        using nth_mem[of "j - i" "takeWhile (\<lambda>d. d \<noteq> c) ?ys"] takeWhile_nth[of "j - i" "\<lambda>d. d \<noteq> c" ?ys]
        by (metis (mono_tags, lifting) set_takeWhileD)
    qed
    ultimately show ?thesis
      using p True k assms(2)
      by (intro exI[of _ "Some (i + ?k)"]) (auto simp: CORD_chr_def index_or_def first_index_def)
  next
    case False
    have "cord_chars x ! j \<noteq> c" if "i \<le> j" "j < length (cord_chars x)" for j
      using False that nth_mem[of "j - i" ?ys] by auto
    then show ?thesis
      using p False by (intro exI[of _ None]) (auto simp: CORD_chr_def index_or_def first_index_def)
  qed
qed

lemma iter_rchr:
  assumes "i < length s" "length s < 2 ^ 64"
  shows "\<exists>b p. iter_chars (CORD_rchr_proc c) (rev (take (i + 1) s)) i = (b, p)
    \<and> last_index s i c (if b then Some p else None)"
  using assms
proof (induction i)
  case 0
  then have "take (0 + 1) s = [s ! 0]" by (cases s) auto
  then show ?case by (auto simp: CORD_rchr_proc_def last_index_def)
next
  case (Suc i)
  have t: "rev (take (Suc i + 1) s) = s ! Suc i # rev (take (i + 1) s)"
    using Suc.prems(1) by (simp add: take_Suc_conv_app_nth)
  show ?case
  proof (cases "s ! Suc i = c")
    case True
    then have "iter_chars (CORD_rchr_proc c) (rev (take (Suc i + 1) s)) (Suc i) = (True, Suc i)"
      unfolding t by (simp add: CORD_rchr_proc_def)
    moreover have "last_index s (Suc i) c (if True then Some (Suc i) else None)" using True by (auto simp: last_index_def)
    ultimately show ?thesis by blast
  next
    case False
    have "size_add (Suc i) (2 ^ 64 - 1) = i"
      using Suc.prems by (simp add: size_add_def)
    then have "iter_chars (CORD_rchr_proc c) (rev (take (Suc i + 1) s)) (Suc i) = iter_chars (CORD_rchr_proc c) (rev (take (i + 1) s)) i"
      unfolding t using False by (simp add: CORD_rchr_proc_def)
    moreover obtain b p where "iter_chars (CORD_rchr_proc c) (rev (take (i + 1) s)) i = (b, p)"
      "last_index s i c (if b then Some p else None)"
      using Suc.IH Suc.prems by auto
    moreover have "last_index s (Suc i) c (if b then Some p else None)"
      using \<open>last_index s i c _\<close> False by (cases b) (auto simp: last_index_def le_Suc_eq)
    ultimately show ?thesis by metis
  qed
qed

text \<open>
  C36: \<open>CORD_chr\<close> returns the index of the first occurrence of a character other than NUL at or behind
  a valid start index, and \<open>CORD_rchr\<close> that of the last occurrence of any character at or before it;
  both return \<open>CORD_NOT_FOUND\<close> exactly when there is none.
\<close>

theorem CORD_chr_rchr_correct:
  assumes "cord_ok x" "i < CORD_len x" "CORD_len x < 2 ^ 64"
  shows "(c = NUL \<or> (\<exists>r. CORD_chr x i c = Ret (index_or r) \<and> first_index (cord_chars x) i c r))
    \<and> (\<exists>r. CORD_rchr x i c = Ret (index_or r) \<and> last_index (cord_chars x) i c r)"
proof -
  have len: "i < length (cord_chars x)" "length (cord_chars x) < 2 ^ 64"
    using assms by (simp_all add: cord_ok_def CORD_len_chars)
  from iter_rchr[OF len] obtain b p where
    "iter_chars (CORD_rchr_proc c) (rev (take (i + 1) (cord_chars x))) i = (b, p)"
    "last_index (cord_chars x) i c (if b then Some p else None)"
    by blast
  then have "CORD_rchr x i c = Ret (index_or (if b then Some p else None))"
    by (simp add: CORD_rchr_def index_or_def CORD_riter4_spec[OF assms(1) len(1)])
  then show ?thesis
    using CORD_chr_spec[OF assms(1) len] \<open>last_index _ _ _ _\<close> by blast
qed

theorem CORD_chr_rchr_correct_witness:
  "\<exists>r. CORD_chr (Concat 1 3 5 (CStr ''abc'') (CStr ''de'')) 1 (CHR ''d'') = Ret (index_or r)
     \<and> first_index ''abcde'' 1 (CHR ''d'') r"
  using CORD_chr_rchr_correct[of "Concat 1 3 5 (CStr ''abc'') (CStr ''de'')" 1 "CHR ''d''"]
  by (simp add: cord_ok_def CORD_MAX_DEPTH_def NUL_def MAX_LEFT_LEN_def CORD_len_def)

text \<open>
  Searching for NUL in a cord without NUL characters: \<open>strchr\<close> finds the terminator of a string leaf,
  so \<open>CORD_chr\<close> reports the end of the first leaf instead of \<open>CORD_NOT_FOUND\<close>.
\<close>

lemma CORD_chr_finds_terminator:
  "CORD_chr (Concat 1 3 5 (CStr ''abc'') (CStr ''de'')) 0 NUL = Ret 3 \<and> NUL \<notin> set (cord_chars (Concat 1 3 5 (CStr ''abc'') (CStr ''de'')))"
  by (simp add: CORD_chr_def CORD_batched_chr_proc_def size_add_def NUL_def)

section \<open>Searching for a cord\<close>

lemma bit_char_word: "bit (word_of_nat (of_char c) :: 64 word) n \<longleftrightarrow> n < 8 \<and> bit (of_char c :: nat) n"
proof -
  have "\<not> bit (of_char c :: nat) n" if "8 \<le> n"
  proof -
    have "(of_char c :: nat) < 2 ^ n"
      using less_le_trans[OF of_char_256[of c], of "2 ^ n"] power_increasing[of 8 n "2 :: nat"] that by simp
    then show ?thesis by (simp add: bit_iff_odd)
  qed
  then show ?thesis by (cases "n < 8") (auto simp: bit_of_nat_iff)
qed

lemma bit_shift_in: "n < 64 \<Longrightarrow> bit (shift_in w c) n \<longleftrightarrow> (if n < 8 then bit (of_char c :: nat) n else bit w (n - 8))"
  by (auto simp: shift_in_def bit_or_iff bit_push_bit_iff bit_char_word)

lemma bit_pack:
  "n < 64 \<Longrightarrow> bit (foldl shift_in 0 cs) n \<longleftrightarrow> n div 8 < length cs \<and> bit (of_char (rev cs ! (n div 8)) :: nat) (n mod 8)"
proof (induction cs arbitrary: n rule: rev_induct)
  case (snoc c cs)
  show ?case
  proof (cases "n < 8")
    case False
    then have "n div 8 = Suc ((n - 8) div 8)" "n mod 8 = (n - 8) mod 8"
      by (simp_all add: le_div_geq le_mod_geq)
    then show ?thesis using False snoc.prems snoc.IH[of "n - 8"] by (simp add: bit_shift_in)
  qed (use snoc.prems in \<open>simp add: bit_shift_in\<close>)
qed simp

lemma bit_mask_loop: "n < 64 \<Longrightarrow> bit (foldl (\<lambda>m (_ :: char). push_bit 8 m OR 0xff) (0 :: 64 word) cs) n \<longleftrightarrow> n div 8 < length cs"
proof (induction cs arbitrary: n rule: rev_induct)
  case (snoc c cs)
  have ff: "bit (0xff :: 64 word) n \<longleftrightarrow> n < 8"
  proof -
    have "(0xff :: 64 word) = mask 8" by (simp add: mask_eq_exp_minus_1)
    then show ?thesis using snoc.prems by (simp only: bit_mask_iff) simp
  qed
  show ?case
  proof (cases "n < 8")
    case False
    then have "n div 8 = Suc ((n - 8) div 8)" by (simp add: le_div_geq)
    then show ?thesis using False snoc.prems snoc.IH[of "n - 8"] ff
      by (simp add: bit_or_iff bit_push_bit_iff)
  qed (use snoc.prems ff in \<open>simp add: bit_or_iff\<close>)
qed simp

lemma char_eq_bits: "(\<forall>b < 8. bit (of_char c :: nat) b = bit (of_char d :: nat) b) \<Longrightarrow> c = d"
proof -
  assume a: "\<forall>b < 8. bit (of_char c :: nat) b = bit (of_char d :: nat) b"
  have "(word_of_nat (of_char c) :: 64 word) = word_of_nat (of_char d)"
    by (rule bit_word_eqI) (use a in \<open>auto simp: bit_char_word\<close>)
  then have "unat (word_of_nat (of_char c) :: 64 word) = unat (word_of_nat (of_char d) :: 64 word)" by simp
  then have "(of_char c :: nat) = of_char d"
    using of_char_256[of c] of_char_256[of d] by (simp add: unat_of_nat)
  then show "c = d" by simp
qed

text \<open>The low characters of the rolling buffer equal the packed string exactly when the last characters do.\<close>

lemma window_match:
  assumes "length vs = k" "k \<le> 8" "k \<le> length us" "length ws = k"
  shows "foldl shift_in 0 us AND foldl (\<lambda>m (_ :: char). push_bit 8 m OR 0xff) 0 ws = foldl shift_in 0 vs
    \<longleftrightarrow> drop (length us - k) us = vs" (is "?l \<longleftrightarrow> ?r")
proof
  assume ?l
  have "rev us ! i = rev vs ! i" if "i < k" for i
  proof (rule char_eq_bits, intro allI impI)
    fix b :: nat assume b: "b < 8"
    let ?n = "i * 8 + b"
    have n: "?n < 64" "?n div 8 = i" "?n mod 8 = b" using that b assms(2) by auto
    from \<open>?l\<close> have "bit (foldl shift_in 0 us AND foldl (\<lambda>m (_ :: char). push_bit 8 m OR 0xff) 0 ws) ?n = bit (foldl shift_in 0 vs) ?n"
      by simp
    then show "bit (of_char (rev us ! i) :: nat) b = bit (of_char (rev vs ! i) :: nat) b"
      using n(2,3) that assms by (simp add: bit_and_iff bit_pack[OF n(1)] bit_mask_loop[OF n(1)])
  qed
  then have "take k (rev us) = rev vs"
    using assms by (intro nth_equalityI) simp_all
  then have "rev (take k (rev us)) = vs" by simp
  then show ?r by (simp add: rev_take)
next
  assume ?r
  then have t: "take k (rev us) = rev vs" using assms(3) rev_drop[of "length us - k" us] by simp
  show ?l
  proof (rule bit_word_eqI)
    fix n assume "n < LENGTH(64)"
    then have n: "n < 64" by simp
    have "rev us ! (n div 8) = rev vs ! (n div 8)" if "n div 8 < k"
      using that t by (metis nth_take)
    then show "bit (foldl shift_in 0 us AND foldl (\<lambda>m (_ :: char). push_bit 8 m OR 0xff) 0 ws) n = bit (foldl shift_in 0 vs) n"
      using assms by (auto simp: bit_and_iff bit_pack[OF n] bit_mask_loop[OF n])
  qed
qed

lemma str_start_loop_spec:
  assumes "pos_from x i p" "i + length cs \<le> length (cord_chars x)"
  shows "\<exists>p'. str_start_loop cs m s xb p =
      Ret (foldl (\<lambda>m _. push_bit 8 m OR 0xff) m cs, foldl shift_in s cs, foldl shift_in xb (take (length cs) (drop i (cord_chars x))), p')
    \<and> pos_from x (i + length cs) p'"
  using assms
proof (induction cs arbitrary: m s xb p i)
  case (Cons c cs)
  then have at: "pos_at x i p" by (simp add: pos_from_def)
  from CORD_next_from[OF at] obtain p' where p': "CORD_next p = Ret p'" "pos_from x (i + 1) p'" by blast
  have t: "take (length (c # cs)) (drop i (cord_chars x)) = cord_chars x ! i # take (length cs) (drop (i + 1) (cord_chars x))"
    using Cons.prems(2) drop_nth_Cons[of i "cord_chars x" "length (c # cs)"] by simp
  have "i + 1 + length cs \<le> length (cord_chars x)" using Cons.prems(2) by simp
  from Cons.IH[OF p'(2) this, of "push_bit 8 m OR 0xff" "shift_in s c" "shift_in xb (cord_chars x ! i)"] show ?case
    unfolding t using p'(1) CORD_pos_fetch_spec[OF at] by simp
qed simp

text \<open>Where a string occurs in another one, and the first such index from a start index on.\<close>

definition occurs_at :: "string \<Rightarrow> string \<Rightarrow> nat \<Rightarrow> bool" where
  "occurs_at xs s m \<longleftrightarrow> m + length s \<le> length xs \<and> take (length s) (drop m xs) = s"

definition first_occurrence :: "string \<Rightarrow> string \<Rightarrow> nat \<Rightarrow> nat option \<Rightarrow> bool" where
  "first_occurrence xs s start r \<longleftrightarrow> (case r of
     Some k \<Rightarrow> start \<le> k \<and> occurs_at xs s k \<and> (\<forall>j. start \<le> j \<and> j < k \<longrightarrow> \<not> occurs_at xs s j)
   | None \<Rightarrow> \<forall>j \<ge> start. \<not> occurs_at xs s j)"

lemma occurs_at_split:
  assumes "m + length s \<le> length xs" "k \<le> length s"
  shows "occurs_at xs s m \<longleftrightarrow> take k (drop m xs) = take k s \<and> take (length s - k) (drop (m + k) xs) = drop k s"
proof -
  have "take (length s) (drop m xs) = take k (drop m xs) @ take (length s - k) (drop (m + k) xs)"
    using take_split[OF assms(2), of "drop m xs"] by (simp add: add.commute)
  moreover have "s = take k s @ drop k s" by simp
  moreover have "length (take k (drop m xs)) = length (take k s)" using assms by simp
  ultimately show ?thesis
    using assms(1) unfolding occurs_at_def by (metis append_eq_append_conv)
qed

lemma str_match_loop_spec:
  assumes ok: "cord_ok x" "cord_ok s" "\<not> is_EMPTY s"
    and len: "k = min (length (cord_chars s)) 8" "start + length (cord_chars s) \<le> length (cord_chars x)"
    and pos: "start \<le> m" "m \<le> length (cord_chars x) - length (cord_chars s)" "pos_from x (m + k) xpos"
    and buf: "x_buf = foldl shift_in 0 (take (m - start + k) (drop start (cord_chars x)))"
      "msk = foldl (\<lambda>m _. push_bit 8 m OR 0xff) 0 (take k (cord_chars s))" "s_buf = foldl shift_in 0 (take k (cord_chars s))"
    and none: "\<forall>j. start \<le> j \<and> j < m \<longrightarrow> \<not> occurs_at (cord_chars x) (cord_chars s) j"
  shows "\<exists>r. str_match_loop x (length (cord_chars x)) s (length (cord_chars s)) k msk s_buf m x_buf xpos = Ret (index_or r)
    \<and> first_occurrence (cord_chars x) (cord_chars s) start r"
  using pos buf(1) none
proof (induction "length (cord_chars x) - length (cord_chars s) - m" arbitrary: m x_buf xpos rule: less_induct)
  case less
  let ?X = "cord_chars x" and ?S = "cord_chars s"
  have wf: "cord_wf x" "cord_wf s" using ok by (simp_all add: cord_ok_def)
  have k: "0 < k" "k \<le> length ?S" "k \<le> 8" using len(1) chars_nonempty[OF wf(2)] ok(3) by auto
  have mS: "m + length ?S \<le> length ?X" using less.prems(2) len(2) by simp
  let ?us = "take (m - start + k) (drop start ?X)"
  have us: "drop (length ?us - k) ?us = take k (drop m ?X)" "length ?us \<ge> k"
  proof -
    have l: "length ?us = m - start + k" using mS k(2) less.prems(1) by simp
    then show "length ?us \<ge> k" by simp
    have "drop (m - start) ?us = take k (drop (m - start) (drop start ?X))" by (simp add: drop_take)
    then show "drop (length ?us - k) ?us = take k (drop m ?X)" using l less.prems(1) by simp
  qed
  have win: "x_buf AND msk = s_buf \<longleftrightarrow> take k (drop m ?X) = take k ?S"
    unfolding less.prems(4) buf(2,3)
    using window_match[of "take k ?S" k ?us "take k ?S"] k us by simp
  have nex: "\<not> is_EMPTY x" using chars_nonempty[OF wf(1)] mS k(1,2) by auto
  have "m + k \<le> length ?X" using mS k(2) by simp
  from CORD_ncmp_spec[OF ok(1,2) this k(2), of "length ?S - k"] nex ok(3) obtain r where
    r: "CORD_ncmp x (m + k) s k (length ?S - k) = Ret r" "r = 0 \<longleftrightarrow> take (length ?S - k) (drop (m + k) ?X) = drop k ?S"
    by (auto simp: cmp_agrees_def)
  define matched where "matched \<longleftrightarrow> occurs_at ?X ?S m"
  have "(if x_buf AND msk = s_buf then if length ?S = k then Ret True
          else obind (CORD_ncmp x (m + k) s k (length ?S - k)) (\<lambda>r. Ret (r = 0)) else Ret False) = Ret matched"
    using win r occurs_at_split[OF mS k(2)] by (auto simp: matched_def)
  then have unf: "str_match_loop x (length ?X) s (length ?S) k msk s_buf m x_buf xpos =
      (if matched then Ret m
       else if m = length ?X - length ?S then Ret CORD_NOT_FOUND
       else if m > length ?X - length ?S then Stuck
       else obind (CORD_pos_fetch xpos) (\<lambda>d. obind (CORD_next xpos) (\<lambda>xpos.
              str_match_loop x (length ?X) s (length ?S) k msk s_buf (m + 1) (shift_in x_buf d) xpos)))"
    by (subst str_match_loop.simps) simp
  consider (found) "matched" | (last) "\<not> matched" "m = length ?X - length ?S" | (more) "\<not> matched" "m < length ?X - length ?S"
    using less.prems(2) by linarith
  then show ?case
  proof cases
    case found
    then have "first_occurrence ?X ?S start (Some m)"
      using less.prems(1,5) by (simp add: first_occurrence_def matched_def)
    then show ?thesis unfolding unf using found by (intro exI[of _ "Some m"]) (simp add: index_or_def)
  next
    case last
    have "\<not> occurs_at ?X ?S j" if "start \<le> j" for j
      using last less.prems(5) that by (cases "j < m"; cases "j = m") (auto simp: matched_def occurs_at_def)
    then have "first_occurrence ?X ?S start None" by (simp add: first_occurrence_def)
    then show ?thesis unfolding unf using last by (intro exI[of _ None]) (simp add: index_or_def)
  next
    case more
    then have at: "pos_at x (m + k) xpos" using less.prems(3) mS k(2) by (simp add: pos_from_def)
    from CORD_next_from[OF at] obtain p' where p': "CORD_next xpos = Ret p'" "pos_from x (m + 1 + k) p'" by (auto simp: ac_simps)
    have d: "length ?X - length ?S - (m + 1) < length ?X - length ?S - m" "start \<le> m + 1" "m + 1 \<le> length ?X - length ?S"
      using more(2) less.prems(1) by linarith+
    have "m + k < length ?X" using more(2) k(2) by simp
    then have "take (m + 1 - start + k) (drop start ?X) = ?us @ [?X ! (m + k)]"
      using less.prems(1) by (simp add: Suc_diff_le take_Suc_conv_app_nth)
    then have xb: "shift_in x_buf (?X ! (m + k)) = foldl shift_in 0 (take (m + 1 - start + k) (drop start ?X))"
      unfolding less.prems(4) by simp
    have "\<forall>j. start \<le> j \<and> j < m + 1 \<longrightarrow> \<not> occurs_at ?X ?S j"
      using less.prems(5) more(1) by (auto simp: matched_def less_Suc_eq)
    from less.hyps[OF d p'(2) xb this]
    show ?thesis
      unfolding unf using more CORD_pos_fetch_spec[OF at] p'(1) by simp
  qed
qed

text \<open>
  C37: \<open>CORD_str\<close> returns the first index at or behind \<open>start\<close> at which the non-empty cord \<open>s\<close> occurs in \<open>x\<close>,
  and \<open>CORD_NOT_FOUND\<close> exactly when there is none: the comparison of the rolling eight-character
  buffers together with \<open>CORD_ncmp\<close> on the rest implements the naive search.
\<close>

theorem CORD_str_correct:
  assumes "cord_ok x" "cord_ok s" "\<not> is_EMPTY s" "CORD_len s < CORD_SAFE_LEN"
  shows "\<exists>r. CORD_str x start s = Ret (index_or r) \<and> first_occurrence (cord_chars x) (cord_chars s) start r"
proof -
  let ?X = "cord_chars x" and ?S = "cord_chars s"
  have wf: "cord_wf x" "cord_wf s" using assms by (simp_all add: cord_ok_def)
  have lens: "CORD_len x = length ?X" "CORD_len s = length ?S" using wf by (simp_all add: CORD_len_chars)
  obtain t where t: "(case s of CStr t \<Rightarrow> Ret (t, length t)
              | _ \<Rightarrow> obind (CORD_substr s 0 STR_START_MAX_LEN) (\<lambda>u.
                     obind (CORD_to_char_star u) (\<lambda>t. Ret (t, CORD_len s)))) = Ret (t, length ?S)" "take 8 t = take 8 ?S"
  proof (cases "\<exists>t. s = CStr t")
    case True
    then show ?thesis using that by auto
  next
    case False
    from CORD_substr_spec[OF assms(2), of 0 8] assms(4) lens obtain u where
      "CORD_substr s 0 8 = Ret u" "cord_ok u" "cord_chars u = take 8 ?S" by auto
    then have u: "obind (CORD_substr s 0 STR_START_MAX_LEN) (\<lambda>u. obind (CORD_to_char_star u) (\<lambda>t. Ret (t, CORD_len s)))
        = Ret (take 8 ?S, length ?S)"
      using CORD_to_char_star_spec[of u] lens(2) by (simp add: STR_START_MAX_LEN_def)
    have "(case s of CStr t \<Rightarrow> Ret (t, length t)
              | _ \<Rightarrow> obind (CORD_substr s 0 STR_START_MAX_LEN) (\<lambda>u.
                     obind (CORD_to_char_star u) (\<lambda>t. Ret (t, CORD_len s)))) = Ret (take 8 ?S, length ?S)"
      using False unfolding u by (cases s) simp_all
    from that[OF this] show ?thesis by simp
  qed
  let ?k = "min (length ?S) 8"
  have tk: "take ?k t = take ?k ?S" using t(2) by (metis min.commute take_take)
  show ?thesis
  proof (cases "length ?X < start \<or> length ?X - start < length ?S")
    case True
    then have "first_occurrence ?X ?S start None"
      by (auto simp: first_occurrence_def occurs_at_def)
    moreover have "CORD_str x start s = Ret CORD_NOT_FOUND"
      using True assms(3) t(1) lens by (simp add: CORD_str_def Let_def)
    ultimately show ?thesis by (intro exI[of _ None]) (simp add: index_or_def)
  next
    case False
    then have le: "start + length ?S \<le> length ?X" by linarith
    from CORD_set_pos_spec[OF assms(1), of fresh_pos start] obtain p where
      p: "CORD_set_pos fresh_pos x start = Ret p" "pos_from x start p" unfolding pos_from_def by blast
    have "start + length (take ?k ?S) \<le> length ?X" using le by simp
    from str_start_loop_spec[OF p(2) this, of 0 0 0] obtain p' where
      q: "str_start_loop (take ?k ?S) 0 0 0 p = Ret (foldl (\<lambda>m _. push_bit 8 m OR 0xff) 0 (take ?k ?S),
           foldl shift_in 0 (take ?k ?S), foldl shift_in 0 (take ?k (drop start ?X)), p')" "pos_from x (start + ?k) p'"
      by auto
    have "CORD_str x start s = str_match_loop x (length ?X) s (length ?S) ?k (foldl (\<lambda>m _. push_bit 8 m OR 0xff) 0 (take ?k ?S))
       (foldl shift_in 0 (take ?k ?S)) start (foldl shift_in 0 (take ?k (drop start ?X))) p'"
      unfolding CORD_str_def Let_def STR_START_MAX_LEN_def
      using False assms(3) t(1)[unfolded STR_START_MAX_LEN_def] lens p(1) q(1) tk by simp
    moreover have "start \<le> length ?X - length ?S" "foldl shift_in 0 (take ?k (drop start ?X)) =
        foldl shift_in 0 (take (start - start + ?k) (drop start ?X))" "\<forall>j. start \<le> j \<and> j < start \<longrightarrow> \<not> occurs_at ?X ?S j"
      using le by auto
    note str_match_loop_spec[OF assms(1-3) refl le order_refl this(1) q(2) this(2) refl refl this(3)]
    ultimately show ?thesis by (simp only:)
  qed
qed

theorem CORD_str_correct_witness:
  "\<exists>r. CORD_str (Concat 1 3 5 (CStr ''abc'') (CStr ''de'')) 1 (CStr ''cd'') = Ret (index_or r)
     \<and> first_occurrence ''abcde'' ''cd'' 1 r"
  using CORD_str_correct[of "Concat 1 3 5 (CStr ''abc'') (CStr ''de'')" "CStr ''cd''" 1]
  by (simp add: cord_ok_def CORD_MAX_DEPTH_def NUL_def MAX_LEFT_LEN_def CORD_len_def CORD_SAFE_LEN_def)

end
