(* ===== verification/Cord_File.thy ===== *)
theory Cord_File
  imports Cord_Extra
begin

text \<open>
  Extensible cords (\<^verbatim>\<open>include/gc/ec.h\<close>), cords read from files eagerly or lazily through a
  direct-mapped cache of file lines, and writing a cord (\<^verbatim>\<open>cord/cordxtra.c\<close>). A file is its contents;
  a stream that cannot be positioned makes every \<open>fseek\<close> fail.
\<close>

section \<open>Extensible cords\<close>

definition CORD_BUFSZ :: nat where "CORD_BUFSZ = 128"

text \<open>The buffer is given up to \<open>ec_bufptr\<close>.\<close>

record CORD_ec =
  ec_cord :: CORD
  ec_buf :: string

definition CORD_ec_init :: CORD_ec where
  "CORD_ec_init = \<lparr>ec_cord = CORD_EMPTY, ec_buf = []\<rparr>"

definition CORD_ec_flush_buf :: "CORD_ec \<Rightarrow> CORD_ec outcome" where
  "CORD_ec_flush_buf x =
     (let len = length (ec_buf x)
      in if len = 0 then Ret x
         else obind (CORD_cat_char_star (ec_cord x) (ec_buf x) len) (\<lambda>c. Ret \<lparr>ec_cord = c, ec_buf = []\<rparr>))"

definition CORD_ec_append :: "CORD_ec \<Rightarrow> char \<Rightarrow> CORD_ec outcome" where
  "CORD_ec_append x c =
     obind (if length (ec_buf x) = CORD_BUFSZ then CORD_ec_flush_buf x else Ret x) (\<lambda>x.
       Ret (x\<lparr>ec_buf := ec_buf x @ [c]\<rparr>))"

definition CORD_ec_append_cord :: "CORD_ec \<Rightarrow> CORD \<Rightarrow> CORD_ec outcome" where
  "CORD_ec_append_cord x s =
     obind (CORD_ec_flush_buf x) (\<lambda>x. obind (CORD_cat (ec_cord x) s) (\<lambda>c. Ret (x\<lparr>ec_cord := c\<rparr>)))"

definition CORD_ec_to_cord :: "CORD_ec \<Rightarrow> CORD outcome" where
  "CORD_ec_to_cord x = obind (CORD_ec_flush_buf x) (\<lambda>x. Ret (ec_cord x))"

section \<open>Files\<close>

text \<open>The loop of \<open>CORD_from_file_eager\<close>; a run of NULs becomes one function node.\<close>

function file_eager_loop :: "string \<Rightarrow> CORD_ec \<Rightarrow> CORD_ec outcome" where
  "file_eager_loop [] ec = Ret ec"
| "file_eager_loop (c # cs) ec =
     (if c = NUL then
        let cnt = 1 + length (takeWhile (\<lambda>d. d = NUL) cs); rest = dropWhile (\<lambda>d. d = NUL) cs
        in obind (CORD_ec_flush_buf ec) (\<lambda>ec. obind (CORD_cat (ec_cord ec) (CORD_chars NUL cnt)) (\<lambda>x.
             let ec = ec\<lparr>ec_cord := x\<rparr>
             in (case rest of
                   [] \<Rightarrow> Ret ec
                 | d # ds \<Rightarrow> obind (CORD_ec_append ec d) (\<lambda>ec. file_eager_loop ds ec))))
      else obind (CORD_ec_append ec c) (\<lambda>ec. file_eager_loop cs ec))"
  by pat_completeness auto
termination
proof (relation "measure (\<lambda>(cs, ec). length cs)")
  fix c cs ec cnt rest ec' x ec'' d ds ec3
  assume "rest = dropWhile (\<lambda>d. d = NUL) cs" "rest = d # ds"
  then have "length (d # ds) \<le> length cs" by (metis length_dropWhile_le)
  then show "((ds, ec3), c # cs, ec) \<in> measure (\<lambda>(cs, ec). length cs)" by simp
qed auto

definition CORD_from_file_eager :: "string \<Rightarrow> CORD outcome" where
  "CORD_from_file_eager f =
     obind (file_eager_loop f CORD_ec_init) (\<lambda>ec. obind (CORD_ec_to_cord ec) CORD_balance)"

definition LINE_SZ :: nat where "LINE_SZ = 512"
definition CACHE_SZ :: nat where "CACHE_SZ = 16384"
definition LAZY_THRESHOLD :: nat where "LAZY_THRESHOLD = 128 * 1024 + 1"

definition MOD_CACHE_SZ :: "nat \<Rightarrow> nat" where "MOD_CACHE_SZ n = n mod CACHE_SZ"
definition MOD_LINE_SZ :: "nat \<Rightarrow> nat" where "MOD_LINE_SZ n = n mod LINE_SZ"
definition DIV_LINE_SZ :: "nat \<Rightarrow> nat" where "DIV_LINE_SZ n = n div LINE_SZ"
definition LINE_START :: "nat \<Rightarrow> nat" where "LINE_START n = n - n mod LINE_SZ"

text \<open>The state of a lazily read file, with the contents and the position of the stream itself.\<close>

record lf_state =
  lf_data :: string
  lf_seekable :: bool
  lf_offset :: nat
  lf_current :: nat
  lf_cache :: "nat \<Rightarrow> (nat \<times> string) option"

definition refill_cache :: "lf_state \<Rightarrow> nat \<Rightarrow> (char \<times> lf_state) outcome" where
  "refill_cache state file_pos =
     (let line_start = LINE_START file_pos; line_no = DIV_LINE_SZ (MOD_CACHE_SZ file_pos)
      in if line_start \<noteq> lf_current state \<and> \<not> lf_seekable state then Abort ''fseek failed''
         else let offset = (if line_start \<noteq> lf_current state then line_start else lf_offset state);
                  new_data = take LINE_SZ (drop offset (lf_data state))
         in if length new_data \<le> file_pos - line_start then Abort ''fread failed''
            else Ret (new_data ! MOD_LINE_SZ file_pos,
                   state\<lparr>lf_offset := offset + length new_data,
                         lf_cache := (lf_cache state)(line_no := Some (DIV_LINE_SZ file_pos, new_data)),
                         lf_current := line_start + LINE_SZ\<rparr>))"

definition CORD_lf_func :: "nat \<Rightarrow> lf_state \<Rightarrow> (char \<times> lf_state) outcome" where
  "CORD_lf_func i state =
     (case lf_cache state (DIV_LINE_SZ (MOD_CACHE_SZ i)) of
        None \<Rightarrow> refill_cache state i
      | Some (tag, cl) \<Rightarrow>
          if tag \<noteq> DIV_LINE_SZ i then refill_cache state i else Ret (cl ! MOD_LINE_SZ i, state))"

definition lf_init :: "string \<Rightarrow> bool \<Rightarrow> lf_state" where
  "lf_init f seekable = \<lparr>lf_data = f, lf_seekable = seekable, lf_offset = 0, lf_current = 0, lf_cache = (\<lambda>_. None)\<rparr>"

text \<open>
  The function of the node is \<open>CORD_lf_func\<close> on a fresh state: the lemmas below show that the
  characters it returns do not depend on the calls before.
\<close>

definition lf_char :: "lf_state \<Rightarrow> nat \<Rightarrow> char" where
  "lf_char state i = (case CORD_lf_func i state of Ret (c, _) \<Rightarrow> c | _ \<Rightarrow> NUL)"

definition CORD_from_file_lazy_inner :: "string \<Rightarrow> bool \<Rightarrow> nat \<Rightarrow> CORD outcome" where
  "CORD_from_file_lazy_inner f seekable len =
     (if len \<noteq> 0 \<and> \<not> seekable then Abort ''Bad f argument or I/O failure''
      else Ret (CORD_from_fn (lf_char (lf_init f seekable)) len))"

definition CORD_from_file_lazy :: "string \<Rightarrow> bool \<Rightarrow> CORD outcome" where
  "CORD_from_file_lazy f seekable =
     (if \<not> seekable then Abort ''Bad f argument or I/O failure''
      else CORD_from_file_lazy_inner f seekable (length f))"

definition CORD_from_file :: "string \<Rightarrow> bool \<Rightarrow> CORD outcome" where
  "CORD_from_file f seekable =
     (if \<not> seekable then Abort ''Bad f argument or I/O failure''
      else if length f < LAZY_THRESHOLD then CORD_from_file_eager f
      else CORD_from_file_lazy_inner f seekable (length f))"

section \<open>Extensible cords represent their characters\<close>

definition ec_chars :: "CORD_ec \<Rightarrow> string" where
  "ec_chars x = cord_chars (ec_cord x) @ ec_buf x"

definition ec_ok :: "CORD_ec \<Rightarrow> bool" where
  "ec_ok x \<longleftrightarrow> cord_ok (ec_cord x) \<and> NUL \<notin> set (ec_buf x) \<and> length (ec_buf x) \<le> CORD_BUFSZ"

lemma CORD_ec_flush_buf_spec:
  assumes "ec_ok x" "length (ec_chars x) < CORD_SAFE_LEN"
  shows "\<exists>y. CORD_ec_flush_buf x = Ret y \<and> ec_ok y \<and> ec_chars y = ec_chars x \<and> ec_buf y = []"
proof (cases "ec_buf x = []")
  case False
  from CORD_cat_char_star_spec[of "ec_cord x" "ec_buf x" "length (ec_buf x)"] assms
  obtain z where "CORD_cat_char_star (ec_cord x) (ec_buf x) (length (ec_buf x)) = Ret z" "cord_ok z"
    "cord_chars z = cord_chars (ec_cord x) @ ec_buf x"
    by (auto simp: ec_ok_def ec_chars_def)
  then show ?thesis
    using False by (simp add: CORD_ec_flush_buf_def ec_ok_def ec_chars_def CORD_BUFSZ_def)
qed (use assms in \<open>simp add: CORD_ec_flush_buf_def ec_ok_def\<close>)

lemma CORD_ec_append_spec:
  assumes "ec_ok x" "length (ec_chars x) < CORD_SAFE_LEN" "c \<noteq> NUL"
  shows "\<exists>y. CORD_ec_append x c = Ret y \<and> ec_ok y \<and> ec_chars y = ec_chars x @ [c]"
proof (cases "length (ec_buf x) = CORD_BUFSZ")
  case True
  with CORD_ec_flush_buf_spec[OF assms(1,2)] assms(3) show ?thesis
    by (auto simp: CORD_ec_append_def ec_ok_def ec_chars_def CORD_BUFSZ_def)
qed (use assms in \<open>auto simp: CORD_ec_append_def ec_ok_def ec_chars_def\<close>)

lemma CORD_ec_append_cord_spec:
  assumes "ec_ok x" "cord_ok s" "length (ec_chars x) + length (cord_chars s) < CORD_SAFE_LEN"
  shows "\<exists>y. CORD_ec_append_cord x s = Ret y \<and> ec_ok y \<and> ec_chars y = ec_chars x @ cord_chars s \<and> ec_buf y = []"
proof -
  from CORD_ec_flush_buf_spec[OF assms(1)] assms(3) obtain y where
    y: "CORD_ec_flush_buf x = Ret y" "ec_ok y" "ec_chars y = ec_chars x" "ec_buf y = []" by auto
  from CORD_cat_spec[of "ec_cord y" s] y assms(2,3) obtain z where
    "CORD_cat (ec_cord y) s = Ret z" "cord_ok z" "cord_chars z = cord_chars (ec_cord y) @ cord_chars s"
    by (auto simp: ec_ok_def ec_chars_def)
  then show ?thesis
    using y by (simp add: CORD_ec_append_cord_def ec_ok_def ec_chars_def)
qed

text \<open>
  C38: An extensible cord stands for its cord followed by its buffer: appending a character other
  than NUL or a cord extends these characters, also when the full buffer is flushed, and
  \<open>CORD_ec_to_cord\<close> returns a well-formed cord of exactly these characters.
\<close>

theorem CORD_ec_correct:
  assumes "ec_ok x" "c \<noteq> NUL" "cord_ok s" "length (ec_chars x) + CORD_len s < CORD_SAFE_LEN"
  shows "(\<exists>y. CORD_ec_append x c = Ret y \<and> ec_ok y \<and> ec_chars y = ec_chars x @ [c])
    \<and> (\<exists>y. CORD_ec_append_cord x s = Ret y \<and> ec_ok y \<and> ec_chars y = ec_chars x @ cord_chars s)
    \<and> (\<exists>z. CORD_ec_to_cord x = Ret z \<and> cord_ok z \<and> cord_chars z = ec_chars x)"
proof -
  have l: "length (ec_chars x) + length (cord_chars s) < CORD_SAFE_LEN" "length (ec_chars x) < CORD_SAFE_LEN"
    using assms(3,4) by (simp_all add: cord_ok_def CORD_len_chars)
  from CORD_ec_flush_buf_spec[OF assms(1) l(2)]
  have "\<exists>z. CORD_ec_to_cord x = Ret z \<and> cord_ok z \<and> cord_chars z = ec_chars x"
    by (auto simp: CORD_ec_to_cord_def ec_ok_def ec_chars_def)
  then show ?thesis
    using CORD_ec_append_spec[OF assms(1) l(2) assms(2)] CORD_ec_append_cord_spec[OF assms(1,3) l(1)] by blast
qed

theorem CORD_ec_correct_witness:
  "\<exists>y. CORD_ec_append (CORD_ec_init\<lparr>ec_buf := replicate 128 CHR ''a''\<rparr>) CHR ''b'' = Ret y
     \<and> ec_chars y = replicate 128 CHR ''a'' @ ''b''"
  using CORD_ec_correct[of "CORD_ec_init\<lparr>ec_buf := replicate 128 CHR ''a''\<rparr>" "CHR ''b''" CORD_EMPTY]
  by (auto simp: ec_ok_def CORD_ec_init_def cord_ok_def CORD_MAX_DEPTH_def CORD_BUFSZ_def NUL_def CORD_SAFE_LEN_def
      CORD_len_def ec_chars_def)

section \<open>Files are read back unchanged\<close>

lemma takeWhile_NUL: "takeWhile (\<lambda>d. d = NUL) cs = replicate (length (takeWhile (\<lambda>d. d = NUL) cs)) NUL"
  by (induction cs) auto

lemma file_eager_loop_spec:
  assumes "ec_ok ec" "length (ec_chars ec) + length f < CORD_SAFE_LEN"
  shows "\<exists>ec'. file_eager_loop f ec = Ret ec' \<and> ec_ok ec' \<and> ec_chars ec' = ec_chars ec @ f"
  using assms
proof (induction f ec rule: file_eager_loop.induct)
  case (2 c cs ec)
  show ?case
  proof (cases "c = NUL")
    case False
    from CORD_ec_append_spec[OF 2(3) _ False] 2(4) obtain e where
      e: "CORD_ec_append ec c = Ret e" "ec_ok e" "ec_chars e = ec_chars ec @ [c]" by auto
    have "length (ec_chars e) + length cs < CORD_SAFE_LEN" using e(3) 2(4) by simp
    from 2(2)[OF False e(2) this] show ?thesis using e(1,3) False by simp
  next
    case True
    let ?n = "1 + length (takeWhile (\<lambda>d. d = NUL) cs)" and ?rest = "dropWhile (\<lambda>d. d = NUL) cs"
    have cs: "c # cs = replicate ?n NUL @ ?rest"
      using takeWhile_NUL[of cs] True by (simp add: takeWhile_dropWhile_id[of _ cs, symmetric] flip: takeWhile_NUL)
    have len: "?n + length ?rest = length (c # cs)" using arg_cong[OF cs, of length] by simp
    have "length (ec_chars ec) < CORD_SAFE_LEN" using 2(4) by simp
    from CORD_ec_flush_buf_spec[OF 2(3) this] obtain e where
      e: "CORD_ec_flush_buf ec = Ret e" "ec_ok e" "ec_chars e = ec_chars ec" "ec_buf e = []" by blast
    from CORD_cat_spec[of "ec_cord e" "CORD_chars NUL ?n"] e 2(4) len CORD_chars_spec[of NUL ?n] obtain x where
      x: "CORD_cat (ec_cord e) (CORD_chars NUL ?n) = Ret x" "cord_ok x" "cord_chars x = cord_chars (ec_cord e) @ replicate ?n NUL"
      by (auto simp: ec_ok_def ec_chars_def)
    let ?e = "e\<lparr>ec_cord := x\<rparr>"
    have e': "ec_ok ?e" "ec_chars ?e = ec_chars ec @ replicate ?n NUL"
      using e x by (auto simp: ec_ok_def ec_chars_def)
    show ?thesis
    proof (cases ?rest)
      case Nil
      have "file_eager_loop (c # cs) ec = Ret ?e"
        by (simp only: file_eager_loop.simps Let_def True if_True e(1) x(1) obind.simps Nil list.case simp_thms)
      moreover have "ec_chars ?e = ec_chars ec @ c # cs" unfolding cs Nil e'(2) by simp
      ultimately show ?thesis using e'(1) by blast
    next
      case (Cons d ds)
      have "d \<noteq> NUL" using Cons by (metis (mono_tags) hd_dropWhile list.sel(1) list.simps(3))
      moreover have "length (ec_chars ?e) < CORD_SAFE_LEN" using e'(2) 2(4) len Cons by simp
      ultimately obtain g where
        g: "CORD_ec_append ?e d = Ret g" "ec_ok g" "ec_chars g = ec_chars ?e @ [d]"
        using CORD_ec_append_spec[OF e'(1)] by blast
      have "length (ec_chars g) + length ds < CORD_SAFE_LEN" using g(3) e'(2) 2(4) len Cons by simp
      from 2(1)[OF True refl refl refl Cons g(2) this] obtain h where
        h: "file_eager_loop ds g = Ret h" "ec_ok h" "ec_chars h = ec_chars g @ ds" by blast
      have "ec_chars h = ec_chars ec @ c # cs" unfolding cs Cons h(3) g(3) e'(2) by simp
      moreover have "file_eager_loop (c # cs) ec = Ret h"
        using True e(1) x(1) Cons g(1) h(1) by (simp add: Let_def)
      ultimately show ?thesis using h(2) by blast
    qed
  qed
qed simp

lemma CORD_from_file_eager_spec:
  assumes "length f < CORD_SAFE_LEN"
  shows "\<exists>z. CORD_from_file_eager f = Ret z \<and> cord_ok z \<and> cord_chars z = f"
proof -
  have "ec_ok CORD_ec_init" "ec_chars CORD_ec_init = []"
    by (simp_all add: ec_ok_def ec_chars_def CORD_ec_init_def cord_ok_def CORD_MAX_DEPTH_def)
  with file_eager_loop_spec[of CORD_ec_init f] assms obtain ec where
    ec: "file_eager_loop f CORD_ec_init = Ret ec" "ec_ok ec" "ec_chars ec = f" by auto
  from CORD_ec_flush_buf_spec[OF ec(2)] ec(3) assms obtain y where
    y: "CORD_ec_flush_buf ec = Ret y" "ec_ok y" "cord_chars (ec_cord y) = f" by (auto simp: ec_chars_def)
  have "cord_wf (ec_cord y)" "length (cord_chars (ec_cord y)) < min_len ! 44"
    using y assms by (simp_all add: ec_ok_def cord_ok_def CORD_SAFE_LEN_def min_len_values)
  from CORD_balance_fuel_spec[OF this, of 7] obtain z where
    "CORD_balance (ec_cord y) = Ret z" "cord_wf z" "DEPTH z \<le> 46" "cord_chars z = f"
    unfolding CORD_balance_def BALANCE_FUEL_Suc y(3) by blast
  then show ?thesis
    using ec(1) y(1) by (simp add: CORD_from_file_eager_def CORD_ec_to_cord_def cord_ok_def CORD_MAX_DEPTH_def)
qed

text \<open>
  The cache of a lazily read file: every line is the line of the file that its tag names, and the
  position of the stream is the recorded one, or the end of the file when that lies behind it.
\<close>

definition lf_ok :: "lf_state \<Rightarrow> bool" where
  "lf_ok st \<longleftrightarrow> lf_seekable st \<and> lf_offset st = min (lf_current st) (length (lf_data st))
     \<and> (\<forall>k t d. lf_cache st k = Some (t, d) \<longrightarrow> d = take LINE_SZ (drop (t * LINE_SZ) (lf_data st)))"

lemma line_arith: "LINE_START i = DIV_LINE_SZ i * LINE_SZ" "LINE_START i \<le> i" "i - LINE_START i = MOD_LINE_SZ i"
  "MOD_LINE_SZ i < LINE_SZ" "DIV_LINE_SZ i * LINE_SZ + MOD_LINE_SZ i = i"
  by (simp_all add: LINE_START_def DIV_LINE_SZ_def MOD_LINE_SZ_def LINE_SZ_def minus_mod_eq_div_mult minus_div_mult_eq_mod)

lemma line_nth:
  assumes "i < length f"
  shows "take LINE_SZ (drop (DIV_LINE_SZ i * LINE_SZ) f) ! MOD_LINE_SZ i = f ! i"
    "MOD_LINE_SZ i < length (take LINE_SZ (drop (DIV_LINE_SZ i * LINE_SZ) f))"
  using assms line_arith(4,5)[of i] by auto

lemma refill_cache_spec:
  assumes "lf_ok st" "i < length (lf_data st)"
  shows "\<exists>st'. refill_cache st i = Ret (lf_data st ! i, st') \<and> lf_ok st' \<and> lf_data st' = lf_data st"
proof -
  let ?s = "DIV_LINE_SZ i * LINE_SZ"
  let ?d = "take LINE_SZ (drop ?s (lf_data st))"
  have s: "LINE_START i = ?s" "?s \<le> i" using line_arith(1,2)[of i] by auto
  have off: "(if ?s \<noteq> lf_current st then ?s else lf_offset st) = ?s"
    using assms s(2) by (auto simp: lf_ok_def)
  have ok: "lf_seekable st" using assms(1) by (simp add: lf_ok_def)
  note nth = line_nth[OF assms(2)]
  let ?st = "st\<lparr>lf_offset := ?s + length ?d,
      lf_cache := (lf_cache st)(DIV_LINE_SZ (MOD_CACHE_SZ i) := Some (DIV_LINE_SZ i, ?d)), lf_current := ?s + LINE_SZ\<rparr>"
  have "refill_cache st i = Ret (lf_data st ! i, ?st)"
    unfolding refill_cache_def Let_def s(1) off using ok nth line_arith(3)[of i] s(1) by (simp del: length_take)
  moreover have "lf_ok ?st"
    using assms s(2) by (auto simp: lf_ok_def)
  ultimately show ?thesis by auto
qed

lemma CORD_lf_func_spec:
  assumes "lf_ok st" "i < length (lf_data st)"
  shows "\<exists>st'. CORD_lf_func i st = Ret (lf_data st ! i, st') \<and> lf_ok st' \<and> lf_data st' = lf_data st"
proof (cases "\<exists>d. lf_cache st (DIV_LINE_SZ (MOD_CACHE_SZ i)) = Some (DIV_LINE_SZ i, d)")
  case True
  then obtain d where d: "lf_cache st (DIV_LINE_SZ (MOD_CACHE_SZ i)) = Some (DIV_LINE_SZ i, d)" by blast
  then have "d = take LINE_SZ (drop (DIV_LINE_SZ i * LINE_SZ) (lf_data st))" using assms(1) by (auto simp: lf_ok_def)
  then show ?thesis
    using d assms(1) line_nth(1)[OF assms(2)] by (simp add: CORD_lf_func_def)
next
  case False
  then have "CORD_lf_func i st = refill_cache st i"
    by (auto simp: CORD_lf_func_def split: option.split)
  then show ?thesis using refill_cache_spec[OF assms] by simp
qed

text \<open>
  C39: Reading a lazily read file through its line cache is coherent: in every state that the cache can
  reach, \<open>CORD_lf_func\<close> returns character \<open>i\<close> of the file without an I/O failure, on a hit as on a miss that
  replaces the line, and leaves the cache in such a state.
\<close>

theorem CORD_lf_func_correct:
  assumes "lf_ok st" "i < length (lf_data st)"
  shows "\<exists>st'. CORD_lf_func i st = Ret (lf_data st ! i, st') \<and> lf_ok st' \<and> lf_data st' = lf_data st"
  by (rule CORD_lf_func_spec[OF assms])

lemma lf_init_ok: "lf_ok (lf_init f True)"
  by (simp add: lf_ok_def lf_init_def)

theorem CORD_lf_func_correct_witness:
  "\<exists>st'. CORD_lf_func 2 (lf_init ''abc'' True) = Ret (CHR ''c'', st') \<and> lf_ok st'"
  using CORD_lf_func_correct[OF lf_init_ok, of 2 "''abc''"] by (auto simp: lf_init_def)

lemma CORD_from_file_lazy_inner_spec:
  "\<exists>z. CORD_from_file_lazy_inner f True (length f) = Ret z \<and> cord_ok z \<and> cord_chars z = f"
proof -
  have "lf_char (lf_init f True) i = f ! i" if "i < length f" for i
    using CORD_lf_func_spec[OF lf_init_ok, of i f] that by (auto simp: lf_char_def lf_init_def)
  then have "map (lf_char (lf_init f True)) [0 ..< length f] = f"
    by (intro nth_equalityI) auto
  then show ?thesis
    using CORD_from_fn_spec[of "lf_char (lf_init f True)" "length f"] by (simp add: CORD_from_file_lazy_inner_def)
qed

text \<open>The stream that takes all characters.\<close>

definition out_putc :: "string iter_fn" where
  "out_putc c f = (False, f @ [c])"

definition out_fputs :: "string batched_iter_fn" where
  "out_fputs s f = (False, f @ s)"

lemma iter_out: "iter_chars out_putc s f = (False, f @ s)"
  by (induction s arbitrary: f) (simp_all add: out_putc_def)

lemma CORD_put_spec:
  assumes "cord_ok x"
  shows "CORD_put out_putc out_fputs x f = Ret (False, f @ cord_chars x)"
proof (cases "is_EMPTY x")
  case False
  have "batched out_putc (Some out_fputs)" by (simp add: batched_def iter_out out_fputs_def)
  moreover have "0 < length (cord_chars x)" using False chars_nonempty assms by (auto simp: cord_ok_def)
  ultimately show ?thesis
    using CORD_iter5_spec[OF assms, of out_putc "Some out_fputs" 0 f] by (simp add: CORD_put_def iter_out)
qed (cases x; simp add: CORD_put_def)

text \<open>
  C40: Writing a cord with \<open>CORD_put\<close> and reading the file back with \<open>CORD_from_file\<close>, eagerly or lazily
  depending on its length and with all runs of NUL characters, gives a well-formed cord of the same
  characters.
\<close>

theorem CORD_put_from_file_roundtrip:
  assumes "cord_ok x" "CORD_len x < CORD_SAFE_LEN"
  shows "\<exists>f z. CORD_put out_putc out_fputs x [] = Ret (False, f) \<and> CORD_from_file f True = Ret z
    \<and> cord_ok z \<and> cord_chars z = cord_chars x"
proof -
  have "length (cord_chars x) < CORD_SAFE_LEN" using assms by (simp add: cord_ok_def CORD_len_chars)
  then have "\<exists>z. CORD_from_file (cord_chars x) True = Ret z \<and> cord_ok z \<and> cord_chars z = cord_chars x"
    using CORD_from_file_eager_spec CORD_from_file_lazy_inner_spec by (simp add: CORD_from_file_def)
  then show ?thesis using CORD_put_spec[OF assms(1), of "[]"] by auto
qed

theorem CORD_put_from_file_roundtrip_witness:
  "\<exists>f z. CORD_put out_putc out_fputs (Concat 1 3 43 (CStr ''abc'') (Func 40 (\<lambda>_. NUL))) [] = Ret (False, f)
     \<and> CORD_from_file f True = Ret z \<and> cord_chars z = ''abc'' @ replicate 40 NUL"
proof -
  have "cord_ok (Concat 1 3 43 (CStr ''abc'') (Func 40 (\<lambda>_. NUL)))"
    by (simp add: cord_ok_def CORD_MAX_DEPTH_def NUL_def MAX_LEFT_LEN_def)
  from CORD_put_from_file_roundtrip[OF this] show ?thesis
    by (auto simp: CORD_len_def CORD_SAFE_LEN_def const_chars)
qed

end
