(* ===== verification/Spec2Isabelle.thy ===== *)
theory Spec2Isabelle
  imports Roots Hblk_Alloc Cord_File
begin

text \<open>
  A verification library for the conservative garbage collector in this repository (a fork of
  bdwgc) and for the cord string package that comes with it.

  \<^bold>\<open>Configuration.\<close> The models follow the source as it is compiled for Linux on x86-64 by the release
  build: no threads, \<open>HBLKSIZE\<close> 4096, granules of 16 bytes, a hashed top level of the block index
  (\<open>HASH_TL\<close>), page hash tables of \<open>2 ^ 18\<close> bits, interior pointers not all recognised, unmapping of
  free blocks enabled. Branches for other platforms are not part of the definitions.

  \<^bold>\<open>Parts of the program and their theories.\<close>

  \<^item> Shared types, alignment macros, linked chains over a store and bit arrays: \<open>GC_Prelude\<close>.
    Functions that may abort or leave an array return an \<^typ>\<open>'a outcome\<close>: a value, an abort with
    its message, or \<open>Stuck\<close> (no defined behaviour, or a loop out of fuel).

  \<^item> The registry of static roots and the exclusion table (\<^verbatim>\<open>mark_rts.c\<close>): \<open>Roots\<close>. The state is the
    array of root ranges with its hash index and the sorted array of exclusions; the operations
    are \<open>GC_add_roots_inner\<close>, the removals, \<open>GC_exclude_static_roots_inner\<close> and the pushing of the
    remaining ranges to the marker. The lemmas show that the table covers exactly the registered
    addresses, that the hash index stays consistent with it, and that what is pushed is covered
    minus excluded.

  \<^item> The block header index (\<^verbatim>\<open>headers.c\<close>, \<^verbatim>\<open>include/private/gc_hdrs.h\<close>): \<open>Header_Table\<close> has the scratch
    allocator, header allocation, the hash chains and ordered list of index blocks, installation
    and removal of headers and forwarding counts; \<open>Header_Walk\<close> has the walks over blocks. The
    index is characterised by one function from addresses to headers, and every operation by its
    change of this function; the walks visit exactly the blocks in address order. Addresses are
    natural numbers; loop limits that C computes modulo \<open>2 ^ 64\<close> are so in the model, and the theorems on
    forwarding counts ask that an object ends below the last block of the address space. The
    header cache is emptied by the operations; filling it is part of the marker.

  \<^item> Black lists (\<^verbatim>\<open>blacklst.c\<close>): \<open>Black_List\<close>. Recording, promotion, counting, and the query the
    block allocator makes; the query that skips whole words equals the scan block by block, and a
    promotion exchanges the tables of the two generations.

  \<^item> The heap block allocator (\<^verbatim>\<open>allchblk.c\<close>): \<open>Hblk_List\<close> has the size classes and the doubly linked
    lists, \<open>Hblk_Parts\<close> the search for neighbours and the partition of the heap into blocks,
    \<open>Hblk_Free\<close> the freeing of a block, \<open>Hblk_Merge\<close> merging and unmapping, \<open>Hblk_Setup\<close> the header of
    a new block with the maps of \<^verbatim>\<open>new_hblk.c\<close>, \<open>Hblk_Take\<close> the taking of the first part of a free
    block, \<open>Hblk_Split\<close> splitting and dropping, \<open>Hblk_Alloc\<close> the search of one list. The state is the header index
    and black lists together with the lists and counters of the allocator; calls into the
    operating system layer are recorded. The invariant \<open>heap_inv\<close> says that the headers partition the
    heap and that the lists hold exactly the free blocks, each on the list of its size, with the
    right byte counts; every operation is shown to keep it and to leave blocks in use alone. An
    allocated block lies in memory that was free. The one exception is an allocation that runs out
    of memory for headers halfway, after which nothing is claimed about the heap.

  \<^item> Cords (\<^verbatim>\<open>cord/cordbscs.c\<close>, \<^verbatim>\<open>cord/cordxtra.c\<close>, \<^verbatim>\<open>include/gc/cord_pos.h\<close>, \<^verbatim>\<open>include/gc/ec.h\<close>): \<open>Cord_Rep\<close> has
    the representation, concatenation and rebalancing, \<open>Cord_Access\<close> substrings and iteration,
    \<open>Cord_Pos\<close> positions, \<open>Cord_Extra\<close> conversion, comparison and searching, \<open>Cord_File\<close> extensible
    cords and files. A cord stands for a list of characters (\<open>cord_chars\<close>); every operation is shown
    to keep the representation invariant (\<open>cord_ok\<close>) and to act on the list as it should.

  \<^bold>\<open>Interfaces.\<close> Locales state what a component relies on: \<open>bit_table\<close> (bit arrays, interpreted on the
    arrays of words), \<open>shallow_cat\<close> (the concatenation that balancing uses, interpreted on \<open>CORD_cat_with\<close>),
    \<open>cord_cursor\<close> (positions as cursors over the characters, interpreted on the \<open>CORD_pos\<close> operations).

  \<^bold>\<open>Fuel and bounds.\<close> Walks over index blocks have the fuel \<open>BI_FUEL = 2 ^ 42 + 2\<close>: keys are below \<open>2 ^ 42\<close> and
  distinct along a chain, so it is enough (the lemmas prove results, not only partial correctness).
  A free list has at most one entry per block of the address space, hence \<open>FL_FUEL = 2 ^ 52 + 2\<close> rounds;
  \<open>GC_merge_unmapped\<close> starts over after every merge, which leaves one block less, hence \<open>MERGE_FUEL\<close>.
  Concatenation and balancing of cords call each other; \<open>BALANCE_FUEL\<close> bounds the nesting, and for cords
  below \<open>CORD_SAFE_LEN\<close> characters (the 45th entry of the table of minimal lengths) a balancing never
  starts another one: the theorem on balancing holds for every bound on the nesting. Between that length and the abort for too long cords nothing is claimed.

  \<^bold>\<open>Not modelled.\<close> Marking and sweeping, the allocation of objects, the growth of the heap, finalization, threads and
  signals, dynamic library and stack scanning, virtual dirty bits, and the operating system layer;
  formatted cord output (\<^verbatim>\<open>cord/cordprnt.c\<close>) rests on the C library's formatting. Failure of the
  allocations made by the cord package is not modelled: it prints a message and aborts.
\<close>

end
